(* ===== verification/Prelude.thy ===== *)
theory Prelude
  imports Main "HOL-Library.Word" "HOL-Library.Monad_Syntax"
begin

text \<open>
  Shared vocabulary of the development: names for the C integer types, the result type of code
  that may panic, singly linked lists threaded through a record field, and the generic facts
  about machine words that the component theories use.
\<close>

unbundle bit_operations_syntax

section \<open>C integer types\<close>

type_synonym u8 = "8 word"
type_synonym u16 = "16 word"
type_synonym u32 = "32 word"

section \<open>Code that may panic\<close>

text \<open>
  A function that can reach \<open>panic()\<close> or a failing \<open>assert()\<close> returns an option: \<^const>\<open>None\<close> is
  the panic. The do-notation of the option monad sequences such calls.
\<close>

definition c_assert :: "bool \<Rightarrow> unit option" where
  "c_assert b = (if b then Some () else None)"

lemma c_assert_simps [simp]:
  "c_assert True = Some ()" "c_assert False = None"
  "(c_assert b = Some u) \<longleftrightarrow> b" "(c_assert b = None) \<longleftrightarrow> \<not> b"
  by (simp_all add: c_assert_def)

lemma bind_c_assert [simp]: "(c_assert b \<bind> f) = (if b then f () else None)"
  by (simp add: c_assert_def)

text \<open>A loop over a list whose body may panic.\<close>

primrec ofold :: "('a \<Rightarrow> 's \<Rightarrow> 's option) \<Rightarrow> 'a list \<Rightarrow> 's \<Rightarrow> 's option" where
  "ofold f [] s = Some s"
| "ofold f (x # xs) s = f x s \<bind> ofold f xs"

lemma ofold_upt:
  assumes "P a s" "a \<le> b"
    and "\<And>i s. \<lbrakk>a \<le> i; i < b; P i s\<rbrakk> \<Longrightarrow> \<exists>s'. f i s = Some s' \<and> P (Suc i) s'"
  shows "\<exists>s'. ofold f [a..<b] s = Some s' \<and> P b s'"
proof -
  have "\<exists>s'. ofold f [i..<b] s = Some s' \<and> P b s'" if "a \<le> i" "i \<le> b" "P i s" for i s
    using that
  proof (induction "b - i" arbitrary: i s)
    case 0
    then show ?case by simp
  next
    case (Suc n)
    then have i: "i < b" by simp
    with Suc.prems assms(3) obtain s1 where s1: "f i s = Some s1" "P (Suc i) s1" by blast
    then have "\<exists>s'. ofold f [Suc i..<b] s1 = Some s' \<and> P b s'"
      using Suc.hyps i Suc.prems by (intro Suc.hyps(1)) auto
    with s1(1) i show ?case by (simp add: upt_conv_Cons)
  qed
  with assms(1,2) show ?thesis by blast
qed

section \<open>Singly linked lists\<close>

text \<open>
  A linked list threaded through a \<open>next\<close> field of an array of records: pointers are array
  indices (or addresses), \<^const>\<open>None\<close> is NULL. \<open>chain nxt p xs\<close> says that following \<open>nxt\<close>
  from \<open>p\<close> visits exactly \<open>xs\<close> and then reaches NULL. \<open>follow\<close> computes that list with a
  bound on its length.
\<close>

fun chain :: "('a \<Rightarrow> 'a option) \<Rightarrow> 'a option \<Rightarrow> 'a list \<Rightarrow> bool" where
  "chain nxt p [] \<longleftrightarrow> p = None"
| "chain nxt p (x # xs) \<longleftrightarrow> p = Some x \<and> chain nxt (nxt x) xs"

fun follow :: "nat \<Rightarrow> ('a \<Rightarrow> 'a option) \<Rightarrow> 'a option \<Rightarrow> 'a list" where
  "follow 0 nxt p = []"
| "follow (Suc n) nxt p = (case p of None \<Rightarrow> [] | Some x \<Rightarrow> x # follow n nxt (nxt x))"

lemma chain_None [simp]: "chain nxt None xs \<longleftrightarrow> xs = []"
  by (cases xs) auto

lemma chain_Some: "chain nxt (Some x) xs \<longleftrightarrow> (\<exists>ys. xs = x # ys \<and> chain nxt (nxt x) ys)"
  by (cases xs) auto

lemma chain_cong:
  "(\<And>x. x \<in> set xs \<Longrightarrow> nxt x = nxt' x) \<Longrightarrow> chain nxt p xs \<longleftrightarrow> chain nxt' p xs"
  by (induction xs arbitrary: p) auto

lemma chain_fun_upd [simp]: "x \<notin> set xs \<Longrightarrow> chain (nxt(x := v)) p xs \<longleftrightarrow> chain nxt p xs"
  by (rule chain_cong) auto

lemma chain_unique: "chain nxt p xs \<Longrightarrow> chain nxt p ys \<Longrightarrow> xs = ys"
  by (induction xs arbitrary: p ys) (auto simp: chain_Some)

lemma chain_upt:
  assumes "\<And>i. k \<le> i \<Longrightarrow> i < n \<Longrightarrow> nxt i = (if Suc i < n then Some (Suc i) else None)" and "k < n"
  shows "chain nxt (Some k) [k..<n]"
  using assms
proof (induction "n - k" arbitrary: k)
  case (Suc m)
  show ?case
  proof (cases "Suc k < n")
    case True
    then have "chain nxt (Some (Suc k)) [Suc k..<n]" using Suc by (intro Suc.hyps(1)) auto
    with True Suc.prems(1) [of k] show ?thesis by (simp add: upt_conv_Cons)
  next
    case False
    then have "n = Suc k" using Suc.prems(2) by simp
    then show ?thesis using Suc.prems(1) [of k] by simp
  qed
qed simp

lemma chain_append_D: "chain nxt p (xs @ y # ys) \<Longrightarrow> chain nxt (nxt y) ys"
  by (induction xs arbitrary: p) auto

lemma chain_tail_notin: "chain nxt (nxt x) xs \<Longrightarrow> x \<notin> set xs"
proof
  assume c: "chain nxt (nxt x) xs" and "x \<in> set xs"
  then obtain us vs where xs: "xs = us @ x # vs" by (auto simp: in_set_conv_decomp)
  with c have "chain nxt (nxt x) vs" by (auto dest: chain_append_D)
  with c have eq: "xs = vs" by (rule chain_unique)
  from xs have "length xs = length us + Suc (length vs)" by simp
  with eq show False by simp
qed

lemma chain_distinct: "chain nxt p xs \<Longrightarrow> distinct xs"
  by (induction xs arbitrary: p) (auto dest: chain_tail_notin)

lemma follow_chain: "chain nxt p xs \<Longrightarrow> length xs \<le> n \<Longrightarrow> follow n nxt p = xs"
proof (induction xs arbitrary: p n)
  case Nil
  then show ?case by (cases n) auto
next
  case (Cons x xs)
  then show ?case by (cases n) auto
qed

lemma chain_bound:
  assumes "chain nxt p xs" and "\<And>x. x \<in> set xs \<Longrightarrow> x < (n::nat)"
  shows "length xs \<le> n"
proof -
  have "set xs \<subseteq> {..<n}" using assms(2) by auto
  then have "card (set xs) \<le> n" using card_mono [of "{..<n}" "set xs"] by simp
  moreover have "card (set xs) = length xs"
    using assms(1) by (simp add: chain_distinct distinct_card)
  ultimately show ?thesis by simp
qed

section \<open>Machine words\<close>

lemma unat_less_32: "unat (x :: u32) < 4294967296"
  using unsigned_less [of x] by simp

lemma unat_less_16: "unat (x :: u16) < 65536"
  using unsigned_less [of x] by simp

lemma unat_drop_bit: "unat (drop_bit n (x :: 'a::len word)) = unat x div 2 ^ n"
  by (simp add: unat_drop_bit_eq flip: drop_bit_eq_div)

lemma unat_and_mask: "unat (x AND mask n :: 'a::len word) = unat x mod 2 ^ n"
  by (simp only: take_bit_eq_mask [symmetric] unsigned_take_bit_eq take_bit_eq_mod [symmetric])

lemma unat_of_nat_32 [simp]: "n < 4294967296 \<Longrightarrow> unat (of_nat n :: u32) = n"
  by (simp add: unat_of_nat take_bit_eq_mod)

lemma word_eq_unat: "x = y \<longleftrightarrow> unat x = unat y" for x y :: "'a::len word"
  by (simp add: word_unat_eq_iff)

lemma unat_add_32: "unat (x + y) = (unat x + unat y) mod 4294967296" for x y :: u32
  by (simp add: unat_word_ariths)

lemma signed_unat:
  fixes x :: "32 word"
  assumes "unat x < 2147483648"
  shows "sint x = int (unat x)"
proof -
  have "int (unat x) < 2147483648" using assms by linarith
  then have "uint x < 2 ^ 31" by simp
  moreover have "- (2 ^ 31) \<le> uint x" by (rule order_trans [of _ 0]) simp_all
  ultimately have "signed_take_bit 31 (uint x) = uint x" by (intro signed_take_bit_int_eq_self)
  then show ?thesis by (simp add: sint_uint)
qed

lemma unat_add_no_wrap:
  "unat x + unat y < 4294967296 \<Longrightarrow> unat (x + y) = unat x + unat y" for x y :: u32
  by (simp add: unat_add_32)

lemma unat_sub_no_wrap: "y \<le> x \<Longrightarrow> unat (x - y) = unat x - unat y" for x y :: u32
  by (simp add: unat_sub word_le_nat_alt)

section \<open>Counting the keys mapped to a value\<close>
definition occ :: "('k \<rightharpoonup> 'v) \<Rightarrow> 'v \<Rightarrow> nat" where
  "occ f v = card {k. f k = Some v}"

lemma finite_occ: "finite (dom f) \<Longrightarrow> finite {k. f k = Some v}"
  by (rule finite_subset [of _ "dom f"]) auto

lemma occ_upd:
  assumes "finite (dom f)"
  shows "occ (f(k := w)) v + (if f k = Some v then 1 else 0) = occ f v + (if w = Some v then 1 else 0)"
proof -
  let ?A = "{j. j \<noteq> k \<and> f j = Some v}"
  have fin: "finite ?A" by (rule finite_subset [OF _ assms]) auto
  have "{j. f j = Some v} = (if f k = Some v then insert k ?A else ?A)" by auto
  moreover have "{j. (f(k := w)) j = Some v} = (if w = Some v then insert k ?A else ?A)" by auto
  ultimately show ?thesis using fin by (auto simp: occ_def)
qed

lemma occ_pos: "finite (dom f) \<Longrightarrow> f k = Some v \<Longrightarrow> 0 < occ f v"
  by (auto simp: occ_def card_gt_0_iff finite_occ)

lemma occ_zero_iff: "finite (dom f) \<Longrightarrow> occ f v = 0 \<longleftrightarrow> v \<notin> ran f"
  by (auto simp: occ_def ran_def finite_occ)

lemma and_not_disjoint:
  fixes x m :: "'a::len word"
  assumes "x AND m = 0"
  shows "x AND NOT m = x"
proof (rule bit_word_eqI)
  fix n assume "n < LENGTH('a)"
  moreover have "\<not> bit (x AND m) n" using assms by simp
  ultimately show "bit (x AND NOT m) n = bit x n" by (auto simp: bit_and_iff bit_not_iff)
qed

lemma or_and_not_or:
  fixes x c m :: "'a::len word"
  shows "(x OR c) AND NOT (c OR m) = (x AND NOT m) AND NOT c"
  by (rule bit_word_eqI) (auto simp: bit_and_iff bit_not_iff bit_or_iff)

section \<open>Maps\<close>

lemma ran_mono: "m \<subseteq>\<^sub>m m' \<Longrightarrow> ran m \<subseteq> ran m'"
  by (force simp: map_le_def ran_def dom_def)

lemma restrict_step: "m |` (- insert k A) = (m |` (- A))(k := None)"
  by (auto simp: restrict_map_def)

end
