(* ===== verification/Jos_Mmu.thy ===== *)
theory Jos_Mmu
  imports Prelude
begin

text \<open>
  The address arithmetic of JOS: \<open>inc/mmu.h\<close>, \<open>inc/memlayout.h\<close> and the rounding macros of
  \<open>inc/types.h\<close> of \<open>xv6-rev11/lab6-net\<close>, on 32-bit words with C's wrap-around.
\<close>

section \<open>Paging macros\<close>

definition PGNUM :: "u32 \<Rightarrow> u32" where
  "PGNUM la = drop_bit 12 la"

definition PDX :: "u32 \<Rightarrow> u32" where
  "PDX la = drop_bit 22 la AND 0x3FF"

definition PTX :: "u32 \<Rightarrow> u32" where
  "PTX la = drop_bit 12 la AND 0x3FF"

definition PGOFF :: "u32 \<Rightarrow> u32" where
  "PGOFF la = la AND 0xFFF"

definition PGADDR :: "u32 \<Rightarrow> u32 \<Rightarrow> u32 \<Rightarrow> u32" where
  "PGADDR d t off = (push_bit 22 d OR push_bit 12 t) OR off"

definition PTE_ADDR :: "u32 \<Rightarrow> u32" where
  "PTE_ADDR pte = pte AND NOT 0xFFF"

abbreviation (input) NPTENTRIES :: nat where "NPTENTRIES \<equiv> 1024"
abbreviation (input) PGSIZE :: u32 where "PGSIZE \<equiv> 4096"
abbreviation (input) PTSIZE :: u32 where "PTSIZE \<equiv> 4194304"

abbreviation (input) PTE_P :: u32 where "PTE_P \<equiv> 0x001"
abbreviation (input) PTE_W :: u32 where "PTE_W \<equiv> 0x002"
abbreviation (input) PTE_U :: u32 where "PTE_U \<equiv> 0x004"
abbreviation (input) PTE_PWT :: u32 where "PTE_PWT \<equiv> 0x008"
abbreviation (input) PTE_PCD :: u32 where "PTE_PCD \<equiv> 0x010"
abbreviation (input) PTE_AVAIL :: u32 where "PTE_AVAIL \<equiv> 0xE00"

definition PTE_SYSCALL :: u32 where
  "PTE_SYSCALL = (PTE_AVAIL OR PTE_P OR PTE_W OR PTE_U)"

section \<open>Memory layout\<close>

definition KERNBASE :: u32 where "KERNBASE = 0xF0000000"
definition KSTACKTOP :: u32 where "KSTACKTOP = KERNBASE"
definition KSTKSIZE :: u32 where "KSTKSIZE = 8 * PGSIZE"
definition KSTKGAP :: u32 where "KSTKGAP = 8 * PGSIZE"
definition MMIOLIM :: u32 where "MMIOLIM = KSTACKTOP - PTSIZE"
definition MMIOBASE :: u32 where "MMIOBASE = MMIOLIM - PTSIZE"
definition ULIM :: u32 where "ULIM = MMIOBASE"
definition UVPT :: u32 where "UVPT = ULIM - PTSIZE"
definition UPAGES :: u32 where "UPAGES = UVPT - PTSIZE"
definition UENVS :: u32 where "UENVS = UPAGES - PTSIZE"
definition UTOP :: u32 where "UTOP = UENVS"
definition UXSTACKTOP :: u32 where "UXSTACKTOP = UTOP"
definition USTACKTOP :: u32 where "USTACKTOP = UTOP - 2 * PGSIZE"
definition MPENTRY_PADDR :: u32 where "MPENTRY_PADDR = 0x7000"

lemmas layout_defs = KERNBASE_def KSTACKTOP_def KSTKSIZE_def KSTKGAP_def MMIOLIM_def
  MMIOBASE_def ULIM_def UVPT_def UPAGES_def UENVS_def UTOP_def UXSTACKTOP_def USTACKTOP_def
  MPENTRY_PADDR_def

section \<open>Rounding\<close>

definition ROUNDDOWN :: "u32 \<Rightarrow> u32 \<Rightarrow> u32" where
  "ROUNDDOWN a n = a - a mod n"

definition ROUNDUP :: "u32 \<Rightarrow> u32 \<Rightarrow> u32" where
  "ROUNDUP a n = ROUNDDOWN (a + n - 1) n"

section \<open>Facts about the macros\<close>

lemma mask_3ff: "(0x3FF :: u32) = mask 10"
  by (simp add: mask_eq_exp_minus_1)

lemma mask_fff: "(0xFFF :: u32) = mask 12"
  by (simp add: mask_eq_exp_minus_1)

lemma unat_PGNUM: "unat (PGNUM x) = unat x div 4096"
  by (simp add: PGNUM_def unat_drop_bit)

lemma unat_PTX: "unat (PTX x) = unat x div 4096 mod 1024"
  by (simp add: PTX_def mask_3ff unat_and_mask unat_drop_bit)

lemma unat_PDX: "unat (PDX x) = unat x div 4194304"
proof -
  have "unat x < 2 ^ 32" using unsigned_less [of x] by simp
  then show ?thesis by (simp add: PDX_def mask_3ff unat_and_mask unat_drop_bit)
qed

lemma unat_PGOFF: "unat (PGOFF x) = unat x mod 4096"
  by (simp add: PGOFF_def mask_fff unat_and_mask)

lemmas unat_mmu = unat_PGNUM unat_PTX unat_PDX unat_PGOFF

lemma PDX_lt [simp]: "unat (PDX x) < 1024"
  using unat_less_32 [of x] by (simp add: unat_PDX)

lemma PTX_lt [simp]: "unat (PTX x) < 1024"
  by (simp add: unat_PTX)

text \<open>\<open>PGADDR\<close> rebuilds an address from the three parts the other macros cut it into.\<close>

lemma PGADDR_parts: "PGADDR (PDX la) (PTX la) (PGOFF la) = la"
proof (rule bit_word_eqI)
  fix n assume "n < LENGTH(32)"
  then consider "n < 12" | "12 \<le> n" "n < 22" | "22 \<le> n" "n < 32" by fastforce
  then show "bit (PGADDR (PDX la) (PTX la) (PGOFF la)) n = bit la n"
    by cases (auto simp: PGADDR_def PDX_def PTX_def PGOFF_def mask_3ff mask_fff bit_simps)
qed

lemma PTE_ADDR_shift: "PTE_ADDR x = push_bit 12 (PGNUM x)"
  by (rule bit_word_eqI) (auto simp: PTE_ADDR_def PGNUM_def mask_fff bit_simps)

lemma PTE_ADDR_OR: "PTE_ADDR (x OR y) = PTE_ADDR x OR PTE_ADDR y"
  by (rule bit_word_eqI) (auto simp: PTE_ADDR_def bit_simps)

lemma unat_PTE_ADDR: "unat (PTE_ADDR x) = unat x div 4096 * 4096"
proof -
  have "unat x div 4096 * 4096 < 4294967296"
    by (rule le_less_trans [OF div_times_less_eq_dividend unat_less_32])
  then show ?thesis
    by (simp add: PTE_ADDR_shift push_bit_eq_mult unat_word_ariths unat_PGNUM)
qed

lemma unat_ROUNDDOWN: "unat (ROUNDDOWN a PGSIZE) = unat a div 4096 * 4096"
proof -
  have m: "unat (a mod 4096) = unat a mod 4096" by (simp add: unat_mod)
  have "a mod 4096 \<le> a" by (simp add: word_le_nat_alt m)
  then have "unat (ROUNDDOWN a 4096) = unat a - unat a mod 4096"
    by (simp add: ROUNDDOWN_def unat_sub_no_wrap m)
  then show ?thesis by (simp add: minus_mod_eq_div_mult)
qed

lemma unat_ROUNDUP:
  assumes "unat a + 4095 < 4294967296"
  shows "unat (ROUNDUP a PGSIZE) = (unat a + 4095) div 4096 * 4096"
proof -
  have s: "unat (a + 4095) = unat a + 4095" using assms by (simp add: unat_add_no_wrap)
  have "ROUNDUP a 4096 = ROUNDDOWN (a + 4095) 4096" by (simp add: ROUNDUP_def add.commute)
  then show ?thesis by (simp only: unat_ROUNDDOWN s)
qed

text \<open>Rounding up near the top of the address space wraps to zero.\<close>

lemma ROUNDUP_wraps:
  assumes "4294967296 \<le> unat a + 4095"
  shows "ROUNDUP a PGSIZE = 0"
proof -
  have "unat (a + 4095) = unat a + 4095 - 4294967296"
    using assms unat_less_32 [of a] by (simp add: unat_add_32 mod_if)
  then have "unat (a + 4095) < 4096" using unat_less_32 [of a] by linarith
  then have s: "unat (a + 4095) div 4096 = 0" by (rule div_less)
  have "ROUNDUP a 4096 = ROUNDDOWN (a + 4095) 4096" by (simp add: ROUNDUP_def add.commute)
  then have "unat (ROUNDUP a 4096) = 0" by (simp only: unat_ROUNDDOWN s)
  then show ?thesis by (simp add: word_eq_unat)
qed

lemma PGADDR_inv:
  assumes "unat d < 1024" "unat t < 1024"
  shows "PDX (PGADDR d t 0) = d" "PTX (PGADDR d t 0) = t"
proof -
  have "take_bit 10 d = d" "take_bit 10 t = t"
    using assms by (simp_all add: word_eq_unat unsigned_take_bit_eq take_bit_nat_eq_self_iff)
  then have b: "bit d n \<longleftrightarrow> n < 10 \<and> bit d n" "bit t n \<longleftrightarrow> n < 10 \<and> bit t n" for n
    by (metis bit_take_bit_iff)+
  show "PDX (PGADDR d t 0) = d"
  proof (rule bit_word_eqI)
    fix n :: nat assume "n < LENGTH(32)"
    then show "bit (PDX (PGADDR d t 0)) n = bit d n"
      using b [of n] b(2) [of "10 + n"] by (auto simp: PDX_def PGADDR_def mask_3ff bit_simps)
  qed
  show "PTX (PGADDR d t 0) = t"
  proof (rule bit_word_eqI)
    fix n :: nat assume "n < LENGTH(32)"
    then show "bit (PTX (PGADDR d t 0)) n = bit t n"
      using b [of n] by (auto simp: PTX_def PGADDR_def mask_3ff bit_simps)
  qed
qed

end
