(* ===== verification/Fifo.thy ===== *)
theory Fifo
  imports Prelude
begin

text \<open>
  The contract of a bounded first-in first-out buffer. The repository has many: the console input
  ring, pipes of JOS and xv6, the descriptor rings of the network card, the bounded buffers of the
  thread programs. \<open>put\<close> is \<^const>\<open>None\<close> when it does not go through (the code then waits or
  refuses), \<open>get\<close> is \<^const>\<open>None\<close> when there is nothing to read.
\<close>

datatype 'a qop = Put 'a | Get

text \<open>
  A history of operations that go through, as produced by any interleaving of producers and
  consumers; the result carries what the reads returned.
\<close>

primrec run_queue ::
  "('a \<Rightarrow> 's \<Rightarrow> 's option) \<Rightarrow> ('s \<Rightarrow> ('a \<times> 's) option) \<Rightarrow> 'a qop list \<Rightarrow> 's \<Rightarrow> ('a list \<times> 's) option" where
  "run_queue put get [] s = Some ([], s)"
| "run_queue put get (q # qs) s =
     (case q of
        Put x \<Rightarrow> put x s \<bind> run_queue put get qs
      | Get \<Rightarrow> do { (x, s) \<leftarrow> get s; (xs, s) \<leftarrow> run_queue put get qs s; Some (x # xs, s) })"

primrec puts :: "'a qop list \<Rightarrow> 'a list" where
  "puts [] = []"
| "puts (q # qs) = (case q of Put x \<Rightarrow> x # puts qs | Get \<Rightarrow> puts qs)"

text \<open>The lengths a history passes through, from length \<open>n\<close>, stay within the capacity.\<close>

fun fits :: "nat \<Rightarrow> nat \<Rightarrow> 'a qop list \<Rightarrow> bool" where
  "fits cap n [] = True"
| "fits cap n (Put x # qs) = (n < cap \<and> fits cap (Suc n) qs)"
| "fits cap n (Get # qs) = (0 < n \<and> fits cap (n - 1) qs)"

locale fifo =
  fixes put :: "'a \<Rightarrow> 's \<Rightarrow> 's option"
    and get :: "'s \<Rightarrow> ('a \<times> 's) option"
    and contents :: "'s \<Rightarrow> 'a list"
    and invar :: "'s \<Rightarrow> bool"
    and cap :: nat
  assumes put_room: "\<lbrakk>invar s; length (contents s) < cap\<rbrakk> \<Longrightarrow>
      \<exists>s'. put x s = Some s' \<and> invar s' \<and> contents s' = contents s @ [x]"
    and get_empty: "\<lbrakk>invar s; contents s = []\<rbrakk> \<Longrightarrow> get s = None"
    and get_front: "\<lbrakk>invar s; contents s = x # xs\<rbrakk> \<Longrightarrow> \<exists>s'. get s = Some (x, s') \<and> invar s' \<and> contents s' = xs"
begin

lemma get_SomeD:
  assumes "invar s" "get s = Some (x, s')"
  shows "contents s = x # contents s' \<and> invar s'"
proof (cases "contents s")
  case Nil
  with assms get_empty show ?thesis by simp
next
  case (Cons y ys)
  with assms get_front [of s y ys] show ?thesis by auto
qed

lemma put_get:
  assumes "invar s" "contents s = []" "0 < cap"
  shows "\<exists>s1 s2. put x s = Some s1 \<and> get s1 = Some (x, s2) \<and> contents s2 = []"
proof -
  obtain s1 where s1: "put x s = Some s1" "invar s1" "contents s1 = [x]"
    using put_room [OF assms(1), of x] assms by auto
  with get_front [of s1 x "[]"] show ?thesis by auto
qed

text \<open>
  A history that fits goes through; what is read, followed by what is left, is what was there,
  followed by what was written: nothing is lost, duplicated or reordered.
\<close>

lemma run_fits:
  "\<lbrakk>invar s; fits cap (length (contents s)) qs\<rbrakk> \<Longrightarrow>
     \<exists>outs s'. run_queue put get qs s = Some (outs, s') \<and> invar s' \<and> outs @ contents s' = contents s @ puts qs"
proof (induction qs arbitrary: s)
  case Nil
  then show ?case by simp
next
  case (Cons q qs)
  show ?case
  proof (cases q)
    case (Put x)
    then obtain s1 where s1: "put x s = Some s1" "invar s1" "contents s1 = contents s @ [x]"
      using put_room [OF Cons.prems(1), of x] Cons.prems(2) by auto
    with Put Cons.prems Cons.IH [of s1] show ?thesis by auto
  next
    case Get
    then obtain x xs where c: "contents s = x # xs" using Cons.prems(2) by (cases "contents s") auto
    then obtain s1 where s1: "get s = Some (x, s1)" "invar s1" "contents s1 = xs"
      using get_front [OF Cons.prems(1)] by blast
    with Get Cons.prems Cons.IH [of s1] c show ?thesis by auto
  qed
qed

end

text \<open>
  A buffer whose writer waits when it is full, and which may refuse an operation for other reasons as
  well. Every history that goes through keeps the order, without a side condition.
\<close>

locale ordered_queue =
  fixes put :: "'a \<Rightarrow> 's \<Rightarrow> 's option"
    and get :: "'s \<Rightarrow> ('a \<times> 's) option"
    and contents :: "'s \<Rightarrow> 'a list"
    and invar :: "'s \<Rightarrow> bool"
    and cap :: nat
  assumes put_last: "\<lbrakk>invar s; put x s = Some s'\<rbrakk> \<Longrightarrow> invar s' \<and> length (contents s) < cap \<and> contents s' = contents s @ [x]"
    and get_first: "\<lbrakk>invar s; get s = Some (x, s')\<rbrakk> \<Longrightarrow> invar s' \<and> contents s = x # contents s'"
begin

lemma run_order:
  "\<lbrakk>invar s; run_queue put get qs s = Some (outs, s')\<rbrakk> \<Longrightarrow>
     invar s' \<and> outs @ contents s' = contents s @ puts qs"
proof (induction qs arbitrary: s outs)
  case Nil
  then show ?case by simp
next
  case (Cons q qs)
  show ?case
  proof (cases q)
    case (Put x)
    then obtain s1 where s1: "put x s = Some s1" "run_queue put get qs s1 = Some (outs, s')"
      using Cons.prems(2) by (auto simp: Option.bind_eq_Some_conv)
    with put_last [OF Cons.prems(1) s1(1)] Cons.IH [OF _ s1(2)] Put show ?thesis by simp
  next
    case Get
    then obtain x s1 xs where s1: "get s = Some (x, s1)" "run_queue put get qs s1 = Some (xs, s')" "outs = x # xs"
      using Cons.prems(2) by (auto simp: Option.bind_eq_Some_conv)
    with Cons.IH [of s1 xs] get_first [OF Cons.prems(1) s1(1)] Get show ?thesis by auto
  qed
qed

lemma run_bounded:
  "\<lbrakk>invar s; length (contents s) \<le> cap; run_queue put get qs s = Some (outs, s')\<rbrakk> \<Longrightarrow> length (contents s') \<le> cap"
proof (induction qs arbitrary: s outs)
  case Nil
  then show ?case by simp
next
  case (Cons q qs)
  show ?case
  proof (cases q)
    case (Put x)
    then obtain s1 where s1: "put x s = Some s1" "run_queue put get qs s1 = Some (outs, s')"
      using Cons.prems(3) by (auto simp: Option.bind_eq_Some_conv)
    with put_last [OF Cons.prems(1) s1(1)] Cons.IH [of s1 outs] show ?thesis by simp
  next
    case Get
    then obtain x s1 xs where s1: "get s = Some (x, s1)" "run_queue put get qs s1 = Some (xs, s')"
      using Cons.prems(3) by (auto simp: Option.bind_eq_Some_conv)
    with get_first [OF Cons.prems(1) s1(1)] Cons.IH [of s1 xs] Cons.prems(2) show ?thesis by auto
  qed
qed

end

section \<open>Rings\<close>

text \<open>The \<open>n\<close> elements of a circular array of \<open>sz\<close> cells that start at index \<open>r\<close>.\<close>

definition ring :: "(nat \<Rightarrow> 'a) \<Rightarrow> nat \<Rightarrow> nat \<Rightarrow> nat \<Rightarrow> 'a list" where
  "ring buf sz r n = map (\<lambda>i. buf ((r + i) mod sz)) [0..<n]"

lemma ring_0 [simp]: "ring buf sz r 0 = []"
  by (simp add: ring_def)

lemma length_ring [simp]: "length (ring buf sz r n) = n"
  by (simp add: ring_def)

lemma ring_mod [simp]: "ring buf sz (r mod sz) n = ring buf sz r n"
  by (simp add: ring_def mod_add_left_eq)

lemma ring_store:
  assumes "n < sz"
  shows "ring (buf((r + n) mod sz := x)) sz r (Suc n) = ring buf sz r n @ [x]"
proof -
  have "(r + i) mod sz \<noteq> (r + n) mod sz" if "i < n" for i
  proof
    assume "(r + i) mod sz = (r + n) mod sz"
    then have "i mod sz = n mod sz" by (simp add: nat_mod_eq_iff)
    with that assms show False by simp
  qed
  then show ?thesis by (auto simp: ring_def)
qed

lemma ring_read: "ring buf sz r (Suc n) = buf (r mod sz) # ring buf sz (Suc r) n"
  by (simp add: ring_def upt_conv_Cons map_Suc_upt [symmetric] del: upt_Suc)

lemma ring_dist:
  assumes "r < sz" "w < (sz :: nat)"
  shows "(w + sz - r) mod sz = (if r \<le> w then w - r else w + sz - r)"
proof (cases "r \<le> w")
  case True
  then have e: "w + sz - r = (w - r) + sz" by simp
  have "w - r < sz" using assms(2) by (rule less_imp_diff_less)
  then have "(w - r + sz) mod sz = w - r" by (simp only: mod_add_self2 mod_less)
  with True show ?thesis by (simp only: e if_True)
next
  case False
  with assms show ?thesis by simp
qed

end
