(* ===== verification/Jos_Console.thy ===== *)
theory Jos_Console
  imports Fifo
begin

text \<open>
  The clock and the console of JOS (\<open>kern/time.c\<close>, \<open>kern/console.c\<close>): the tick counter, the circular
  input buffer, the keyboard decoder and the text display. The devices are modelled by what their
  ports deliver: \<open>serial_in\<close> are the bytes the UART has received and not yet handed over, \<open>kbd_in\<close>
  the status and data bytes the keyboard controller presents one after another.
\<close>

section \<open>Clock\<close>

definition time_init :: u32 where
  "time_init = 0"

definition time_tick :: "u32 \<Rightarrow> u32 option" where
  "time_tick ticks = (let ticks = ticks + 1 in if ticks * 10 < ticks then None else Some ticks)"

definition time_msec :: "u32 \<Rightarrow> u32" where
  "time_msec ticks = ticks * 10"

section \<open>Input buffer\<close>

abbreviation (input) CONSBUFSIZE :: nat where "CONSBUFSIZE \<equiv> 512"

record cons =
  cons_buf :: "nat \<Rightarrow> u8"
  cons_rpos :: nat
  cons_wpos :: nat

text \<open>The body of the loop of \<open>cons_intr\<close> for a character that is not 0.\<close>

definition cons_store :: "int \<Rightarrow> cons \<Rightarrow> cons" where
  "cons_store c b =
     (let b = b\<lparr>cons_buf := (cons_buf b)(cons_wpos b := of_int c), cons_wpos := cons_wpos b + 1\<rparr>
      in if cons_wpos b = CONSBUFSIZE then b\<lparr>cons_wpos := 0\<rparr> else b)"

text \<open>\<open>proc\<close> is the device routine passed to \<open>cons_intr\<close>; its state is the device's.\<close>

partial_function (option) cons_intr :: "('d \<Rightarrow> int \<times> 'd) \<Rightarrow> 'd \<Rightarrow> cons \<Rightarrow> ('d \<times> cons) option" where
  "cons_intr proc d b =
     (let (c, d) = proc d
      in if c = -1 then Some (d, b)
         else if c = 0 then cons_intr proc d b
         else cons_intr proc d (cons_store c b))"

text \<open>The part of \<open>cons_getc\<close> after the polling; \<^const>\<open>None\<close> is the result 0, no character waiting.\<close>

definition cons_take :: "cons \<Rightarrow> (u8 \<times> cons) option" where
  "cons_take b =
     (if cons_rpos b \<noteq> cons_wpos b
      then let c = cons_buf b (cons_rpos b); b = b\<lparr>cons_rpos := cons_rpos b + 1\<rparr>
           in Some (c, if cons_rpos b = CONSBUFSIZE then b\<lparr>cons_rpos := 0\<rparr> else b)
      else None)"

section \<open>Serial port and keyboard\<close>

definition serial_proc_data :: "u8 list \<Rightarrow> int \<times> u8 list" where
  "serial_proc_data ins = (case ins of [] \<Rightarrow> (-1, []) | x # xs \<Rightarrow> (uint x, xs))"

abbreviation (input) SHIFT :: u32 where "SHIFT \<equiv> 1"
abbreviation (input) CTL :: u32 where "CTL \<equiv> 2"
abbreviation (input) ALT :: u32 where "ALT \<equiv> 4"
abbreviation (input) CAPSLOCK :: u32 where "CAPSLOCK \<equiv> 8"
abbreviation (input) NUMLOCK :: u32 where "NUMLOCK \<equiv> 16"
abbreviation (input) SCROLLLOCK :: u32 where "SCROLLLOCK \<equiv> 32"
abbreviation (input) E0ESC :: u32 where "E0ESC \<equiv> 64"

definition shiftcode :: "u8 \<Rightarrow> u32" where
  "shiftcode d = (if d = 0x1D \<or> d = 0x9D then CTL else if d = 0x2A \<or> d = 0x36 then SHIFT
     else if d = 0x38 \<or> d = 0xB8 then ALT else 0)"

definition togglecode :: "u8 \<Rightarrow> u32" where
  "togglecode d = (if d = 0x3A then CAPSLOCK else if d = 0x45 then NUMLOCK
     else if d = 0x46 then SCROLLLOCK else 0)"

text \<open>An array initialiser: the leading entries, then the designated ones; all others are 0.\<close>

definition key_table :: "u8 list \<Rightarrow> (u8 \<times> u8) list \<Rightarrow> u8 \<Rightarrow> u8" where
  "key_table leading designated d =
     (case map_of designated d of
        Some v \<Rightarrow> v
      | None \<Rightarrow> if unat d < length leading then leading ! unat d else 0)"

definition codes :: "string \<Rightarrow> u8 list" where
  "codes cs = map of_char cs"

definition keypad :: "(u8 \<times> u8) list" where
  "keypad = [(0xC8, 0xE2), (0xC9, 0xE6), (0xCB, 0xE4), (0xCD, 0xE5), (0xCF, 0xE1), (0xD0, 0xE3),
     (0xD1, 0xE7), (0xD2, 0xE8), (0xD3, 0xE9)]"

definition normalmap :: "u8 \<Rightarrow> u8" where
  "normalmap = key_table
     ([0, 0x1B] @ codes ''1234567890-='' @ [8, 9] @ codes ''qwertyuiop[]'' @ [10, 0] @
      codes ''asdfghjkl;'' @ [39, 96, 0, 92] @ codes ''zxcvbnm,./'' @ [0] @ codes ''*'' @ [0] @ codes '' '' @
      replicate 13 0 @ codes ''789-456+1230.'' @ [0, 0, 0, 0])
     ([(0xC7, 0xE0), (0x9C, 10), (0xB5, 47)] @ keypad)"

definition shiftmap :: "u8 \<Rightarrow> u8" where
  "shiftmap = key_table
     ([0, 27] @ codes ''!@#$%^&*()_+'' @ [8, 9] @ codes ''QWERTYUIOP{}'' @ [10, 0] @
      codes ''ASDFGHJKL:'' @ [34, 126, 0, 124] @ codes ''ZXCVBNM<>?'' @ [0] @ codes ''*'' @ [0] @ codes '' '' @
      replicate 13 0 @ codes ''789-456+1230.'' @ [0, 0, 0, 0])
     ([(0xC7, 0xE0), (0x9C, 10), (0xB5, 47)] @ keypad)"

definition C_key :: "u8 \<Rightarrow> u8" where
  "C_key x = x - 64"

definition ctlmap :: "u8 \<Rightarrow> u8" where
  "ctlmap = key_table
     (replicate 16 0 @ map C_key (codes ''QWERTYUIOP'') @ [0, 0, 13, 0] @ map C_key (codes ''ASDFGHJKL'') @
      [0, 0, 0, 0, C_key 92] @ map C_key (codes ''ZXCVBNM'') @ [0, 0, C_key 47, 0, 0])
     ([(0x97, 0xE0), (0xB5, C_key 47)] @ keypad)"

definition charcode :: "u32 \<Rightarrow> u8 \<Rightarrow> u8" where
  "charcode i = (if i = 0 then normalmap else if i = 1 then shiftmap else ctlmap)"

record kbd =
  kbd_in :: "(u8 \<times> u8) list"
  kbd_shift :: u32
  kbd_reboots :: nat

definition caps_swap :: "u8 \<Rightarrow> u8" where
  "caps_swap c = (if 97 \<le> c \<and> c \<le> 122 then c - 32 else if 65 \<le> c \<and> c \<le> 90 then c + 32 else c)"

definition kbd_decode :: "u8 \<Rightarrow> kbd \<Rightarrow> int \<times> kbd" where
  "kbd_decode data k =
     (if data = 0xE0 then (0, k\<lparr>kbd_shift := kbd_shift k OR E0ESC\<rparr>)
      else if data AND 0x80 \<noteq> 0
      then let data = (if kbd_shift k AND E0ESC \<noteq> 0 then data else data AND 0x7F)
           in (0, k\<lparr>kbd_shift := kbd_shift k AND NOT (shiftcode data OR E0ESC)\<rparr>)
      else let (data, shift) = (if kbd_shift k AND E0ESC \<noteq> 0 then (data OR 0x80, kbd_shift k AND NOT E0ESC)
                                else (data, kbd_shift k));
               shift = shift OR shiftcode data;
               shift = shift XOR togglecode data;
               c = charcode (shift AND (CTL OR SHIFT)) data;
               c = (if shift AND CAPSLOCK \<noteq> 0 then caps_swap c else c);
               k = k\<lparr>kbd_shift := shift\<rparr>
           in (uint c, if NOT shift AND (CTL OR ALT) = 0 \<and> c = 0xE9
                       then k\<lparr>kbd_reboots := kbd_reboots k + 1\<rparr> else k))"

definition kbd_proc_data :: "kbd \<Rightarrow> int \<times> kbd" where
  "kbd_proc_data k =
     (case kbd_in k of
        [] \<Rightarrow> (-1, k)
      | (stat, data) # rest \<Rightarrow>
          if stat AND 0x01 = 0 then (-1, k)
          else if stat AND 0x20 \<noteq> 0 then (-1, k)
          else kbd_decode data (k\<lparr>kbd_in := rest\<rparr>))"

record console =
  con_cons :: cons
  con_kbd :: kbd
  serial_in :: "u8 list"
  serial_exists :: bool

definition serial_intr :: "console \<Rightarrow> console option" where
  "serial_intr s =
     (if serial_exists s
      then do { (i, b) \<leftarrow> cons_intr serial_proc_data (serial_in s) (con_cons s);
                Some (s\<lparr>serial_in := i, con_cons := b\<rparr>) }
      else Some s)"

definition kbd_intr :: "console \<Rightarrow> console option" where
  "kbd_intr s = do { (k, b) \<leftarrow> cons_intr kbd_proc_data (con_kbd s) (con_cons s);
                     Some (s\<lparr>con_kbd := k, con_cons := b\<rparr>) }"

definition cons_getc :: "console \<Rightarrow> (u8 \<times> console) option" where
  "cons_getc s = do {
     s \<leftarrow> serial_intr s;
     s \<leftarrow> kbd_intr s;
     Some (case cons_take (con_cons s) of None \<Rightarrow> (0, s) | Some (c, b) \<Rightarrow> (c, s\<lparr>con_cons := b\<rparr>))
   }"

section \<open>Text display\<close>

text \<open>
  \<open>cga_out\<close>, \<open>serial_out\<close> and \<open>lpt_out\<close> record what is written to the output ports, newest first:
  the cursor position, and the bytes sent. The loops that wait for a port to become ready end after
  at most 12800 polls and then write in any case.
\<close>

abbreviation (input) CRT_COLS :: nat where "CRT_COLS \<equiv> 80"
abbreviation (input) CRT_SIZE :: nat where "CRT_SIZE \<equiv> 2000"

record display =
  crt_buf :: "nat \<Rightarrow> u16"
  crt_pos :: nat
  cursor_out :: "u16 list"
  serial_out :: "u8 list"
  lpt_out :: "u8 list"

definition serial_putc :: "u32 \<Rightarrow> display \<Rightarrow> display" where
  "serial_putc c s = s\<lparr>serial_out := ucast c # serial_out s\<rparr>"

definition lpt_putc :: "u32 \<Rightarrow> display \<Rightarrow> display" where
  "lpt_putc c s = s\<lparr>lpt_out := ucast c # lpt_out s\<rparr>"

definition crt_scroll :: "display \<Rightarrow> display" where
  "crt_scroll s =
     (if CRT_SIZE \<le> crt_pos s
      then s\<lparr>crt_buf := (\<lambda>i. if i < CRT_SIZE - CRT_COLS then crt_buf s (i + CRT_COLS)
                            else if i < CRT_SIZE then 0x0720 else crt_buf s i),
             crt_pos := crt_pos s - CRT_COLS\<rparr>
      else s)"

definition crt_cursor :: "display \<Rightarrow> display" where
  "crt_cursor s = s\<lparr>cursor_out := of_nat (crt_pos s) # cursor_out s\<rparr>"

text \<open>\<open>cga_putc\<close> on any character but a tab, which prints five blanks through \<open>cons_putc\<close>.\<close>

definition cga_char :: "u32 \<Rightarrow> display \<Rightarrow> display" where
  "cga_char c s =
     (let c = (if c AND NOT 0xFF = 0 then c OR 0x0700 else c); k = c AND 0xFF;
          s = (if k = 8 then if 0 < crt_pos s
                 then s\<lparr>crt_pos := crt_pos s - 1,
                        crt_buf := (crt_buf s)(crt_pos s - 1 := ucast ((c AND NOT 0xFF) OR 0x20))\<rparr>
                 else s
               else if k = 10 then (let p = crt_pos s + CRT_COLS in s\<lparr>crt_pos := p - p mod CRT_COLS\<rparr>)
               else if k = 13 then s\<lparr>crt_pos := crt_pos s - crt_pos s mod CRT_COLS\<rparr>
               else s\<lparr>crt_buf := (crt_buf s)(crt_pos s := ucast c), crt_pos := crt_pos s + 1\<rparr>)
      in crt_cursor (crt_scroll s))"

definition cons_putc_char :: "u32 \<Rightarrow> display \<Rightarrow> display" where
  "cons_putc_char c s = cga_char c (lpt_putc c (serial_putc c s))"

definition cga_putc :: "u32 \<Rightarrow> display \<Rightarrow> display" where
  "cga_putc c s =
     (if c AND 0xFF = 9 then crt_cursor (crt_scroll ((cons_putc_char 0x20 ^^ 5) s)) else cga_char c s)"

definition cons_putc :: "u32 \<Rightarrow> display \<Rightarrow> display" where
  "cons_putc c s = cga_putc c (lpt_putc c (serial_putc c s))"

section \<open>The input buffer is a queue\<close>

definition cons_inv :: "cons \<Rightarrow> bool" where
  "cons_inv b \<longleftrightarrow> cons_rpos b < CONSBUFSIZE \<and> cons_wpos b < CONSBUFSIZE"

definition cons_contents :: "cons \<Rightarrow> u8 list" where
  "cons_contents b = ring (cons_buf b) CONSBUFSIZE (cons_rpos b) ((cons_wpos b + CONSBUFSIZE - cons_rpos b) mod CONSBUFSIZE)"

lemma cons_store_wpos: "cons_inv b \<Longrightarrow> cons_wpos (cons_store c b) = (cons_wpos b + 1) mod CONSBUFSIZE"
  by (auto simp: cons_store_def cons_inv_def Let_def)

lemma cons_store_inv: "cons_inv b \<Longrightarrow> cons_inv (cons_store c b)"
  by (auto simp: cons_store_def cons_inv_def Let_def)

lemma cons_store_contents:
  assumes "cons_inv b" "length (cons_contents b) < 511"
  shows "cons_contents (cons_store c b) = cons_contents b @ [of_int c]"
proof -
  define r w where "r = cons_rpos b" and "w = cons_wpos b"
  define n where "n = (w + 512 - r) mod 512"
  have rw: "r < 512" "w < 512" using assms(1) by (simp_all add: cons_inv_def r_def w_def)
  have n: "n < 511" using assms(2) by (simp add: cons_contents_def n_def r_def w_def)
  have w: "(r + n) mod 512 = w" using rw by (simp add: n_def mod_add_right_eq)
  have "(w + 1) mod 512 < 512" by simp
  then have "((w + 1) mod 512 + 512 - r) mod 512 = Suc n"
    using rw n by (auto simp: ring_dist n_def mod_if split: if_splits)
  moreover have "cons_buf (cons_store c b) = (cons_buf b)(w := of_int c)" "cons_rpos (cons_store c b) = r"
    by (simp_all add: cons_store_def Let_def r_def w_def)
  ultimately show ?thesis
    using ring_store [of n 512 "cons_buf b" r "of_int c"] n w
    by (simp add: cons_contents_def cons_store_wpos [OF assms(1)] flip: r_def w_def n_def)
qed


lemma cons_take_contents:
  assumes "cons_inv b"
  shows "cons_contents b = [] \<Longrightarrow> cons_take b = None"
    and "cons_contents b = x # xs \<Longrightarrow>
      \<exists>b'. cons_take b = Some (x, b') \<and> cons_inv b' \<and> cons_contents b' = xs"
proof -
  define r w where "r = cons_rpos b" and "w = cons_wpos b"
  have rw: "r < 512" "w < 512" using assms(1) by (simp_all add: cons_inv_def r_def w_def)
  have len: "length (cons_contents b) = (if r \<le> w then w - r else w + 512 - r)"
    using ring_dist [OF rw] by (simp add: cons_contents_def r_def w_def)
  show "cons_take b = None" if "cons_contents b = []"
    using that len rw by (simp add: cons_take_def flip: r_def w_def split: if_splits)
  show "\<exists>b'. cons_take b = Some (x, b') \<and> cons_inv b' \<and> cons_contents b' = xs" if c: "cons_contents b = x # xs"
  proof -
    let ?b = "b\<lparr>cons_rpos := (r + 1) mod 512\<rparr>"
    have ne: "r \<noteq> w" using len c by auto
    then have t: "cons_take b = Some (cons_buf b r, ?b)"
      using rw by (auto simp: cons_take_def Let_def mod_if simp flip: r_def w_def)
    have d: "(w + 512 - r) mod 512 = Suc ((w + 512 - (r + 1) mod 512) mod 512)"
      using rw ne by (auto simp: ring_dist mod_if)
    have "x # xs = cons_buf b r # cons_contents ?b"
      using c rw unfolding cons_contents_def r_def [symmetric] w_def [symmetric] d ring_read
      by (simp add: w_def [symmetric])
    with t rw show ?thesis by (simp add: cons_inv_def flip: w_def)
  qed
qed

interpretation cons_queue: fifo "\<lambda>x b. Some (cons_store (uint x) b)" cons_take cons_contents cons_inv 511
proof
  fix b :: cons and x xs
  show "\<exists>b'. Some (cons_store (uint x) b) = Some b' \<and> cons_inv b' \<and> cons_contents b' = cons_contents b @ [x]"
    if "cons_inv b" "length (cons_contents b) < 511"
    using cons_store_contents [OF that, of "uint x"] cons_store_inv [OF that(1)] by simp
qed (use cons_take_contents in auto)

section \<open>Polling ends\<close>

text \<open>What \<open>cons_intr\<close> does with the characters a device delivers.\<close>

definition feed :: "int list \<Rightarrow> cons \<Rightarrow> cons" where
  "feed cs b = fold cons_store (filter (\<lambda>c. c \<noteq> 0) cs) b"

lemma serial_intr_loop: "cons_intr serial_proc_data ins b = Some ([], feed (map uint ins) b)"
proof (induction ins arbitrary: b)
  case Nil
  then show ?case by (simp add: cons_intr.simps serial_proc_data_def feed_def)
next
  case (Cons x xs)
  have "uint x \<noteq> - 1" using uint_ge_0 [of x] by linarith
  moreover have "serial_proc_data (x # xs) = (uint x, xs)" by (simp add: serial_proc_data_def)
  ultimately show ?case
    using Cons by (subst cons_intr.simps) (simp add: feed_def)
qed

fun kbd_chars :: "(u8 \<times> u8) list \<Rightarrow> kbd \<Rightarrow> int list \<times> kbd" where
  "kbd_chars [] k = ([], k\<lparr>kbd_in := []\<rparr>)"
| "kbd_chars ((stat, data) # rest) k =
     (if stat AND 0x01 = 0 \<or> stat AND 0x20 \<noteq> 0 then ([], k\<lparr>kbd_in := (stat, data) # rest\<rparr>)
      else let (c, k) = kbd_decode data (k\<lparr>kbd_in := rest\<rparr>); (cs, k) = kbd_chars rest k in (c # cs, k))"

lemma kbd_decode_frame: "kbd_in (snd (kbd_decode d k)) = kbd_in k" "fst (kbd_decode d k) \<noteq> - 1"
proof -
  show "kbd_in (snd (kbd_decode d k)) = kbd_in k" by (simp add: kbd_decode_def Let_def split: prod.splits)
  have u: "uint (c :: u8) \<noteq> - 1" for c using uint_ge_0 [of c] by linarith
  show "fst (kbd_decode d k) \<noteq> - 1" using u by (simp add: kbd_decode_def Let_def split: prod.splits)
qed

lemma kbd_intr_loop:
  "kbd_in k = ins \<Longrightarrow>
     cons_intr kbd_proc_data k b = (case kbd_chars ins k of (cs, k') \<Rightarrow> Some (k', feed cs b))"
proof (induction ins k arbitrary: b rule: kbd_chars.induct)
  case (1 k)
  then show ?case by (subst cons_intr.simps) (simp add: kbd_proc_data_def feed_def)
next
  case (2 stat data rest k)
  show ?case
  proof (cases "stat AND 0x01 = 0 \<or> stat AND 0x20 \<noteq> 0")
    case True
    then show ?thesis using 2 by (subst cons_intr.simps) (auto simp: kbd_proc_data_def feed_def)
  next
    case False
    obtain c k1 where d: "kbd_decode data (k\<lparr>kbd_in := rest\<rparr>) = (c, k1)" by fastforce
    obtain cs k2 where r: "kbd_chars rest k1 = (cs, k2)" by fastforce
    have k1: "kbd_in k1 = rest" "c \<noteq> - 1" using kbd_decode_frame [of data "k\<lparr>kbd_in := rest\<rparr>"] d by simp_all
    have ih: "cons_intr kbd_proc_data k1 b = Some (k2, feed cs b)" for b
      using 2(1) [OF False d [symmetric] refl k1(1)] r by simp
    have "kbd_proc_data k = (c, k1)" using 2(2) False d by (simp add: kbd_proc_data_def)
    then show ?thesis
      using False d r k1(2) ih by (subst cons_intr.simps) (simp add: feed_def)
  qed
qed

lemma cons_getc_total:
  "\<exists>c s'. cons_getc s = Some (c, s') \<and>
     (c, con_cons s') = (case cons_take (feed (fst (kbd_chars (kbd_in (con_kbd s)) (con_kbd s)))
         (if serial_exists s then feed (map uint (serial_in s)) (con_cons s) else con_cons s)) of
       None \<Rightarrow> (0, feed (fst (kbd_chars (kbd_in (con_kbd s)) (con_kbd s)))
         (if serial_exists s then feed (map uint (serial_in s)) (con_cons s) else con_cons s))
     | Some p \<Rightarrow> p)"
  by (auto simp: cons_getc_def serial_intr_def kbd_intr_def serial_intr_loop kbd_intr_loop
      split: prod.splits option.splits)

section \<open>Overrun\<close>

text \<open>The writer does not look at \<open>rpos\<close>: the character after 511 unread ones makes the buffer look empty.\<close>

lemma cons_overrun:
  assumes "cons_inv b" "length (cons_contents b) = 511"
  shows "cons_contents (cons_store c b) = []"
proof -
  define r w where "r = cons_rpos b" and "w = cons_wpos b"
  have rw: "r < 512" "w < 512" using assms(1) by (simp_all add: cons_inv_def r_def w_def)
  have "(if r \<le> w then w - r else w + 512 - r) = 511"
    using assms(2) ring_dist [OF rw] by (simp add: cons_contents_def r_def w_def)
  then have "(w + 1) mod 512 = r" using rw by (auto simp: mod_if split: if_splits)
  moreover have "cons_rpos (cons_store c b) = r" by (simp add: cons_store_def Let_def r_def)
  ultimately show ?thesis
    using cons_store_wpos [OF assms(1)] by (simp add: cons_contents_def flip: w_def)
qed

section \<open>The display stays within its buffer\<close>

lemma cga_char_pos: "crt_pos s < CRT_SIZE \<Longrightarrow> crt_pos (cga_char c s) < CRT_SIZE"
proof -
  assume p: "crt_pos s < CRT_SIZE"
  then have n: "crt_pos s + 80 - (crt_pos s + 80) mod 80 \<le> 2000"
  proof -
    have "crt_pos s div 80 \<le> 24" using p by (simp add: div_le_mono [of _ 1999 80, simplified])
    then have "(crt_pos s + 80) div 80 * 80 \<le> 2000" by simp
    then show ?thesis by (simp only: minus_mod_eq_div_mult)
  qed
  have m: "crt_pos s - crt_pos s mod 80 < 2000" using p by (simp add: less_imp_diff_less)
  show ?thesis
    using p n m by (auto simp: cga_char_def Let_def crt_scroll_def crt_cursor_def)
qed

lemma cons_putc_pos: "crt_pos s < CRT_SIZE \<Longrightarrow> crt_pos (cons_putc c s) < CRT_SIZE"
proof -
  assume p: "crt_pos s < CRT_SIZE"
  have l: "crt_pos (lpt_putc c (serial_putc c t)) = crt_pos t" for c t by (simp add: lpt_putc_def serial_putc_def)
  have "crt_pos (cons_putc_char d t) < CRT_SIZE" if "crt_pos t < CRT_SIZE" for d t
    unfolding cons_putc_char_def using that l by (intro cga_char_pos) simp
  then have "crt_pos ((cons_putc_char 0x20 ^^ n) t) < CRT_SIZE" if "crt_pos t < CRT_SIZE" for n t
    using that by (induction n) auto
  then have "crt_pos ((cons_putc_char 0x20 ^^ 5) (lpt_putc c (serial_putc c s))) < CRT_SIZE" using p l by simp
  then show ?thesis
    using p l cga_char_pos by (simp add: cons_putc_def cga_putc_def crt_cursor_def crt_scroll_def)
qed

section \<open>Modifier keys\<close>

text \<open>Pressing and releasing a modifier key leaves the modifier cleared and the rest as it was.\<close>

lemma kbd_decode_shift:
  "kbd_shift (snd (kbd_decode d k)) =
     (if d = 0xE0 then kbd_shift k OR E0ESC
      else if d AND 0x80 \<noteq> 0
      then kbd_shift k AND NOT (shiftcode (if kbd_shift k AND E0ESC \<noteq> 0 then d else d AND 0x7F) OR E0ESC)
      else if kbd_shift k AND E0ESC \<noteq> 0
      then (kbd_shift k AND NOT E0ESC OR shiftcode (d OR 0x80)) XOR togglecode (d OR 0x80)
      else (kbd_shift k OR shiftcode d) XOR togglecode d)"
  by (simp add: kbd_decode_def Let_def)

lemma modifier_press_release:
  assumes "d AND 0x80 = 0" "shiftcode d \<noteq> 0" "kbd_shift k AND E0ESC = 0"
  shows "kbd_shift (snd (kbd_decode (d OR 0x80) (snd (kbd_decode d k)))) = kbd_shift k AND NOT (shiftcode d)"
proof -
  have d: "d = 0x1D \<or> d = 0x2A \<or> d = 0x36 \<or> d = 0x38"
    using assms(1,2) by (auto simp: shiftcode_def split: if_splits)
  have s1: "kbd_shift (snd (kbd_decode d k)) = kbd_shift k OR shiftcode d"
    using d assms(1,3) by (auto simp: kbd_decode_shift togglecode_def)
  have e: "shiftcode d AND E0ESC = 0" using d by (auto simp: shiftcode_def)
  then have "(kbd_shift k OR shiftcode d) AND E0ESC = 0"
    using assms(3) by (simp only: bit.conj_disj_distrib2 bit.disj_zero_right)
  then have s2: "kbd_shift (snd (kbd_decode (d OR 0x80) (snd (kbd_decode d k)))) =
      (kbd_shift k OR shiftcode d) AND NOT (shiftcode d OR E0ESC)"
    unfolding kbd_decode_shift [of "d OR 0x80"] s1 using d by auto
  show ?thesis unfolding s2 or_and_not_or and_not_disjoint [OF assms(3)] ..
qed

section \<open>Clock\<close>

lemma time_tick_ok:
  assumes "unat t < 429496729"
  shows "time_tick t = Some (t + 1) \<and> unat (time_msec (t + 1)) = 10 * (unat t + 1)"
proof -
  have u: "unat (t + 1) = unat t + 1" using assms by (simp add: unat_add_no_wrap)
  have "unat ((t + 1) * 10) = (unat t + 1) * 10"
    using assms u by (subst unat_mult_lem [THEN iffD1]) simp_all
  then show ?thesis using u by (simp add: time_tick_def time_msec_def Let_def word_less_nat_alt)
qed

lemma time_tick_overflow: "time_tick 429496729 = None"
  by (simp add: time_tick_def)

end
