(* ===== verification/Jos_State.thy ===== *)
theory Jos_State
  imports Jos_Mmu Jos_Console
begin

text \<open>
  The data structures of the JOS kernel: \<open>struct PageInfo\<close> (\<open>inc/memlayout.h\<close>),
  \<open>struct Trapframe\<close> (\<open>inc/trap.h\<close>), \<open>struct Env\<close> (\<open>inc/env.h\<close>), \<open>struct CpuInfo\<close>
  (\<open>kern/cpu.h\<close>), and one record for the kernel's global variables. Pointers into the arrays
  \<open>pages\<close> and \<open>envs\<close> are indices, NULL is \<^const>\<open>None\<close>. Physical memory is a function from the
  address of an aligned 32-bit cell to its contents, which is the view the page tables take of it.
\<close>

record PageInfo =
  pp_link :: "nat option"
  pp_ref :: u16

record PushRegs =
  reg_edi :: u32
  reg_esi :: u32
  reg_ebp :: u32
  reg_oesp :: u32
  reg_ebx :: u32
  reg_edx :: u32
  reg_ecx :: u32
  reg_eax :: u32

record Trapframe =
  tf_regs :: PushRegs
  tf_es :: u16
  tf_padding1 :: u16
  tf_ds :: u16
  tf_padding2 :: u16
  tf_trapno :: u32
  tf_err :: u32
  tf_eip :: u32
  tf_cs :: u16
  tf_padding3 :: u16
  tf_eflags :: u32
  tf_esp :: u32
  tf_ss :: u16
  tf_padding4 :: u16

text \<open>What \<open>memset(tf, 0, sizeof(*tf))\<close> leaves.\<close>

definition zero_regs :: PushRegs where
  "zero_regs = \<lparr>reg_edi = 0, reg_esi = 0, reg_ebp = 0, reg_oesp = 0, reg_ebx = 0, reg_edx = 0,
     reg_ecx = 0, reg_eax = 0\<rparr>"

definition zero_tf :: Trapframe where
  "zero_tf = \<lparr>tf_regs = zero_regs, tf_es = 0, tf_padding1 = 0, tf_ds = 0, tf_padding2 = 0,
     tf_trapno = 0, tf_err = 0, tf_eip = 0, tf_cs = 0, tf_padding3 = 0, tf_eflags = 0, tf_esp = 0,
     tf_ss = 0, tf_padding4 = 0\<rparr>"

text \<open>\<open>env_status\<close> is an unsigned field; the system call that sets it tests its range.\<close>

abbreviation (input) ENV_FREE :: u32 where "ENV_FREE \<equiv> 0"
abbreviation (input) ENV_DYING :: u32 where "ENV_DYING \<equiv> 1"
abbreviation (input) ENV_RUNNABLE :: u32 where "ENV_RUNNABLE \<equiv> 2"
abbreviation (input) ENV_RUNNING :: u32 where "ENV_RUNNING \<equiv> 3"
abbreviation (input) ENV_NOT_RUNNABLE :: u32 where "ENV_NOT_RUNNABLE \<equiv> 4"

datatype EnvType = ENV_TYPE_USER | ENV_TYPE_FS | ENV_TYPE_NS

record Env =
  env_tf :: Trapframe
  env_link :: "nat option"
  env_id :: u32
  env_parent_id :: u32
  env_type :: EnvType
  env_status :: u32
  env_runs :: u32
  env_cpunum :: u32
  env_pgdir :: u32
  env_pgfault_upcall :: u32
  env_ipc_recving :: bool
  env_ipc_dstva :: u32
  env_ipc_value :: u32
  env_ipc_from :: u32
  env_ipc_perm :: u32

abbreviation (input) CPU_UNUSED :: u32 where "CPU_UNUSED \<equiv> 0"
abbreviation (input) CPU_STARTED :: u32 where "CPU_STARTED \<equiv> 1"
abbreviation (input) CPU_HALTED :: u32 where "CPU_HALTED \<equiv> 2"

record CpuInfo =
  cpu_id :: u8
  cpu_status :: u32
  cpu_env :: "nat option"

text \<open>
  The network card driver (\<open>kern/e1000.c\<close>): descriptor rings and packet buffers. The buffer arrays
  are flat byte arrays, as the two-dimensional C arrays are; \<open>rx_next\<close> is the function static of
  \<open>e1000_receive\<close>.
\<close>

record tx_desc =
  tx_addr :: u32
  tx_length :: u16
  tx_cmd :: u8
  tx_status :: u8

record rx_desc =
  rx_addr :: u32
  rx_length :: u16
  rx_status :: u8
  rx_errors :: u8

record e1000 =
  tdh :: u16
  tdt :: u16
  tx_desc_array :: "nat \<Rightarrow> tx_desc"
  tx_buffer_array :: "nat \<Rightarrow> u8"
  rdh :: u16
  rdt :: u16
  rx_desc_array :: "nat \<Rightarrow> rx_desc"
  rx_buffer_array :: "nat \<Rightarrow> u8"
  rx_next :: nat

text \<open>
  The globals. \<open>kern_end\<close> is the linker symbol \<open>end\<close>; \<open>nextfree\<close>, \<open>mmio_base\<close> are the function
  statics of \<open>boot_alloc\<close> and \<open>mmio_map_region\<close>; \<open>this_cpu\<close> is the value of \<open>cpunum()\<close> for the CPU
  the code runs on; \<open>ticks\<close>, \<open>con\<close>, \<open>screen\<close> and \<open>nic\<close> are the statics of the device drivers;
  \<open>cr3\<close> and \<open>invlpg_log\<close> record what the code does to the hardware (the page
  directory register, the addresses passed to \<open>invlpg\<close>, newest first).
\<close>

record kstate =
  npages :: nat
  npages_basemem :: nat
  kern_pgdir :: u32
  pages :: "nat \<Rightarrow> PageInfo"
  page_free_list :: "nat option"
  phys :: "u32 \<Rightarrow> u32"
  kern_end :: u32
  nextfree :: u32
  mmio_base :: u32
  user_mem_check_addr :: u32
  envs :: "nat \<Rightarrow> Env"
  env_free_list :: "nat option"
  cpus :: "nat \<Rightarrow> CpuInfo"
  this_cpu :: nat
  kernel_locked :: bool
  cr3 :: u32
  ticks :: u32
  con :: console
  screen :: display
  nic :: e1000
  invlpg_log :: "u32 list"

definition curenv :: "kstate \<Rightarrow> nat option" where
  "curenv s = cpu_env (cpus s (this_cpu s))"

definition set_curenv :: "nat option \<Rightarrow> kstate \<Rightarrow> kstate" where
  "set_curenv e s = s\<lparr>cpus := (cpus s)(this_cpu s := (cpus s (this_cpu s))\<lparr>cpu_env := e\<rparr>)\<rparr>"

definition upd_page :: "nat \<Rightarrow> (PageInfo \<Rightarrow> PageInfo) \<Rightarrow> kstate \<Rightarrow> kstate" where
  "upd_page i f s = s\<lparr>pages := (pages s)(i := f (pages s i))\<rparr>"

definition upd_env :: "nat \<Rightarrow> (Env \<Rightarrow> Env) \<Rightarrow> kstate \<Rightarrow> kstate" where
  "upd_env i f s = s\<lparr>envs := (envs s)(i := f (envs s i))\<rparr>"

text \<open>Error numbers of \<open>inc/error.h\<close>; a system call returns the negated number.\<close>

datatype jos_error = E_UNSPECIFIED | E_BAD_ENV | E_INVAL | E_NO_MEM | E_NO_FREE_ENV | E_FAULT
  | E_IPC_NOT_RECV | E_EOF | E_NO_DISK | E_MAX_OPEN | E_NOT_FOUND | E_BAD_PATH | E_FILE_EXISTS
  | E_NOT_EXEC | E_NOT_SUPP

fun errno :: "jos_error \<Rightarrow> u32" where
  "errno E_UNSPECIFIED = 1" | "errno E_BAD_ENV = 2" | "errno E_INVAL = 3" | "errno E_NO_MEM = 4"
| "errno E_NO_FREE_ENV = 5" | "errno E_FAULT = 6" | "errno E_IPC_NOT_RECV = 7" | "errno E_EOF = 8"
| "errno E_NO_DISK = 9" | "errno E_MAX_OPEN = 10" | "errno E_NOT_FOUND = 11"
| "errno E_BAD_PATH = 12" | "errno E_FILE_EXISTS = 13" | "errno E_NOT_EXEC = 14"
| "errno E_NOT_SUPP = 15"

lemma upd_page_simps [simp]:
  "pages (upd_page i f s) = (pages s)(i := f (pages s i))"
  "page_free_list (upd_page i f s) = page_free_list s"
  "npages (upd_page i f s) = npages s" "phys (upd_page i f s) = phys s"
  "envs (upd_page i f s) = envs s" "cpus (upd_page i f s) = cpus s"
  "this_cpu (upd_page i f s) = this_cpu s" "kern_pgdir (upd_page i f s) = kern_pgdir s"
  "env_free_list (upd_page i f s) = env_free_list s" "invlpg_log (upd_page i f s) = invlpg_log s"
  by (simp_all add: upd_page_def)

lemma upd_env_simps [simp]:
  "envs (upd_env i f s) = (envs s)(i := f (envs s i))"
  "pages (upd_env i f s) = pages s" "page_free_list (upd_env i f s) = page_free_list s"
  "npages (upd_env i f s) = npages s" "phys (upd_env i f s) = phys s"
  "cpus (upd_env i f s) = cpus s" "this_cpu (upd_env i f s) = this_cpu s"
  "kern_pgdir (upd_env i f s) = kern_pgdir s" "env_free_list (upd_env i f s) = env_free_list s"
  by (simp_all add: upd_env_def)

end
