(* ===== verification/Frame_Allocator.thy ===== *)
theory Frame_Allocator
  imports Prelude
begin

text \<open>
  The contract of a page-frame allocator. Three kernels of the repository have one: JOS keeps a
  linked list of \<open>struct PageInfo\<close>, the hurlex kernel an array used as a stack, xv6 a list threaded
  through the free pages themselves. All promise the same: frames come back last-in first-out, an
  allocated frame is no longer free, and no frame is handed out twice.
\<close>

text \<open>Allocating \<open>n\<close> frames in a row, stopping when the allocator has none left.\<close>

primrec grab :: "('s \<Rightarrow> ('f \<times> 's) option) \<Rightarrow> nat \<Rightarrow> 's \<Rightarrow> ('f list \<times> 's) option" where
  "grab al 0 s = Some ([], s)"
| "grab al (Suc n) s =
     (case al s of None \<Rightarrow> None
      | Some (f, s') \<Rightarrow> map_option (\<lambda>(fs, t). (f # fs, t)) (grab al n s'))"

locale frame_allocator =
  fixes alloc :: "'s \<Rightarrow> ('f \<times> 's) option"
    and release :: "'f \<Rightarrow> 's \<Rightarrow> 's option"
    and frames :: "'s \<Rightarrow> 'f list"
    and invar :: "'s \<Rightarrow> bool"
    and releasable :: "'f \<Rightarrow> 's \<Rightarrow> bool"
  assumes alloc_empty: "invar s \<Longrightarrow> frames s = [] \<Longrightarrow> alloc s = None"
    and alloc_frame: "invar s \<Longrightarrow> frames s = f # fs \<Longrightarrow>
      \<exists>s'. alloc s = Some (f, s') \<and> frames s' = fs \<and> invar s' \<and> releasable f s'"
    and release_frame: "invar s \<Longrightarrow> releasable f s \<Longrightarrow>
      \<exists>s'. release f s = Some s' \<and> frames s' = f # frames s \<and> invar s'"
    and releasable_not_free: "invar s \<Longrightarrow> releasable f s \<Longrightarrow> f \<notin> set (frames s)"
    and frames_distinct: "invar s \<Longrightarrow> distinct (frames s)"
begin

lemma alloc_SomeD:
  assumes "invar s" and "alloc s = Some (f, s')"
  shows "frames s = f # frames s' \<and> invar s' \<and> releasable f s'"
proof (cases "frames s")
  case Nil
  with assms alloc_empty show ?thesis by simp
next
  case (Cons g gs)
  with assms alloc_frame [of s g gs] show ?thesis by auto
qed

lemma release_SomeD:
  "invar s \<Longrightarrow> releasable f s \<Longrightarrow> release f s = Some s' \<Longrightarrow>
     frames s' = f # frames s \<and> invar s'"
  using release_frame [of s f] by auto

text \<open>A frame given back is the next one handed out, and the rest is as it was.\<close>

lemma release_then_alloc:
  assumes "invar s" and "releasable f s"
  shows "\<exists>s1 s2. release f s = Some s1 \<and> alloc s1 = Some (f, s2) \<and> frames s2 = frames s"
proof -
  obtain s1 where s1: "release f s = Some s1" "frames s1 = f # frames s" "invar s1"
    using release_frame [OF assms] by blast
  then show ?thesis using alloc_frame [of s1 f "frames s"] by blast
qed

lemma alloc_then_release:
  assumes "invar s" and "alloc s = Some (f, s1)"
  shows "\<exists>s2. release f s1 = Some s2 \<and> frames s2 = frames s \<and> invar s2"
  using alloc_SomeD [OF assms] release_frame [of s1 f] by auto

lemma grab_take:
  "invar s \<Longrightarrow> n \<le> length (frames s) \<Longrightarrow>
     \<exists>s'. grab alloc n s = Some (take n (frames s), s') \<and> frames s' = drop n (frames s) \<and> invar s'"
proof (induction n arbitrary: s)
  case 0
  then show ?case by simp
next
  case (Suc n)
  then obtain f fs where fs: "frames s = f # fs" by (cases "frames s") auto
  then obtain s1 where s1: "alloc s = Some (f, s1)" "frames s1 = fs" "invar s1"
    using alloc_frame [OF Suc.prems(1)] by blast
  with Suc.IH [of s1] Suc.prems(2) fs show ?case by auto
qed

text \<open>However many frames are taken, they are pairwise different and none is free afterwards.\<close>

lemma grab_distinct:
  assumes "invar s" and "grab alloc n s = Some (fs, s')"
  shows "distinct fs \<and> set fs \<inter> set (frames s') = {} \<and> frames s = fs @ frames s'"
proof -
  have "frames s = fs @ frames s' \<and> invar s'"
    using assms
  proof (induction n arbitrary: s fs)
    case 0
    then show ?case by simp
  next
    case (Suc n)
    then obtain f s1 gs where "alloc s = Some (f, s1)" "grab alloc n s1 = Some (gs, s')" "fs = f # gs"
      by (auto split: option.splits)
    with Suc.IH [of s1 gs] alloc_SomeD [OF Suc.prems(1)] show ?case by auto
  qed
  with frames_distinct [OF assms(1)] show ?thesis by auto
qed

lemma grab_exhausted:
  "invar s \<Longrightarrow> length (frames s) < n \<Longrightarrow> grab alloc n s = None"
proof (induction n arbitrary: s)
  case 0
  then show ?case by simp
next
  case (Suc n)
  show ?case
  proof (cases "alloc s")
    case None
    then show ?thesis by simp
  next
    case (Some p)
    obtain f s1 where p: "p = (f, s1)" by (cases p)
    with Some alloc_SomeD [OF Suc.prems(1)] have "frames s = f # frames s1" "invar s1" by auto
    with Suc.prems(2) Suc.IH [of s1] Some p show ?thesis by auto
  qed
qed

end

end
