(* ===== verification/Jos_Pages.thy ===== *)
theory Jos_Pages
  imports Jos_State Frame_Allocator
begin

text \<open>
  Physical page management of JOS (\<open>kern/pmap.c\<close>, \<open>kern/pmap.h\<close>): memory detection, the boot
  allocator, the reference-counted page array and its free list. The free list is shown to
  implement the page-frame contract of \<open>Frame_Allocator\<close>.
\<close>

section \<open>Memory detection and the boot allocator\<close>

text \<open>\<open>mc146818_read\<close> is port I/O: \<open>cmos\<close> gives the byte each CMOS register holds.\<close>

definition nvram_read :: "(u32 \<Rightarrow> u8) \<Rightarrow> u32 \<Rightarrow> u32" where
  "nvram_read cmos r = ucast (cmos r) OR push_bit 8 (ucast (cmos (r + 1)))"

definition i386_detect_memory :: "(u32 \<Rightarrow> u8) \<Rightarrow> kstate \<Rightarrow> kstate" where
  "i386_detect_memory cmos s =
     (let basemem = nvram_read cmos 0x15;
          extmem = nvram_read cmos 0x17;
          ext16mem = nvram_read cmos 0x34 * 64;
          totalmem = (if ext16mem \<noteq> 0 then 16 * 1024 + ext16mem
                      else if extmem \<noteq> 0 then 1 * 1024 + extmem
                      else basemem)
      in s\<lparr>npages := unat (totalmem div (PGSIZE div 1024)),
           npages_basemem := unat (basemem div (PGSIZE div 1024))\<rparr>)"

definition boot_alloc :: "u32 \<Rightarrow> kstate \<Rightarrow> u32 \<times> kstate" where
  "boot_alloc n s =
     (let s = (if nextfree s = 0 then s\<lparr>nextfree := ROUNDUP (kern_end s) PGSIZE\<rparr> else s)
      in if n = 0 then (nextfree s, s)
         else (nextfree s, s\<lparr>nextfree := nextfree s + ROUNDUP n PGSIZE\<rparr>))"

section \<open>Addresses of pages\<close>

definition PADDR :: "u32 \<Rightarrow> u32 option" where
  "PADDR kva = (if kva < KERNBASE then None else Some (kva - KERNBASE))"

definition KADDR :: "kstate \<Rightarrow> u32 \<Rightarrow> u32 option" where
  "KADDR s pa = (if npages s \<le> unat (PGNUM pa) then None else Some (pa + KERNBASE))"

definition page2pa :: "nat \<Rightarrow> u32" where
  "page2pa pp = push_bit 12 (of_nat pp)"

definition pa2page :: "kstate \<Rightarrow> u32 \<Rightarrow> nat option" where
  "pa2page s pa = (if npages s \<le> unat (PGNUM pa) then None else Some (unat (PGNUM pa)))"

definition page2kva :: "kstate \<Rightarrow> nat \<Rightarrow> u32 option" where
  "page2kva s pp = KADDR s (page2pa pp)"

text \<open>
  Loads, stores and \<open>memset(p, 0, n)\<close> through a kernel virtual address: physical memory is mapped
  at \<open>KERNBASE\<close>, so the address is the physical one plus \<open>KERNBASE\<close>.
\<close>

definition kload :: "kstate \<Rightarrow> u32 \<Rightarrow> u32" where
  "kload s kva = phys s (kva - KERNBASE)"

definition kstore :: "u32 \<Rightarrow> u32 \<Rightarrow> kstate \<Rightarrow> kstate" where
  "kstore kva v s = s\<lparr>phys := (phys s)(kva - KERNBASE := v)\<rparr>"

definition kzero :: "u32 \<Rightarrow> u32 \<Rightarrow> kstate \<Rightarrow> kstate" where
  "kzero kva n s = s\<lparr>phys := (\<lambda>a. if a - (kva - KERNBASE) < n then 0 else phys s a)\<rparr>"

section \<open>The page array and its free list\<close>

text \<open>
  One iteration of the loop of \<open>page_init\<close>; \<open>ext\<close> is \<open>extendedFree\<close>, the number of the first
  page above the boot allocations.
\<close>

definition page_reserved :: "nat \<Rightarrow> nat \<Rightarrow> nat \<Rightarrow> bool" where
  "page_reserved base ext i \<longleftrightarrow>
     i = 0 \<or> (base \<le> i \<and> i < ext) \<or> i = unat (PGNUM MPENTRY_PADDR)"

definition page_init_step :: "nat \<Rightarrow> nat \<Rightarrow> kstate \<Rightarrow> kstate" where
  "page_init_step ext i s =
     (let s = upd_page i (\<lambda>p. p\<lparr>pp_ref := 0\<rparr>) s
      in if page_reserved (npages_basemem s) ext i
         then upd_page i (\<lambda>p. p\<lparr>pp_link := None\<rparr>) s
         else (upd_page i (\<lambda>p. p\<lparr>pp_link := page_free_list s\<rparr>) s)\<lparr>page_free_list := Some i\<rparr>)"

definition page_init :: "kstate \<Rightarrow> kstate option" where
  "page_init s = do {
     c_assert (page_free_list s = None);
     let (va, s) = boot_alloc 0 s;
     pa \<leftarrow> PADDR va;
     Some (fold (page_init_step (unat (PGNUM pa))) [0..<npages s] s)
   }"

abbreviation (input) ALLOC_ZERO :: u32 where "ALLOC_ZERO \<equiv> 1"

definition page_alloc :: "u32 \<Rightarrow> kstate \<Rightarrow> (nat option \<times> kstate) option" where
  "page_alloc alloc_flags s =
     (case page_free_list s of
        None \<Rightarrow> Some (None, s)
      | Some ret \<Rightarrow>
          (let s = s\<lparr>page_free_list := pp_link (pages s ret)\<rparr>;
               s = upd_page ret (\<lambda>p. p\<lparr>pp_link := None\<rparr>) s
           in if alloc_flags AND ALLOC_ZERO \<noteq> 0
              then do { kva \<leftarrow> page2kva s ret; Some (Some ret, kzero kva PGSIZE s) }
              else Some (Some ret, s)))"

definition page_free :: "nat \<Rightarrow> kstate \<Rightarrow> kstate option" where
  "page_free pp s = do {
     c_assert (pp_ref (pages s pp) = 0);
     c_assert (pp_link (pages s pp) = None);
     let s = upd_page pp (\<lambda>p. p\<lparr>pp_link := page_free_list s\<rparr>) s;
     Some (s\<lparr>page_free_list := Some pp\<rparr>)
   }"

definition page_decref :: "nat \<Rightarrow> kstate \<Rightarrow> kstate option" where
  "page_decref pp s =
     (let s = upd_page pp (\<lambda>p. p\<lparr>pp_ref := pp_ref p - 1\<rparr>) s
      in if pp_ref (pages s pp) = 0 then page_free pp s else Some s)"

section \<open>Invariant\<close>

definition free_pages :: "kstate \<Rightarrow> nat list" where
  "free_pages s = follow (npages s) (\<lambda>i. pp_link (pages s i)) (page_free_list s)"

definition pm_inv :: "kstate \<Rightarrow> bool" where
  "pm_inv s \<longleftrightarrow>
     npages s \<le> 1048576 \<and>
     chain (\<lambda>i. pp_link (pages s i)) (page_free_list s) (free_pages s) \<and>
     (\<forall>i\<in>set (free_pages s). i < npages s \<and> pp_ref (pages s i) = 0) \<and>
     (\<forall>i<npages s. i \<notin> set (free_pages s) \<longrightarrow> pp_link (pages s i) = None)"

text \<open>The invariant from a list that is known to be the chain.\<close>

lemma pm_invI:
  assumes "npages s \<le> 1048576"
    and "chain (\<lambda>i. pp_link (pages s i)) (page_free_list s) xs"
    and "\<And>i. i \<in> set xs \<Longrightarrow> i < npages s \<and> pp_ref (pages s i) = 0"
    and "\<And>i. i < npages s \<Longrightarrow> i \<notin> set xs \<Longrightarrow> pp_link (pages s i) = None"
  shows "pm_inv s \<and> free_pages s = xs"
proof -
  have "length xs \<le> npages s" using assms(2,3) chain_bound by blast
  with assms(2) have "free_pages s = xs" by (simp add: free_pages_def follow_chain)
  with assms show ?thesis by (auto simp: pm_inv_def)
qed

lemma pm_inv_chain: "pm_inv s \<Longrightarrow> chain (\<lambda>i. pp_link (pages s i)) (page_free_list s) (free_pages s)"
  by (simp add: pm_inv_def)

lemma pm_inv_distinct: "pm_inv s \<Longrightarrow> distinct (free_pages s)"
  by (auto simp: pm_inv_def dest: chain_distinct)

lemma pm_inv_npages: "pm_inv s \<Longrightarrow> npages s \<le> 1048576"
  by (simp add: pm_inv_def)

lemma free_pages_lt: "pm_inv s \<Longrightarrow> i \<in> set (free_pages s) \<Longrightarrow> i < npages s"
  by (simp add: pm_inv_def)

lemma free_pages_ref: "pm_inv s \<Longrightarrow> i \<in> set (free_pages s) \<Longrightarrow> pp_ref (pages s i) = 0"
  by (simp add: pm_inv_def)

lemma free_pages_hd: "pm_inv s \<Longrightarrow> page_free_list s = (case free_pages s of [] \<Rightarrow> None | x # _ \<Rightarrow> Some x)"
  by (auto simp: pm_inv_def split: list.split)

text \<open>The invariant and the free list depend only on these fields.\<close>

lemma pm_inv_cong:
  assumes "npages s' = npages s" "pages s' = pages s" "page_free_list s' = page_free_list s"
  shows "pm_inv s' = pm_inv s" "free_pages s' = free_pages s"
  using assms by (simp_all add: pm_inv_def free_pages_def)

section \<open>Addresses\<close>

lemma unat_page2pa: "pp < 1048576 \<Longrightarrow> unat (page2pa pp) = pp * 4096"
  by (simp add: page2pa_def push_bit_eq_mult unat_word_ariths)

lemma PGNUM_page2pa: "pp < 1048576 \<Longrightarrow> unat (PGNUM (page2pa pp)) = pp"
  by (simp add: unat_PGNUM unat_page2pa)

lemma pa2page_page2pa:
  "pm_inv s \<Longrightarrow> pp < npages s \<Longrightarrow> pa2page s (page2pa pp) = Some pp"
  using pm_inv_npages [of s] by (simp add: pa2page_def PGNUM_page2pa)

lemma page2kva_ok:
  "pm_inv s \<Longrightarrow> pp < npages s \<Longrightarrow> page2kva s pp = Some (page2pa pp + KERNBASE)"
  using pm_inv_npages [of s] by (simp add: page2kva_def KADDR_def PGNUM_page2pa)

text \<open>Within a page: the cells \<open>memset(page2kva(pp), 0, PGSIZE)\<close> clears are those of page \<open>pp\<close>.\<close>

lemma in_page_iff:
  assumes "pp < 1048576"
  shows "a - page2pa pp < PGSIZE \<longleftrightarrow> unat (PGNUM a) = pp"
proof (cases "page2pa pp \<le> a")
  case True
  then have "unat (a - page2pa pp) = unat a - pp * 4096" and le: "pp * 4096 \<le> unat a"
    using assms by (simp_all add: unat_sub_no_wrap unat_page2pa word_le_nat_alt)
  then have "a - page2pa pp < 4096 \<longleftrightarrow> unat a - pp * 4096 < 4096"
    by (simp add: word_less_nat_alt)
  also have "\<dots> \<longleftrightarrow> unat a div 4096 = pp" using le by (auto simp: div_nat_eqI)
  finally show ?thesis by (simp add: unat_PGNUM)
next
  case False
  then have lt: "unat a < pp * 4096" using assms by (simp add: word_le_nat_alt unat_page2pa)
  have "unat (a - page2pa pp) = unat a + 4294967296 - pp * 4096"
    using lt assms by (subst unat_sub_if') (simp add: unat_page2pa)
  then have "\<not> a - page2pa pp < 4096"
    using assms by (simp add: word_less_nat_alt)
  moreover have "unat a div 4096 \<noteq> pp" using lt by auto
  ultimately show ?thesis by (simp add: unat_PGNUM)
qed

section \<open>What the operations do\<close>

definition unlinked :: "nat \<Rightarrow> kstate \<Rightarrow> kstate" where
  "unlinked pp s = (upd_page pp (\<lambda>p. p\<lparr>pp_link := None\<rparr>) s)\<lparr>page_free_list := pp_link (pages s pp)\<rparr>"

definition cleared :: "nat \<Rightarrow> kstate \<Rightarrow> kstate" where
  "cleared pp s = s\<lparr>phys := (\<lambda>a. if unat (PGNUM a) = pp then 0 else phys s a)\<rparr>"

lemma unlinked_inv:
  assumes "pm_inv s" and "free_pages s = f # fs"
  shows "pm_inv (unlinked f s) \<and> free_pages (unlinked f s) = fs"
proof (rule pm_invI)
  let ?link = "\<lambda>i. pp_link (pages s i)"
  from assms have c: "chain ?link (?link f) fs" by (auto dest: pm_inv_chain)
  then have nin: "f \<notin> set fs" using chain_tail_notin [of ?link f fs] by simp
  show "npages (unlinked f s) \<le> 1048576" using assms by (simp add: unlinked_def pm_inv_def)
  have "chain (?link(f := None)) (?link f) fs" using c nin by simp
  moreover have "?link(f := None) = (\<lambda>i. pp_link (pages (unlinked f s) i))"
    by (auto simp: unlinked_def)
  ultimately show "chain (\<lambda>i. pp_link (pages (unlinked f s) i)) (page_free_list (unlinked f s)) fs"
    by (simp add: unlinked_def)
  show "i < npages (unlinked f s) \<and> pp_ref (pages (unlinked f s) i) = 0" if "i \<in> set fs" for i
    using assms that nin by (auto simp: unlinked_def pm_inv_def)
  show "pp_link (pages (unlinked f s) i) = None" if "i < npages (unlinked f s)" "i \<notin> set fs" for i
    using assms that by (auto simp: unlinked_def pm_inv_def)
qed

lemma page_alloc_empty: "pm_inv s \<Longrightarrow> free_pages s = [] \<Longrightarrow> page_alloc fl s = Some (None, s)"
  by (simp add: page_alloc_def free_pages_hd)

lemma page_alloc_frame:
  assumes "pm_inv s" and "free_pages s = f # fs"
  shows "page_alloc fl s = Some (Some f, if fl AND ALLOC_ZERO \<noteq> 0 then cleared f (unlinked f s) else unlinked f s)"
proof -
  have f: "f < npages s" using assms by (auto simp: pm_inv_def)
  have u: "upd_page f (\<lambda>p. p\<lparr>pp_link := None\<rparr>) (s\<lparr>page_free_list := pp_link (pages s f)\<rparr>) = unlinked f s"
    by (simp add: unlinked_def upd_page_def)
  have k: "page2kva (unlinked f s) f = Some (page2pa f + KERNBASE)"
    using unlinked_inv [OF assms] f by (intro page2kva_ok) (auto simp: unlinked_def)
  have z: "kzero (page2pa f + KERNBASE) PGSIZE (unlinked f s) = cleared f (unlinked f s)"
    using f pm_inv_npages [OF assms(1)] by (simp add: kzero_def cleared_def in_page_iff)
  show ?thesis using assms by (simp add: page_alloc_def free_pages_hd u k z)
qed

lemma cleared_inv [simp]:
  "pm_inv (cleared pp s) = pm_inv s" "free_pages (cleared pp s) = free_pages s"
  by (rule pm_inv_cong; simp add: cleared_def)+

lemma page_alloc_cases:
  assumes "pm_inv s" and "page_alloc fl s = Some (r, s')"
  obtains "r = None" "s' = s" "free_pages s = []"
  | f where "r = Some f" "free_pages s = f # free_pages s'" "pm_inv s'"
      "s' = (if fl AND ALLOC_ZERO \<noteq> 0 then cleared f (unlinked f s) else unlinked f s)"
proof (cases "free_pages s")
  case Nil
  with assms that(1) show ?thesis by (simp add: page_alloc_empty)
next
  case (Cons f fs)
  then have s': "r = Some f" "s' = (if fl AND 1 \<noteq> 0 then cleared f (unlinked f s) else unlinked f s)"
    using assms page_alloc_frame [OF assms(1) Cons, of fl] by simp_all
  then have "pm_inv s' \<and> free_pages s' = fs" using unlinked_inv [OF assms(1) Cons] by simp
  with that(2) [of f] s' Cons show ?thesis by simp
qed

lemma page_free_ok:
  assumes inv: "pm_inv s" and pp: "pp < npages s" "pp_ref (pages s pp) = 0" "pp_link (pages s pp) = None"
    and nf: "pp \<notin> set (free_pages s)"
  shows "\<exists>s'. page_free pp s = Some s' \<and> pm_inv s' \<and> free_pages s' = pp # free_pages s \<and>
     phys s' = phys s \<and> (\<forall>i. i \<noteq> pp \<longrightarrow> pages s' i = pages s i) \<and> pp_ref (pages s' pp) = 0"
proof -
  define s' where "s' = (upd_page pp (\<lambda>p. p\<lparr>pp_link := page_free_list s\<rparr>) s)\<lparr>page_free_list := Some pp\<rparr>"
  have eq: "page_free pp s = Some s'" using pp by (simp add: page_free_def s'_def)
  have link: "(\<lambda>i. pp_link (pages s' i)) = (\<lambda>i. pp_link (pages s i))(pp := page_free_list s)"
    by (auto simp: s'_def)
  have "pm_inv s' \<and> free_pages s' = pp # free_pages s"
  proof (rule pm_invI)
    show "npages s' \<le> 1048576" using inv by (simp add: s'_def pm_inv_def)
    show "chain (\<lambda>i. pp_link (pages s' i)) (page_free_list s') (pp # free_pages s)"
      unfolding link using inv nf by (simp add: s'_def pm_inv_chain)
    show "i < npages s' \<and> pp_ref (pages s' i) = 0" if "i \<in> set (pp # free_pages s)" for i
      using that inv pp by (auto simp: s'_def pm_inv_def)
    show "pp_link (pages s' i) = None" if "i < npages s'" "i \<notin> set (pp # free_pages s)" for i
      using that inv by (auto simp: s'_def pm_inv_def)
  qed
  with eq pp show ?thesis by (auto simp: s'_def)
qed

text \<open>
  The page-frame contract. A page may be freed when it is in range, unreferenced and not linked;
  the code's two assertions are the last two, that it is not free already is the caller's part.
\<close>

definition page_alloc_frame_op :: "kstate \<Rightarrow> (nat \<times> kstate) option" where
  "page_alloc_frame_op s = (case page_alloc 0 s of Some (Some f, s') \<Rightarrow> Some (f, s') | _ \<Rightarrow> None)"

definition page_freeable :: "nat \<Rightarrow> kstate \<Rightarrow> bool" where
  "page_freeable pp s \<longleftrightarrow> pp < npages s \<and> pp_ref (pages s pp) = 0 \<and> pp_link (pages s pp) = None \<and>
     pp \<notin> set (free_pages s)"

interpretation jos_frames: frame_allocator page_alloc_frame_op page_free free_pages pm_inv page_freeable
proof
  fix s :: kstate and f fs
  show "page_alloc_frame_op s = None" if "pm_inv s" "free_pages s = []"
    using that by (simp add: page_alloc_frame_op_def page_alloc_empty)
  show "\<exists>s'. page_alloc_frame_op s = Some (f, s') \<and> free_pages s' = fs \<and> pm_inv s' \<and> page_freeable f s'"
    if inv: "pm_inv s" and fp: "free_pages s = f # fs"
  proof -
    have "distinct (f # fs)" using inv fp pm_inv_distinct by metis
    then have "page_freeable f (unlinked f s)"
      using inv fp unlinked_inv [OF inv fp] by (auto simp: page_freeable_def unlinked_def pm_inv_def)
    then show ?thesis
      using unlinked_inv [OF inv fp] page_alloc_frame [OF inv fp, of 0]
      by (auto simp: page_alloc_frame_op_def)
  qed
  show "\<exists>s'. page_free f s = Some s' \<and> free_pages s' = f # free_pages s \<and> pm_inv s'"
    if "pm_inv s" "page_freeable f s"
    using that page_free_ok [of s f] by (auto simp: page_freeable_def)
  show "f \<notin> set (free_pages s)" if "pm_inv s" "page_freeable f s"
    using that by (simp add: page_freeable_def)
  show "distinct (free_pages s)" if "pm_inv s"
    using that by (rule pm_inv_distinct)
qed

section \<open>Initialisation\<close>

lemma page_init_step_frame [simp]:
  "npages (page_init_step ext i s) = npages s"
  "npages_basemem (page_init_step ext i s) = npages_basemem s"
  "phys (page_init_step ext i s) = phys s"
  "nextfree (page_init_step ext i s) = nextfree s"
  by (simp_all add: page_init_step_def Let_def upd_page_def)

lemma page_init_fold_frame [simp]:
  "npages (fold (page_init_step ext) xs s) = npages s"
  "npages_basemem (fold (page_init_step ext) xs s) = npages_basemem s"
  "phys (fold (page_init_step ext) xs s) = phys s"
  by (induction xs arbitrary: s) simp_all

lemma page_init_fold:
  fixes s :: kstate and ext :: nat
  assumes "page_free_list s = None"
  defines "usable \<equiv> \<lambda>i. \<not> page_reserved (npages_basemem s) ext i"
  defines "after \<equiv> \<lambda>k. fold (page_init_step ext) [0..<k] s"
  shows "chain (\<lambda>i. pp_link (pages (after k) i)) (page_free_list (after k)) (rev (filter usable [0..<k])) \<and>
     (\<forall>i<k. pp_ref (pages (after k) i) = 0 \<and> (\<not> usable i \<longrightarrow> pp_link (pages (after k) i) = None))"
proof (induction k)
  case 0
  then show ?case using assms(1) by (simp add: after_def)
next
  case (Suc k)
  have b: "npages_basemem (after k) = npages_basemem s" by (simp add: after_def)
  have step: "after (Suc k) = page_init_step ext k (after k)" by (simp add: after_def)
  have nin: "k \<notin> set (rev (filter usable [0..<k]))" by simp
  show ?case
  proof (cases "usable k")
    case True
    then have "(\<lambda>i. pp_link (pages (after (Suc k)) i)) = (\<lambda>i. pp_link (pages (after k) i))(k := page_free_list (after k))"
      and "\<And>i. i < k \<Longrightarrow> pp_link (pages (after (Suc k)) i) = pp_link (pages (after k) i)"
      and "page_free_list (after (Suc k)) = Some k"
      and "\<And>i. pp_ref (pages (after (Suc k)) i) = (if i = k then 0 else pp_ref (pages (after k) i))"
      using b by (auto simp: step page_init_step_def Let_def usable_def upd_page_def)
    with Suc nin True show ?thesis by (auto simp: less_Suc_eq)
  next
    case False
    then have "(\<lambda>i. pp_link (pages (after (Suc k)) i)) = (\<lambda>i. pp_link (pages (after k) i))(k := None)"
      and "\<And>i. i < k \<Longrightarrow> pp_link (pages (after (Suc k)) i) = pp_link (pages (after k) i)"
      and "page_free_list (after (Suc k)) = page_free_list (after k)"
      and "\<And>i. pp_ref (pages (after (Suc k)) i) = (if i = k then 0 else pp_ref (pages (after k) i))"
      and "pp_link (pages (after (Suc k)) k) = None"
      using b by (auto simp: step page_init_step_def Let_def usable_def upd_page_def)
    with Suc nin False show ?thesis by (auto simp: less_Suc_eq)
  qed
qed

lemma boot_alloc_frame [simp]:
  "npages (snd (boot_alloc n s)) = npages s" "npages_basemem (snd (boot_alloc n s)) = npages_basemem s"
  "page_free_list (snd (boot_alloc n s)) = page_free_list s" "pages (snd (boot_alloc n s)) = pages s"
  "phys (snd (boot_alloc n s)) = phys s"
  by (simp_all add: boot_alloc_def Let_def)

lemma page_init_correct:
  assumes "page_free_list s = None" and "npages s \<le> 1048576"
    and "KERNBASE \<le> fst (boot_alloc 0 s)"
  shows "\<exists>s'. page_init s = Some s' \<and> pm_inv s' \<and> npages s' = npages s \<and> free_pages s' =
      rev (filter (\<lambda>i. \<not> page_reserved (npages_basemem s) (unat (PGNUM (fst (boot_alloc 0 s) - KERNBASE))) i)
             [0..<npages s])"
proof -
  obtain va s0 where va: "boot_alloc 0 s = (va, s0)" by (cases "boot_alloc 0 s")
  define ext where "ext = unat (PGNUM (va - KERNBASE))"
  have s0: "npages s0 = npages s" "npages_basemem s0 = npages_basemem s" "page_free_list s0 = None"
    using va assms(1) boot_alloc_frame [of 0 s] by simp_all
  let ?s' = "fold (page_init_step ext) [0..<npages s] s0"
  have "page_init s = Some ?s'"
    using assms s0 by (simp add: page_init_def va PADDR_def ext_def not_less [symmetric])
  moreover note page_init_fold [OF s0(3), where ext = ext and k = "npages s"]
  then have "pm_inv ?s' \<and> free_pages ?s' = rev (filter (\<lambda>i. \<not> page_reserved (npages_basemem s) ext i) [0..<npages s])"
    using assms(2) s0 by (intro pm_invI) auto
  ultimately show ?thesis using s0 by (simp add: va ext_def)
qed

section \<open>Reference counts\<close>

lemma upd_ref_inv:
  assumes "pm_inv s" "pp \<notin> set (free_pages s)"
  shows "pm_inv (upd_page pp (\<lambda>p. p\<lparr>pp_ref := r\<rparr>) s) \<and> free_pages (upd_page pp (\<lambda>p. p\<lparr>pp_ref := r\<rparr>) s) = free_pages s"
proof (rule pm_invI)
  have l: "(\<lambda>i. pp_link (pages (upd_page pp (\<lambda>p. p\<lparr>pp_ref := r\<rparr>) s) i)) = (\<lambda>i. pp_link (pages s i))"
    by auto
  show "chain (\<lambda>i. pp_link (pages (upd_page pp (\<lambda>p. p\<lparr>pp_ref := r\<rparr>) s) i))
     (page_free_list (upd_page pp (\<lambda>p. p\<lparr>pp_ref := r\<rparr>) s)) (free_pages s)"
    unfolding l using assms by (simp add: pm_inv_chain)
qed (use assms in \<open>auto simp: pm_inv_def\<close>)

lemma page_decref_ok:
  assumes inv: "pm_inv s" and pp: "pp < npages s" "pp \<notin> set (free_pages s)"
  shows "\<exists>s'. page_decref pp s = Some s' \<and> pm_inv s' \<and>
     free_pages s' = (if pp_ref (pages s pp) = 1 then pp # free_pages s else free_pages s) \<and>
     phys s' = phys s \<and> (\<forall>i. i \<noteq> pp \<longrightarrow> pages s' i = pages s i) \<and>
     pp_ref (pages s' pp) = pp_ref (pages s pp) - 1"
proof -
  define r where "r = pp_ref (pages s pp) - 1"
  define t where "t = upd_page pp (\<lambda>p. p\<lparr>pp_ref := r\<rparr>) s"
  have t: "pm_inv t" "free_pages t = free_pages s" using upd_ref_inv [OF inv pp(2)] by (simp_all add: t_def)
  have t': "pp_ref (pages t pp) = r" "pp_link (pages t pp) = None" "npages t = npages s" "phys t = phys s"
    using inv pp by (simp_all add: t_def pm_inv_def)
  have d: "page_decref pp s = (if r = 0 then page_free pp t else Some t)"
    by (simp add: page_decref_def t_def r_def upd_page_def)
  show ?thesis
  proof (cases "r = 0")
    case True
    then have r1: "pp_ref (pages s pp) = 1" by (simp add: r_def)
    have "pp_ref (pages t pp) = 0" using t' True by simp
    from page_free_ok [OF t(1) _ this t'(2)] pp t t' obtain s' where s':
      "page_free pp t = Some s'" "pm_inv s'" "free_pages s' = pp # free_pages s" "phys s' = phys s"
      "\<forall>i. i \<noteq> pp \<longrightarrow> pages s' i = pages t i" "pp_ref (pages s' pp) = 0"
      by auto
    have "\<forall>i. i \<noteq> pp \<longrightarrow> pages t i = pages s i" by (simp add: t_def)
    with s' d True r1 show ?thesis by auto
  next
    case False
    then have "pp_ref (pages s pp) \<noteq> 1" by (auto simp: r_def)
    with d False t t' show ?thesis by (auto simp: r_def t_def)
  qed
qed

end
