(* ===== verification/Jos_Pgdir.thy ===== *)
theory Jos_Pgdir
  imports Jos_Pages
begin

text \<open>
  The two-level page tables of JOS (\<open>kern/pmap.c\<close>): walking, mapping, looking up and unmapping
  pages, the boot-time and MMIO mappings, and the check of user memory ranges. Page table entries
  are cells of physical memory, reached through kernel virtual addresses as in the code.
\<close>

section \<open>Operations\<close>

definition pgdir_walk :: "u32 \<Rightarrow> u32 \<Rightarrow> bool \<Rightarrow> kstate \<Rightarrow> (u32 option \<times> kstate) option" where
  "pgdir_walk pgdir va create s = do {
     c_assert (pgdir \<noteq> 0);
     let pde = pgdir + 4 * PDX va;
     (present, s) \<leftarrow>
       (if kload s pde AND PTE_P = 0
        then if \<not> create then Some (False, s)
        else do {
          (page, s) \<leftarrow> page_alloc ALLOC_ZERO s;
          case page of
            None \<Rightarrow> Some (False, s)
          | Some page \<Rightarrow> do {
              let s = upd_page page (\<lambda>p. p\<lparr>pp_ref := pp_ref p + 1\<rparr>) s;
              c_assert (pp_ref (pages s page) = 1);
              c_assert (pp_link (pages s page) = None);
              Some (True, kstore pde (page2pa page OR PTE_P OR PTE_U OR PTE_W) s)
            }
        }
        else Some (True, s));
     if \<not> present then Some (None, s)
     else do {
       pt \<leftarrow> KADDR s (PTE_ADDR (kload s pde));
       Some (Some (pt + 4 * PTX va), s)
     }
   }"

text \<open>The store through a NULL \<open>pte\<close>, when no page table can be allocated, is a kernel fault.\<close>

partial_function (option) boot_map_loop ::
  "u32 \<Rightarrow> u32 \<Rightarrow> u32 \<Rightarrow> u32 \<Rightarrow> u32 \<Rightarrow> u32 \<Rightarrow> kstate \<Rightarrow> kstate option" where
  "boot_map_loop pgdir va sz pa perm i s =
     (if i < sz then do {
        (pte, s) \<leftarrow> pgdir_walk pgdir va True s;
        pte \<leftarrow> pte;
        boot_map_loop pgdir (va + PGSIZE) sz (pa + PGSIZE) perm (i + PGSIZE)
          (kstore pte (pa OR perm OR PTE_P) s)
      } else Some s)"

definition boot_map_region :: "u32 \<Rightarrow> u32 \<Rightarrow> u32 \<Rightarrow> u32 \<Rightarrow> u32 \<Rightarrow> kstate \<Rightarrow> kstate option" where
  "boot_map_region pgdir va sz pa perm s = boot_map_loop pgdir va sz pa perm 0 s"

definition tlb_invalidate :: "u32 \<Rightarrow> u32 \<Rightarrow> kstate \<Rightarrow> kstate" where
  "tlb_invalidate pgdir va s =
     (if curenv s = None \<or> env_pgdir (envs s (the (curenv s))) = pgdir
      then s\<lparr>invlpg_log := va # invlpg_log s\<rparr> else s)"

text \<open>\<open>page_lookup\<close> returns the page together with the address stored through \<open>pte_store\<close>.\<close>

definition page_lookup :: "u32 \<Rightarrow> u32 \<Rightarrow> kstate \<Rightarrow> ((nat \<times> u32) option) option" where
  "page_lookup pgdir va s = do {
     (pte, s) \<leftarrow> pgdir_walk pgdir va False s;
     case pte of
       None \<Rightarrow> Some None
     | Some pte \<Rightarrow>
         if kload s pte AND PTE_P = 0 then Some None
         else do {
           pp \<leftarrow> pa2page s (PTE_ADDR (kload s pte));
           Some (Some (pp, pte))
         }
   }"

definition page_remove :: "u32 \<Rightarrow> u32 \<Rightarrow> kstate \<Rightarrow> kstate option" where
  "page_remove pgdir va s = do {
     r \<leftarrow> page_lookup pgdir va s;
     case r of
       None \<Rightarrow> Some s
     | Some (pp, pte) \<Rightarrow> do {
         s \<leftarrow> page_decref pp (kstore pte 0 s);
         Some (tlb_invalidate pgdir va s)
       }
   }"

definition page_insert :: "u32 \<Rightarrow> nat \<Rightarrow> u32 \<Rightarrow> u32 \<Rightarrow> kstate \<Rightarrow> ((jos_error + unit) \<times> kstate) option" where
  "page_insert pgdir pp va perm s = do {
     (pte, s) \<leftarrow> pgdir_walk pgdir va True s;
     case pte of
       None \<Rightarrow> Some (Inl E_NO_MEM, s)
     | Some pte \<Rightarrow> do {
         let s = upd_page pp (\<lambda>p. p\<lparr>pp_ref := pp_ref p + 1\<rparr>) s;
         s \<leftarrow> (if kload s pte AND PTE_P \<noteq> 0 then page_remove pgdir va s else Some s);
         let s = kstore pte (page2pa pp OR perm OR PTE_P) s;
         Some (Inr (), tlb_invalidate pgdir va s)
       }
   }"

definition mmio_map_region :: "u32 \<Rightarrow> u32 \<Rightarrow> kstate \<Rightarrow> (u32 \<times> kstate) option" where
  "mmio_map_region pa sz s =
     (let sizeUp = ROUNDUP sz PGSIZE
      in if MMIOLIM - mmio_base s < sizeUp then None
         else do {
           s \<leftarrow> boot_map_region (kern_pgdir s) (mmio_base s) sizeUp pa (PTE_PCD OR PTE_PWT OR PTE_W) s;
           let s = s\<lparr>mmio_base := mmio_base s + sizeUp\<rparr>;
           Some (mmio_base s - sizeUp, s)
         })"

text \<open>
  \<open>user_mem_check\<close> on the environment whose page directory is \<open>pgdir\<close>: the loop over the pages of
  the range, then the function itself.
\<close>

partial_function (option) user_mem_check_loop ::
  "u32 \<Rightarrow> u32 \<Rightarrow> u32 \<Rightarrow> u32 \<Rightarrow> u32 \<Rightarrow> kstate \<Rightarrow> ((jos_error + unit) \<times> kstate) option" where
  "user_mem_check_loop pgdir va perm start fin s =
     (if start < fin then do {
        (pte, s) \<leftarrow> pgdir_walk pgdir start False s;
        if ULIM \<le> start \<or> pte = None \<or> kload s (the pte) AND PTE_P = 0 \<or> kload s (the pte) AND perm \<noteq> perm
        then Some (Inl E_FAULT, s\<lparr>user_mem_check_addr := (if start < va then va else start)\<rparr>)
        else user_mem_check_loop pgdir va perm (start + PGSIZE) fin s
      } else Some (Inr (), s))"

definition user_mem_check :: "u32 \<Rightarrow> u32 \<Rightarrow> u32 \<Rightarrow> u32 \<Rightarrow> kstate \<Rightarrow> ((jos_error + unit) \<times> kstate) option" where
  "user_mem_check pgdir va n perm s =
     user_mem_check_loop pgdir va perm (ROUNDDOWN va PGSIZE) (ROUNDUP (va + n) PGSIZE) s"

end
