(* ===== verification/Jos_Vm.thy ===== *)
theory Jos_Vm
  imports Jos_Pgdir
begin

text \<open>
  What the page-table code of \<open>Jos_Pgdir\<close> does to address spaces. \<open>S\<close> is the set of pages that hold
  page directories. \<open>ptab\<close> reads the page tables off physical memory, \<open>vmap\<close> the user mappings;
  \<open>vm_inv\<close> says that page tables are private and that no page has more uses than its reference
  count. The lemmas follow one store into a page table, one change of a reference count and the
  walk \<open>pgdir_walk\<close>; \<open>slack\<close> is the difference between count and uses of a page.
\<close>

section \<open>Cells\<close>

definition cell :: "nat \<Rightarrow> nat \<Rightarrow> u32" where
  "cell p i = of_nat (p * 4096 + i * 4)"

lemma unat_cell: "p < 1048576 \<Longrightarrow> i < 1024 \<Longrightarrow> unat (cell p i) = p * 4096 + i * 4"
  unfolding cell_def by (rule unat_of_nat_32) linarith

lemma cell_inj:
  assumes "p < 1048576" "q < 1048576" "i < 1024" "j < 1024"
  shows "cell p i = cell q j \<longleftrightarrow> p = q \<and> i = j"
proof -
  have "cell p i = cell q j \<longleftrightarrow> p * 4096 + i * 4 = q * 4096 + j * 4"
    using assms by (simp add: word_eq_unat unat_cell)
  also have "\<dots> \<longleftrightarrow> p = q \<and> i = j"
  proof
    assume eq: "p * 4096 + i * 4 = q * 4096 + j * 4"
    have "(p * 4096 + i * 4) div 4096 = p" "(q * 4096 + j * 4) div 4096 = q"
      using assms by simp_all
    with eq have "p = q" by simp
    with eq show "p = q \<and> i = j" by simp
  qed simp
  finally show ?thesis .
qed

lemma PGNUM_cell: "p < 1048576 \<Longrightarrow> i < 1024 \<Longrightarrow> unat (PGNUM (cell p i)) = p"
  by (simp add: unat_PGNUM unat_cell)

lemma page2pa_of_nat: "page2pa p = of_nat (p * 4096)"
  by (simp add: page2pa_def push_bit_eq_mult)

lemma page2pa_PGNUM: "page2pa (unat (PGNUM x)) = PTE_ADDR x"
  by (simp add: page2pa_def PTE_ADDR_shift)

lemma kva_cell: "page2pa p + KERNBASE + 4 * i - KERNBASE = cell p (unat i)"
  by (simp add: page2pa_of_nat cell_def)

lemma PGNUM_PTE_ADDR: "PGNUM (PTE_ADDR x) = PGNUM x"
  by (simp add: word_eq_unat unat_PGNUM unat_PTE_ADDR)

lemma PGNUM_entry:
  assumes "p < 1048576" "unat perm < 4096"
  shows "unat (PGNUM (page2pa p OR perm OR PTE_P)) = p"
    "(page2pa p OR perm OR PTE_P) AND PTE_P \<noteq> 0"
proof -
  have "PGNUM (page2pa p OR perm OR PTE_P) = PGNUM (page2pa p) OR PGNUM perm OR PGNUM 1"
    by (simp add: PGNUM_def drop_bit_or)
  moreover have "PGNUM perm = 0" using assms(2) by (simp add: word_eq_unat unat_PGNUM)
  moreover have "PGNUM (1 :: u32) = 0" by (simp add: word_eq_unat unat_PGNUM)
  ultimately show "unat (PGNUM (page2pa p OR perm OR PTE_P)) = p" using assms(1) by (simp add: PGNUM_page2pa)
  show "(page2pa p OR perm OR PTE_P) AND PTE_P \<noteq> 0"
    by (simp add: bit.conj_disj_distrib2)
qed

section \<open>Address spaces\<close>

abbreviation (input) present :: "u32 \<Rightarrow> bool" where "present e \<equiv> e AND PTE_P \<noteq> 0"

abbreviation (input) entry_page :: "u32 \<Rightarrow> nat" where "entry_page e \<equiv> unat (PGNUM e)"

abbreviation (input) UPDE :: nat where "UPDE \<equiv> 955"

lemma UPDE_UTOP: "UPDE = unat (PDX UTOP)"
  by (simp add: unat_PDX layout_defs)

text \<open>Memory outside the user entries of the page directories.\<close>

abbreviation (input) no_user_pde :: "nat set \<Rightarrow> nat \<Rightarrow> nat \<Rightarrow> bool" where
  "no_user_pde S r i \<equiv> r \<notin> S \<or> UPDE \<le> i"

definition ptab :: "nat set \<Rightarrow> kstate \<Rightarrow> (nat \<times> nat) \<Rightarrow> nat option" where
  "ptab S s = (\<lambda>(pd, d). if pd \<in> S \<and> d < UPDE \<and> present (phys s (cell pd d))
     then Some (entry_page (phys s (cell pd d))) else None)"

definition vmap :: "nat set \<Rightarrow> kstate \<Rightarrow> (nat \<times> nat \<times> nat) \<Rightarrow> u32 option" where
  "vmap S s = (\<lambda>(pd, d, t). case ptab S s (pd, d) of None \<Rightarrow> None
     | Some q \<Rightarrow> if t < NPTENTRIES \<and> present (phys s (cell q t)) then Some (phys s (cell q t)) else None)"

definition vpage :: "nat set \<Rightarrow> kstate \<Rightarrow> (nat \<times> nat \<times> nat) \<Rightarrow> nat option" where
  "vpage S s k = map_option (\<lambda>e. entry_page e) (vmap S s k)"

definition uses :: "nat set \<Rightarrow> kstate \<Rightarrow> nat \<Rightarrow> nat" where
  "uses S s p = occ (vpage S s) p + occ (ptab S s) p + (if p \<in> S then 1 else 0)"

definition slack :: "nat set \<Rightarrow> kstate \<Rightarrow> nat \<Rightarrow> int" where
  "slack S s p = int (unat (pp_ref (pages s p))) - int (uses S s p)"

definition vm_inv :: "nat set \<Rightarrow> kstate \<Rightarrow> bool" where
  "vm_inv S s \<longleftrightarrow>
     pm_inv s \<and> npages s \<le> 65536 \<and> finite S \<and> S \<subseteq> {..<npages s} \<and>
     (\<forall>q \<in> ran (ptab S s). q < npages s \<and> q \<notin> S) \<and>
     inj_on (ptab S s) (dom (ptab S s)) \<and>
     (\<forall>p \<in> ran (vpage S s). p < npages s \<and> p \<notin> S \<and> p \<notin> ran (ptab S s)) \<and>
     (\<forall>p < npages s. 0 \<le> slack S s p)"

lemma dom_ptab: "dom (ptab S s) \<subseteq> S \<times> {..<UPDE}"
  by (auto simp: ptab_def split: if_splits)

lemma dom_vpage: "dom (vpage S s) \<subseteq> S \<times> {..<UPDE} \<times> {..<NPTENTRIES}"
  by (auto simp: vpage_def vmap_def ptab_def split: if_splits option.splits)

lemma finite_ptab: "finite S \<Longrightarrow> finite (dom (ptab S s))"
  by (rule finite_subset [OF dom_ptab]) simp

lemma finite_vpage: "finite S \<Longrightarrow> finite (dom (vpage S s))"
  by (rule finite_subset [OF dom_vpage]) simp

lemma vpage_eq: "vpage S s k = Some p \<longleftrightarrow> (\<exists>e. vmap S s k = Some e \<and> entry_page e = p)"
  by (auto simp: vpage_def)

text \<open>Facts read off the invariant.\<close>

lemma vm_inv_basic:
  assumes "vm_inv S s"
  shows "pm_inv s" "npages s \<le> 65536" "finite S" "finite (dom (ptab S s))" "finite (dom (vpage S s))"
  using assms by (simp_all add: vm_inv_def finite_ptab finite_vpage)

lemma vm_inv_root: "vm_inv S s \<Longrightarrow> pd \<in> S \<Longrightarrow> pd < npages s"
  by (auto simp: vm_inv_def)

lemma vm_inv_ptab: "vm_inv S s \<Longrightarrow> ptab S s k = Some q \<Longrightarrow> q < npages s \<and> q \<notin> S"
  by (auto simp: vm_inv_def intro: ranI)

lemma vm_inv_ptab_inj: "vm_inv S s \<Longrightarrow> ptab S s k = Some q \<Longrightarrow> ptab S s k' = Some q \<Longrightarrow> k = k'"
  unfolding vm_inv_def by (metis domI inj_onD)

lemma vm_inv_vpage:
  "vm_inv S s \<Longrightarrow> vpage S s k = Some p \<Longrightarrow> p < npages s \<and> p \<notin> S \<and> p \<notin> ran (ptab S s)"
  by (auto simp: vm_inv_def intro: ranI)

lemma vm_inv_slack: "vm_inv S s \<Longrightarrow> p < npages s \<Longrightarrow> 0 \<le> slack S s p"
  by (simp add: vm_inv_def)

text \<open>No free page is used: its reference count is zero, and uses never exceed the count.\<close>

lemma free_unused:
  assumes inv: "vm_inv S s" and p: "p \<in> set (free_pages s)"
  shows "uses S s p = 0" "p \<notin> S" "p \<notin> ran (ptab S s)" "p \<notin> ran (vpage S s)" "slack S s p = 0"
proof -
  have "pm_inv s" using inv by (simp add: vm_inv_def)
  then have r: "p < npages s" "pp_ref (pages s p) = 0" using p by (auto simp: pm_inv_def)
  then show u: "uses S s p = 0" using vm_inv_slack [OF inv, of p] by (simp add: slack_def)
  show "slack S s p = 0" using u r by (simp add: slack_def)
  show "p \<notin> S" using u by (auto simp: uses_def)
  show "p \<notin> ran (ptab S s)" "p \<notin> ran (vpage S s)"
    using u inv by (auto simp: uses_def vm_inv_basic simp flip: occ_zero_iff split: if_splits)
qed

lemma uses_cong: "ptab S s' = ptab S s \<Longrightarrow> vpage S s' = vpage S s \<Longrightarrow> uses S s' = uses S s"
  by (auto simp: uses_def)

lemma phys_cong: "phys s' = phys s \<Longrightarrow> ptab S s' = ptab S s \<and> vmap S s' = vmap S s \<and> vpage S s' = vpage S s"
  by (simp add: ptab_def vmap_def vpage_def fun_eq_iff)

section \<open>Stores into page tables\<close>

definition set_cell :: "nat \<Rightarrow> nat \<Rightarrow> u32 \<Rightarrow> kstate \<Rightarrow> kstate" where
  "set_cell q t v s = s\<lparr>phys := (phys s)(cell q t := v)\<rparr>"

lemma kstore_cell: "kstore (cell q t + KERNBASE) v s = set_cell q t v s"
  by (simp add: kstore_def set_cell_def)

lemma kload_cell: "kload s (cell q t + KERNBASE) = phys s (cell q t)"
  by (simp add: kload_def)

lemma set_cell_simps [simp]:
  "npages (set_cell q t v s) = npages s" "pages (set_cell q t v s) = pages s"
  "page_free_list (set_cell q t v s) = page_free_list s" "envs (set_cell q t v s) = envs s"
  "cpus (set_cell q t v s) = cpus s" "this_cpu (set_cell q t v s) = this_cpu s"
  "env_free_list (set_cell q t v s) = env_free_list s" "kern_pgdir (set_cell q t v s) = kern_pgdir s"
  "pm_inv (set_cell q t v s) = pm_inv s" "free_pages (set_cell q t v s) = free_pages s"
  by (simp_all add: set_cell_def pm_inv_def free_pages_def)

lemma phys_set_cell:
  "\<lbrakk>q < 1048576; t < 1024; p < 1048576; i < 1024\<rbrakk> \<Longrightarrow>
     phys (set_cell q t v s) (cell p i) = (if p = q \<and> i = t then v else phys s (cell p i))"
  by (simp add: set_cell_def cell_inj)

lemma slot_store:
  assumes inv: "vm_inv S s" and k: "ptab S s (pd, d) = Some q" and t: "t < NPTENTRIES"
  shows "ptab S (set_cell q t v s) = ptab S s"
    and "vmap S (set_cell q t v s) = (vmap S s)((pd, d, t) := if present v then Some v else None)"
proof -
  have q: "q < 1048576" "q \<notin> S" using vm_inv_ptab [OF inv k] vm_inv_basic [OF inv] by auto
  have S: "\<And>pd. pd \<in> S \<Longrightarrow> pd < 1048576" using vm_inv_root [OF inv] vm_inv_basic(2) [OF inv] by fastforce
  show p: "ptab S (set_cell q t v s) = ptab S s"
  proof (rule ext, clarify)
    fix pd' d'
    show "ptab S (set_cell q t v s) (pd', d') = ptab S s (pd', d')"
      using q t S by (auto simp: ptab_def phys_set_cell)
  qed
  show "vmap S (set_cell q t v s) = (vmap S s)((pd, d, t) := if present v then Some v else None)"
  proof (rule ext, clarify)
    fix pd' d' t'
    show "vmap S (set_cell q t v s) (pd', d', t') =
        ((vmap S s)((pd, d, t) := if present v then Some v else None)) (pd', d', t')"
    proof (cases "ptab S s (pd', d')")
      case None
      then show ?thesis using k by (auto simp: vmap_def p)
    next
      case (Some q')
      have q': "q' < 1048576" using vm_inv_ptab [OF inv Some] vm_inv_basic [OF inv] by auto
      have "q' = q \<longleftrightarrow> (pd', d') = (pd, d)" using vm_inv_ptab_inj [OF inv] k Some by auto
      then show ?thesis using k t q q' Some by (auto simp: vmap_def p phys_set_cell)
    qed
  qed
qed

lemma vpage_upd:
  "vmap S s' = (vmap S s)(k := w) \<Longrightarrow> vpage S s' = (vpage S s)(k := map_option (\<lambda>e. entry_page e) w)"
  by (auto simp: vpage_def)

lemma slack_slot_store:
  assumes inv: "vm_inv S s" and k: "ptab S s (pd, d) = Some q" and t: "t < NPTENTRIES"
  shows "slack S (set_cell q t v s) p = slack S s p
     + (if vpage S s (pd, d, t) = Some p then 1 else 0)
     - (if present v \<and> entry_page v = p then 1 else 0)"
proof -
  note st = slot_store [OF assms, of v]
  have "vpage S (set_cell q t v s) = (vpage S s)((pd, d, t) := if present v then Some (entry_page v) else None)"
    using vpage_upd [OF st(2)] by (auto simp: fun_eq_iff)
  then have "occ (vpage S (set_cell q t v s)) p + (if vpage S s (pd, d, t) = Some p then 1 else 0)
      = occ (vpage S s) p + (if present v \<and> entry_page v = p then 1 else 0)"
    using occ_upd [OF vm_inv_basic(5) [OF inv], of "(pd, d, t)"] by auto
  then show ?thesis by (auto simp: slack_def uses_def st(1) split: if_splits)
qed

text \<open>Clearing an entry releases one use of the page it mapped.\<close>

lemma clear_slot:
  assumes inv: "vm_inv S s" and k: "ptab S s (pd, d) = Some q" and t: "t < NPTENTRIES"
    and m: "vpage S s (pd, d, t) = Some p"
  shows "vm_inv S (set_cell q t 0 s)"
    and "slack S (set_cell q t 0 s) = (slack S s)(p := slack S s p + 1)"
    and "vmap S (set_cell q t 0 s) = (vmap S s)((pd, d, t) := None)"
    and "ptab S (set_cell q t 0 s) = ptab S s"
proof -
  note st = slot_store [OF inv k t, of 0]
  show sl: "slack S (set_cell q t 0 s) = (slack S s)(p := slack S s p + 1)"
    using m by (auto simp: slack_slot_store [OF inv k t] fun_eq_iff)
  show vm: "vmap S (set_cell q t 0 s) = (vmap S s)((pd, d, t) := None)" and "ptab S (set_cell q t 0 s) = ptab S s"
    using st by simp_all
  have "vpage S (set_cell q t 0 s) = (vpage S s)((pd, d, t) := None)"
    using vpage_upd [OF vm] by simp
  then have "ran (vpage S (set_cell q t 0 s)) \<subseteq> ran (vpage S s)" by (auto simp: ran_def)
  then show "vm_inv S (set_cell q t 0 s)"
    using inv by (auto simp: vm_inv_def st(1) sl)
qed

text \<open>Filling an empty entry takes one use of the page it maps.\<close>

lemma fill_slot:
  assumes inv: "vm_inv S s" and k: "ptab S s (pd, d) = Some q" and t: "t < NPTENTRIES"
    and m: "vmap S s (pd, d, t) = None" and v: "present v" "entry_page v = p"
    and p: "p < npages s" "p \<notin> S" "p \<notin> ran (ptab S s)" "1 \<le> slack S s p"
  shows "vm_inv S (set_cell q t v s)"
    and "slack S (set_cell q t v s) = (slack S s)(p := slack S s p - 1)"
    and "vmap S (set_cell q t v s) = (vmap S s)((pd, d, t) := Some v)"
    and "ptab S (set_cell q t v s) = ptab S s"
proof -
  note st = slot_store [OF inv k t, of v]
  show sl: "slack S (set_cell q t v s) = (slack S s)(p := slack S s p - 1)"
    using m v by (auto simp: slack_slot_store [OF inv k t] fun_eq_iff vpage_def)
  show vm: "vmap S (set_cell q t v s) = (vmap S s)((pd, d, t) := Some v)" and "ptab S (set_cell q t v s) = ptab S s"
    using st v by simp_all
  have "vpage S (set_cell q t v s) = (vpage S s)((pd, d, t) := Some p)"
    using vpage_upd [OF vm] v by simp
  then have "ran (vpage S (set_cell q t v s)) \<subseteq> insert p (ran (vpage S s))" by (auto simp: ran_def)
  then show "vm_inv S (set_cell q t v s)"
    using inv p by (auto simp: vm_inv_def st(1) sl)
qed

text \<open>Changing a reference count changes the slack of that page only.\<close>

lemma vm_inv_ref:
  assumes inv: "vm_inv S s" and ps: "pm_inv s'" "npages s' = npages s" "phys s' = phys s"
    and sl: "\<And>p. p < npages s \<Longrightarrow> 0 \<le> slack S s' p"
  shows "vm_inv S s'"
  using inv phys_cong [OF ps(3), of S] ps(1,2) sl by (simp add: vm_inv_def)

lemma slack_phys: "phys s' = phys s \<Longrightarrow>
  slack S s' p = slack S s p + int (unat (pp_ref (pages s' p))) - int (unat (pp_ref (pages s p)))"
  using phys_cong [of s' s S] by (simp add: slack_def uses_def)

lemma incref_vm:
  assumes inv: "vm_inv S s" and p: "p \<notin> set (free_pages s)" "pp_ref (pages s p) \<noteq> 65535"
  defines "s' \<equiv> upd_page p (\<lambda>q. q\<lparr>pp_ref := pp_ref q + 1\<rparr>) s"
  shows "vm_inv S s'" "slack S s' = (slack S s)(p := slack S s p + 1)" "free_pages s' = free_pages s"
proof -
  have s': "s' = upd_page p (\<lambda>q. q\<lparr>pp_ref := pp_ref (pages s p) + 1\<rparr>) s"
    by (simp add: s'_def upd_page_def)
  have pm: "pm_inv s' \<and> free_pages s' = free_pages s"
    using upd_ref_inv [OF vm_inv_basic(1) [OF inv] p(1)] by (simp add: s')
  then show "free_pages s' = free_pages s" by simp
  have "unat (pp_ref (pages s p)) \<noteq> 65535" using p(2) by (simp add: word_eq_unat)
  then have u: "unat (pp_ref (pages s p) + 1) = unat (pp_ref (pages s p)) + 1"
    using unat_less_16 [of "pp_ref (pages s p)"] by (simp add: unat_word_ariths)
  show sl: "slack S s' = (slack S s)(p := slack S s p + 1)"
    by (rule ext, subst slack_phys [of s' s]) (auto simp: s' u simp del: of_nat_unat)
  have "npages s' = npages s" "phys s' = phys s" by (simp_all add: s'_def)
  then show "vm_inv S s'"
    by (intro vm_inv_ref [OF inv]) (use pm inv in \<open>auto simp: sl vm_inv_slack add_nonneg_nonneg\<close>)
qed

definition env_part where
  "env_part s = (envs s, env_free_list s, cpus s, this_cpu s, kernel_locked s, cr3 s, kern_pgdir s, npages s)"

lemma env_part_simps [simp]:
  "env_part (upd_page i f s) = env_part s" "env_part (set_cell q t v s) = env_part s"
  "env_part (unlinked i s) = env_part s" "env_part (cleared i s) = env_part s"
  "env_part (s\<lparr>page_free_list := pl\<rparr>) = env_part s" "env_part (kzero a n s) = env_part s"
  "env_part (kstore a v s) = env_part s"  "env_part (tlb_invalidate a v s) = env_part s"
  by (simp_all add: env_part_def upd_page_def set_cell_def unlinked_def cleared_def kzero_def kstore_def tlb_invalidate_def)

lemma page_free_env_part: "page_free p s = Some s' \<Longrightarrow> env_part s' = env_part s"
  by (auto simp: page_free_def Let_def split: if_splits)

lemma page_decref_env_part: "page_decref p s = Some s' \<Longrightarrow> env_part s' = env_part s"
  by (auto simp: page_decref_def Let_def dest!: page_free_env_part split: if_splits)

lemma env_partD: "env_part s' = env_part s \<Longrightarrow> npages s' = npages s \<and> curenv s' = curenv s \<and> envs s' = envs s"
  by (simp add: env_part_def curenv_def)

text \<open>A page whose count drops to zero is on the free list.\<close>

definition freed :: "kstate \<Rightarrow> kstate \<Rightarrow> bool" where
  "freed s s' \<longleftrightarrow> (\<forall>r. pp_ref (pages s r) \<noteq> 0 \<and> pp_ref (pages s' r) = 0 \<longrightarrow> r \<in> set (free_pages s'))"

lemma freed_refl [simp]: "freed s s"
  by (simp add: freed_def)

lemma freed_trans:
  "\<lbrakk>freed s s1; freed s1 s2; set (free_pages s1) \<subseteq> set (free_pages s2)\<rbrakk> \<Longrightarrow> freed s s2"
  unfolding freed_def by blast

lemma decref_vm:
  assumes inv: "vm_inv S s" and p: "p < npages s" "1 \<le> slack S s p"
  shows "\<exists>s'. page_decref p s = Some s' \<and> vm_inv S s' \<and> slack S s' = (slack S s)(p := slack S s p - 1) \<and>
     phys s' = phys s \<and> env_part s' = env_part s \<and>
     free_pages s' = (if pp_ref (pages s p) = 1 then p # free_pages s else free_pages s) \<and>
     (\<forall>r. r \<noteq> p \<longrightarrow> pages s' r = pages s r) \<and> freed s s'"
proof -
  have nz: "pp_ref (pages s p) \<noteq> 0" using p by (auto simp: slack_def)
  then have "p \<notin> set (free_pages s)" using free_pages_ref [OF vm_inv_basic(1) [OF inv]] by auto
  from page_decref_ok [OF vm_inv_basic(1) [OF inv] p(1) this] obtain s' where s':
    "page_decref p s = Some s'" "pm_inv s'" "phys s' = phys s"
    "free_pages s' = (if pp_ref (pages s p) = 1 then p # free_pages s else free_pages s)"
    "\<forall>i. i \<noteq> p \<longrightarrow> pages s' i = pages s i" "pp_ref (pages s' p) = pp_ref (pages s p) - 1"
    by auto
  have e: "env_part s' = env_part s" using s'(1) by (rule page_decref_env_part)
  have "unat (pp_ref (pages s p) - 1) = unat (pp_ref (pages s p)) - 1" "0 < unat (pp_ref (pages s p))"
    using nz by (simp_all add: unat_minus_one unat_gt_0)
  then have sl: "slack S s' = (slack S s)(p := slack S s p - 1)"
    using s'(5,6) by (intro ext, subst slack_phys [OF s'(3)]) (auto simp: of_nat_diff simp del: of_nat_unat)
  have "vm_inv S s'"
    by (rule vm_inv_ref [OF inv s'(2)])
      (use env_partD [OF e] s' p inv in \<open>auto simp: sl vm_inv_slack\<close>)
  moreover have "freed s s'"
  proof -
    have "r \<in> set (free_pages s')" if "pp_ref (pages s r) \<noteq> 0" "pp_ref (pages s' r) = 0" for r
      using that s'(4-6) by (cases "r = p") auto
    then show ?thesis by (simp add: freed_def)
  qed
  ultimately show ?thesis using s' sl e by auto
qed

section \<open>The operations on address spaces\<close>

text \<open>The kernel virtual address of a page, as the code stores it in \<open>env_pgdir\<close>.\<close>

definition kva_of :: "nat \<Rightarrow> u32" where
  "kva_of p = page2pa p + KERNBASE"

lemma kva_of_nonzero:
  assumes "p < 65536"
  shows "kva_of p \<noteq> 0"
proof -
  have "unat (page2pa p) = p * 4096" using assms by (simp add: unat_page2pa)
  then have "unat (kva_of p) = p * 4096 + 4026531840"
    using assms by (simp add: kva_of_def unat_add_no_wrap KERNBASE_def)
  then show ?thesis by (metis add_is_0 unat_0 zero_neq_numeral)
qed

lemma kva_of_cell: "kva_of p + 4 * i = cell p (unat i) + KERNBASE"
  using kva_cell [of p i] by (simp add: kva_of_def algebra_simps)

lemma kva_of_cell_nat: "i < 1024 \<Longrightarrow> kva_of p + 4 * of_nat i = cell p i + KERNBASE"
  using kva_of_cell [of p "of_nat i"] by simp

abbreviation (input) va_key :: "nat \<Rightarrow> u32 \<Rightarrow> nat \<times> nat \<times> nat" where
  "va_key pd va \<equiv> (pd, unat (PDX va), unat (PTX va))"

lemma ptab_entry:
  assumes "ptab S s (pd, d) = Some q"
  shows "present (phys s (cell pd d))" "PTE_ADDR (phys s (cell pd d)) = page2pa q" "pd \<in> S" "d < UPDE"
  using assms by (auto simp: ptab_def page2pa_PGNUM split: if_splits)

lemma walk_present:
  assumes inv: "vm_inv S s" and k: "ptab S s (pd, unat (PDX va)) = Some q"
  shows "pgdir_walk (kva_of pd) va c s = Some (Some (cell q (unat (PTX va)) + KERNBASE), s)"
proof -
  have "pd < 65536" using vm_inv_root [OF inv] ptab_entry [OF k] vm_inv_basic(2) [OF inv] by fastforce
  moreover have q: "q < npages s" "q < 1048576"
    using vm_inv_ptab [OF inv k] vm_inv_basic(2) [OF inv] by auto
  ultimately show ?thesis
    using ptab_entry [OF k] kva_cell [of q "PTX va"]
    by (simp add: pgdir_walk_def kva_of_nonzero kva_of_cell kload_cell KADDR_def PGNUM_page2pa)
qed

lemma walk_absent:
  assumes inv: "vm_inv S s" and pd: "pd \<in> S" "unat (PDX va) < UPDE" and k: "ptab S s (pd, unat (PDX va)) = None"
  shows "pgdir_walk (kva_of pd) va False s = Some (None, s)"
proof -
  have "pd < 65536" using vm_inv_root [OF inv pd(1)] vm_inv_basic(2) [OF inv] by simp
  then show ?thesis
    using k pd by (simp add: pgdir_walk_def kva_of_nonzero kva_of_cell kload_cell ptab_def split: if_splits)
qed

definition table_entry :: "nat \<Rightarrow> u32" where
  "table_entry f = page2pa f OR PTE_P OR PTE_U OR PTE_W"

lemma table_entry:
  assumes "f < 1048576"
  shows "present (table_entry f)" "entry_page (table_entry f) = f"
proof -
  have e: "table_entry f = page2pa f OR 6 OR PTE_P"
    by (simp add: table_entry_def or.assoc or.left_commute or.commute)
  show "present (table_entry f)" unfolding e by (rule PGNUM_entry(2)) (use assms in simp_all)
  show "entry_page (table_entry f) = f" unfolding e by (rule PGNUM_entry(1)) (use assms in simp_all)
qed

definition new_table :: "nat \<Rightarrow> nat \<Rightarrow> nat \<Rightarrow> kstate \<Rightarrow> kstate" where
  "new_table pd d f s =
     set_cell pd d (table_entry f) (upd_page f (\<lambda>p. p\<lparr>pp_ref := pp_ref p + 1\<rparr>) (cleared f (unlinked f s)))"

lemma new_table_vm:
  assumes inv: "vm_inv S s" and pd: "pd \<in> S" "d < UPDE" and k: "ptab S s (pd, d) = None"
    and fp: "free_pages s = f # fs"
  defines "s1 \<equiv> new_table pd d f s"
  shows "vm_inv S s1" "ptab S s1 = (ptab S s)((pd, d) := Some f)" "vmap S s1 = vmap S s"
    "slack S s1 = slack S s" "free_pages s1 = fs" "pp_ref (pages s1 f) = 1"
    "\<And>p. p \<noteq> f \<Longrightarrow> pages s1 p = pages s p"
proof -
  note pm = vm_inv_basic(1) [OF inv]
  have ff: "f \<in> set (free_pages s)" by (simp add: fp)
  note fu = free_unused [OF inv ff]
  have f: "f < npages s" "pp_ref (pages s f) = 0" "f < 1048576"
    using pm ff vm_inv_basic(2) [OF inv] by (auto simp: pm_inv_def)
  have lt: "\<And>p. p < npages s \<Longrightarrow> p < 1048576" using vm_inv_basic(2) [OF inv] by simp
  have Slt: "\<And>p. p \<in> S \<Longrightarrow> p < 1048576" using vm_inv_root [OF inv] lt by blast
  have d: "d < 1024" using pd by simp
  have ph: "phys s1 (cell p i) = (if p = pd \<and> i = d then table_entry f else if p = f then 0 else phys s (cell p i))"
    if "p < 1048576" "i < 1024" for p i
    using that d Slt [OF pd(1)] by (simp add: s1_def new_table_def phys_set_cell) (simp add: cleared_def PGNUM_cell unlinked_def)
  show pt: "ptab S s1 = (ptab S s)((pd, d) := Some f)"
  proof (rule ext, clarify)
    fix pd' d' show "ptab S s1 (pd', d') = ((ptab S s)((pd, d) := Some f)) (pd', d')"
      using pd fu(2) Slt table_entry [OF f(3)] by (auto simp: ptab_def ph)
  qed
  show vm: "vmap S s1 = vmap S s"
  proof (rule ext, clarify)
    fix pd' d' t
    show "vmap S s1 (pd', d', t) = vmap S s (pd', d', t)"
    proof (cases "(pd', d') = (pd, d)")
      case True
      then show ?thesis using k pd fu(2) f(3) by (auto simp: vmap_def pt ph)
    next
      case False
      then have e: "ptab S s1 (pd', d') = ptab S s (pd', d')" by (auto simp: pt)
      show ?thesis
      proof (cases "ptab S s (pd', d')")
        case (Some q)
        then have "q \<notin> S" "q < 1048576" "q \<noteq> f"
          using vm_inv_ptab [OF inv Some] lt fu(3) by (auto intro: ranI)
        then show ?thesis using Some pd by (auto simp: vmap_def e ph)
      qed (simp add: vmap_def e)
    qed
  qed
  then have vp: "vpage S s1 = vpage S s" by (simp add: vpage_def fun_eq_iff)
  have pg: "pages s1 p = (if p = f then (pages s f)\<lparr>pp_link := None, pp_ref := 1\<rparr> else pages s p)" for p
    using f by (simp add: s1_def new_table_def cleared_def unlinked_def)
  show "pp_ref (pages s1 f) = 1" by (simp add: pg)
  show "\<And>p. p \<noteq> f \<Longrightarrow> pages s1 p = pages s p" by (simp add: pg)
  have nin: "f \<notin> set (free_pages (cleared f (unlinked f s)))"
    using unlinked_inv [OF pm fp] pm_inv_distinct [OF pm] by (simp add: fp)
  have rf: "pp_ref (pages (cleared f (unlinked f s)) f) = 0" using f by (simp add: cleared_def unlinked_def)
  have pm1: "pm_inv s1 \<and> free_pages s1 = fs"
    using upd_ref_inv [OF _ nin, of 1] unlinked_inv [OF pm fp] rf
    by (simp add: s1_def new_table_def upd_page_def)
  then show "free_pages s1 = fs" by simp
  have oc: "occ (ptab S s1) p = occ (ptab S s) p + (if p = f then 1 else 0)" for p
    using occ_upd [OF vm_inv_basic(4) [OF inv], of "(pd, d)" "Some f" p] k by (auto simp: pt)
  show sl: "slack S s1 = slack S s"
  proof
    fix p show "slack S s1 p = slack S s p"
      using oc [of p] f(2) by (simp add: slack_def uses_def vp pg)
  qed
  have np: "npages s1 = npages s" by (simp add: s1_def new_table_def cleared_def unlinked_def)
  have inj: "inj_on (ptab S s1) (dom (ptab S s1))"
    using inv fu(3) by (auto simp: vm_inv_def pt inj_on_def intro: ranI)
  have rp: "ran (ptab S s1) = insert f (ran (ptab S s))" using k by (simp add: pt ran_map_upd)
  show "vm_inv S s1"
    using inv pm1 inj f(1) fu(2,4) by (auto simp: vm_inv_def np sl vp rp)
qed

lemma vm_cong:
  assumes "phys s' = phys s" "pages s' = pages s" "page_free_list s' = page_free_list s" "npages s' = npages s"
  shows "vm_inv S s' = vm_inv S s" "vmap S s' = vmap S s" "ptab S s' = ptab S s" "slack S s' = slack S s"
    "free_pages s' = free_pages s"
proof -
  note c = phys_cong [OF assms(1), of S] pm_inv_cong [OF assms(4,2,3)]
  show "vmap S s' = vmap S s" "ptab S s' = ptab S s" "free_pages s' = free_pages s" using c by simp_all
  show sl: "slack S s' = slack S s" using c assms(2) by (intro ext) (simp add: slack_def uses_def)
  show "vm_inv S s' = vm_inv S s" using c assms(4) sl by (simp add: vm_inv_def)
qed

lemma walk_create_no_mem:
  assumes inv: "vm_inv S s" and pd: "pd \<in> S" "unat (PDX va) < UPDE"
    and k: "ptab S s (pd, unat (PDX va)) = None" and fp: "free_pages s = []"
  shows "pgdir_walk (kva_of pd) va True s = Some (None, s)"
proof -
  have "pd < 65536" using vm_inv_root [OF inv pd(1)] vm_inv_basic(2) [OF inv] by simp
  then show ?thesis
    using k pd page_alloc_empty [OF vm_inv_basic(1) [OF inv] fp]
    by (simp add: pgdir_walk_def kva_of_nonzero kva_of_cell kload_cell ptab_def split: if_splits)
qed

lemma walk_create_new:
  assumes inv: "vm_inv S s" and pd: "pd \<in> S" "unat (PDX va) < UPDE"
    and k: "ptab S s (pd, unat (PDX va)) = None" and fp: "free_pages s = f # fs"
  shows "pgdir_walk (kva_of pd) va True s =
     Some (Some (cell f (unat (PTX va)) + KERNBASE), new_table pd (unat (PDX va)) f s)"
proof -
  note pm = vm_inv_basic(1) [OF inv]
  let ?d = "unat (PDX va)"
  have f: "f < npages s" "pp_ref (pages s f) = 0" "f < 1048576"
    using pm fp vm_inv_basic(2) [OF inv] by (auto simp: pm_inv_def)
  have pd0: "kva_of pd \<noteq> 0"
    using vm_inv_root [OF inv pd(1)] vm_inv_basic(2) [OF inv] by (simp add: kva_of_nonzero)
  have al: "page_alloc ALLOC_ZERO s = Some (Some f, cleared f (unlinked f s))"
    using page_alloc_frame [OF pm fp, of 1] by simp
  have rf: "pp_ref (pages (cleared f (unlinked f s)) f) = 0" "pp_link (pages (cleared f (unlinked f s)) f) = None"
    using f by (simp_all add: cleared_def unlinked_def)
  have nt: "kstore (cell pd ?d + KERNBASE) (page2pa f OR 7)
      (upd_page f (\<lambda>p. p\<lparr>pp_ref := pp_ref p + 1\<rparr>) (cleared f (unlinked f s))) = new_table pd ?d f s"
    by (simp add: kstore_cell new_table_def table_entry_def)
  have ld: "kload (new_table pd ?d f s) (cell pd ?d + KERNBASE) = table_entry f"
    by (simp add: kload_cell new_table_def set_cell_def)
  have np: "npages (new_table pd ?d f s) = npages s"
    by (simp add: new_table_def cleared_def unlinked_def)
  have ka: "KADDR (new_table pd ?d f s) (PTE_ADDR (table_entry f)) = Some (kva_of f)"
    using f table_entry [OF f(3)] page2pa_PGNUM [of "table_entry f"]
    by (simp add: KADDR_def np kva_of_def PGNUM_PTE_ADDR)
  have ab: "kload s (cell pd ?d + KERNBASE) AND PTE_P = 0"
    using k pd by (simp add: kload_cell ptab_def split: if_splits)
  show ?thesis
    using pd0 al rf ab by (simp add: pgdir_walk_def kva_of_cell nt ld ka Let_def)
qed

text \<open>
  Walking with \<open>create\<close> set: either there is no page table and no memory for one, and nothing
  changes, or the table exists afterwards and every mapping is as before.
\<close>

lemma walk_create:
  assumes inv: "vm_inv S s" and pd: "pd \<in> S" "unat (PDX va) < UPDE"
  obtains
    (no_mem) "pgdir_walk (kva_of pd) va True s = Some (None, s)" "free_pages s = []"
      "ptab S s (pd, unat (PDX va)) = None"
  | (walked) q s1 where
      "pgdir_walk (kva_of pd) va True s = Some (Some (cell q (unat (PTX va)) + KERNBASE), s1)"
      "vm_inv S s1" "ptab S s1 (pd, unat (PDX va)) = Some q" "vmap S s1 = vmap S s" "slack S s1 = slack S s"
      "set (free_pages s1) \<subseteq> set (free_pages s)" "env_part s1 = env_part s"
      "\<And>p. p \<notin> set (free_pages s) \<Longrightarrow> pages s1 p = pages s p"
      "ran (ptab S s1) \<subseteq> ran (ptab S s) \<union> set (free_pages s)"
      "\<And>r i. \<lbrakk>r < 1048576; i < 1024; no_user_pde S r i; r \<notin> set (free_pages s)\<rbrakk> \<Longrightarrow> phys s1 (cell r i) = phys s (cell r i)"
proof (cases "ptab S s (pd, unat (PDX va))")
  case (Some q)
  with walk_present [OF inv Some] inv walked show ?thesis by blast
next
  case None
  show ?thesis
  proof (cases "free_pages s")
    case Nil
    with walk_create_no_mem [OF inv pd None] no_mem None show ?thesis by blast
  next
    case (Cons f fs)
    note nt = new_table_vm [OF inv pd None Cons]
    have "ran (ptab S (new_table pd (unat (PDX va)) f s)) \<subseteq> ran (ptab S s) \<union> set (free_pages s)"
      unfolding nt(2) using Cons by (auto simp: ran_def)
    moreover have "pages (new_table pd (unat (PDX va)) f s) p = pages s p" if "p \<notin> set (free_pages s)" for p
      using nt(7) [of p] that Cons by auto
    moreover have "env_part (new_table pd (unat (PDX va)) f s) = env_part s" by (simp add: new_table_def)
    moreover have "phys (new_table pd (unat (PDX va)) f s) (cell r i) = phys s (cell r i)"
      if "r < 1048576" "i < 1024" "no_user_pde S r i" "r \<notin> set (free_pages s)" for r i
    proof -
      have "\<not> (r = pd \<and> i = unat (PDX va))" "r \<noteq> f" using that pd Cons by auto
      moreover have "pd < 1048576" using vm_inv_root [OF inv pd(1)] vm_inv_basic(2) [OF inv] by simp
      ultimately show ?thesis using that(1,2)
        by (simp add: new_table_def phys_set_cell) (auto simp: cleared_def unlinked_def PGNUM_cell)
    qed
    ultimately show ?thesis
      using nt(1-5) walk_create_new [OF inv pd None Cons] Cons
      by (intro walked [of f "new_table pd (unat (PDX va)) f s"]) auto
  qed
qed

lemma tlb_vm [simp]:
  "vm_inv S (tlb_invalidate a va s) = vm_inv S s" "vmap S (tlb_invalidate a va s) = vmap S s"
  "slack S (tlb_invalidate a va s) = slack S s" "free_pages (tlb_invalidate a va s) = free_pages s"
  "ptab S (tlb_invalidate a va s) = ptab S s" "pages (tlb_invalidate a va s) = pages s"
  "phys (tlb_invalidate a va s) = phys s"
  by (rule vm_cong; simp add: tlb_invalidate_def)+ (simp_all add: tlb_invalidate_def)

lemma page_lookup_vm:
  assumes inv: "vm_inv S s" and pd: "pd \<in> S" "unat (PDX va) < UPDE"
  shows "page_lookup (kva_of pd) va s =
     Some (case vmap S s (va_key pd va) of
             None \<Rightarrow> None
           | Some e \<Rightarrow> Some (entry_page e, cell (the (ptab S s (pd, unat (PDX va)))) (unat (PTX va)) + KERNBASE))"
proof (cases "ptab S s (pd, unat (PDX va))")
  case None
  then show ?thesis using walk_absent [OF inv pd None] by (simp add: page_lookup_def vmap_def)
next
  case (Some q)
  let ?e = "phys s (cell q (unat (PTX va)))"
  show ?thesis
  proof (cases "present ?e")
    case True
    then have m: "vmap S s (va_key pd va) = Some ?e" by (simp add: vmap_def Some)
    then have "vpage S s (va_key pd va) = Some (entry_page ?e)" by (simp add: vpage_def)
    with vm_inv_vpage [OF inv] have "entry_page ?e < npages s" by blast
    then have "pa2page s (PTE_ADDR ?e) = Some (entry_page ?e)"
      using vm_inv_basic(2) [OF inv] page2pa_PGNUM [of ?e] by (simp add: pa2page_def PGNUM_PTE_ADDR)
    with True m Some show ?thesis
      by (simp add: page_lookup_def walk_present [OF inv Some] kload_cell)
  next
    case False
    then show ?thesis by (simp add: page_lookup_def walk_present [OF inv Some] kload_cell vmap_def Some)
  qed
qed

end
