(* ===== verification/Jos_UserMem.thy ===== *)
theory Jos_UserMem
  imports Jos_Vm
begin

text \<open>
  The check of user memory ranges (\<open>user_mem_check\<close> of \<open>kern/pmap.c\<close>): the loop is a search for the
  first page of the range that is not accessible, and for ranges below \<open>UTOP\<close> it decides exactly
  whether every byte of the range is mapped with the permissions asked for. A range that wraps
  around the top of the address space is not looked at.
\<close>

section \<open>Checking user memory\<close>

lemma walk_keeps_state: "pgdir_walk pgdir va False s = Some (r, s') \<Longrightarrow> s' = s"
  by (auto simp: pgdir_walk_def Let_def bind_eq_Some_conv split: if_splits)

definition page_access :: "u32 \<Rightarrow> u32 \<Rightarrow> kstate \<Rightarrow> u32 \<Rightarrow> bool" where
  "page_access pgdir perm s a \<longleftrightarrow> a < ULIM \<and>
     (case pgdir_walk pgdir a False s of
        Some (Some pte, _) \<Rightarrow> kload s pte AND PTE_P \<noteq> 0 \<and> kload s pte AND perm = perm
      | _ \<Rightarrow> False)"

abbreviation (input) page_va :: "nat \<Rightarrow> u32" where "page_va i \<equiv> of_nat (4096 * i)"

lemma unat_page_va: "i < 1048576 \<Longrightarrow> unat (page_va i) = 4096 * i"
  by (rule unat_of_nat_32) simp

lemma user_mem_check_loop_find:
  assumes "a \<le> b" "b < 1048576"
    and "\<And>i. a \<le> i \<Longrightarrow> i < b \<Longrightarrow> pgdir_walk pgdir (page_va i) False s \<noteq> None"
  shows "user_mem_check_loop pgdir va perm (page_va a) (page_va b) s =
     (case find (\<lambda>i. \<not> page_access pgdir perm s (page_va i)) [a..<b] of
        None \<Rightarrow> Some (Inr (), s)
      | Some i \<Rightarrow> Some (Inl E_FAULT, s\<lparr>user_mem_check_addr := (if page_va i < va then va else page_va i)\<rparr>))"
  using assms
proof (induction "b - a" arbitrary: a)
  case 0
  then show ?case by (simp add: user_mem_check_loop.simps)
next
  case (Suc n)
  then have ab: "a < b" by simp
  have lt: "page_va a < page_va b"
    using ab Suc.prems(2) by (simp add: word_less_nat_alt unat_page_va del: of_nat_mult)
  have up: "[a..<b] = a # [Suc a..<b]" using ab by (simp add: upt_rec)
  have nx: "page_va a + 4096 = page_va (Suc a)" by (simp add: algebra_simps)
  obtain r where w: "pgdir_walk pgdir (page_va a) False s = Some (r, s)"
    using Suc.prems(3) [of a] ab walk_keeps_state by fastforce
  show ?case
  proof (cases "page_access pgdir perm s (page_va a)")
    case True
    then have "user_mem_check_loop pgdir va perm (page_va a) (page_va b) s =
        user_mem_check_loop pgdir va perm (page_va (Suc a)) (page_va b) s"
      by (subst user_mem_check_loop.simps)
        (use w lt nx in \<open>auto simp: page_access_def add.commute not_less [symmetric] split: option.splits\<close>)
    also have "\<dots> = (case find (\<lambda>i. \<not> page_access pgdir perm s (page_va i)) [Suc a..<b] of
        None \<Rightarrow> Some (Inr (), s)
      | Some i \<Rightarrow> Some (Inl E_FAULT, s\<lparr>user_mem_check_addr := (if page_va i < va then va else page_va i)\<rparr>))"
      by (rule Suc.hyps(1)) (use Suc.hyps(2) Suc.prems ab in auto)
    finally show ?thesis using True by (simp add: up)
  next
    case False
    then have "user_mem_check_loop pgdir va perm (page_va a) (page_va b) s =
        Some (Inl E_FAULT, s\<lparr>user_mem_check_addr := (if page_va a < va then va else page_va a)\<rparr>)"
      by (subst user_mem_check_loop.simps)
        (use w lt in \<open>auto simp: page_access_def not_less [symmetric] split: option.splits\<close>)
    then show ?thesis using False by (simp add: up)
  qed
qed


text \<open>The pages \<open>user_mem_check\<close> looks at, when \<open>va + n\<close> does not wrap around.\<close>

lemma user_mem_check_range:
  assumes "unat va + unat n + 4095 < 4294967296"
  shows "user_mem_check pgdir va n perm s = user_mem_check_loop pgdir va perm
     (page_va (unat va div 4096)) (page_va ((unat va + unat n + 4095) div 4096)) s"
proof -
  have "unat (va + n) = unat va + unat n" using assms by (simp add: unat_add_no_wrap)
  then have "ROUNDUP (va + n) 4096 = page_va ((unat va + unat n + 4095) div 4096)"
    using assms by (subst word_eq_unat, subst unat_ROUNDUP, simp, subst unat_page_va) auto
  moreover have "ROUNDDOWN va 4096 = page_va (unat va div 4096)"
    using unat_less_32 [of va] by (subst word_eq_unat, subst unat_ROUNDDOWN, subst unat_page_va) auto
  ultimately show ?thesis by (simp add: user_mem_check_def)
qed

lemma page_va_key: "i < 1048576 \<Longrightarrow> unat (PDX (page_va i)) = i div 1024 \<and> unat (PTX (page_va i)) = i mod 1024"
  by (simp add: unat_PDX unat_PTX unat_page_va del: of_nat_mult)

lemma page_access_vm:
  assumes inv: "vm_inv S s" and pd: "pd \<in> S" and i: "i < UPDE * 1024"
  shows "pgdir_walk (kva_of pd) (page_va i) False s \<noteq> None"
    and "page_access (kva_of pd) perm s (page_va i) \<longleftrightarrow>
       (\<exists>e. vmap S s (pd, i div 1024, i mod 1024) = Some e \<and> e AND perm = perm)"
proof -
  have i': "i < 1048576" using i by simp
  note k = page_va_key [OF i']
  have d: "unat (PDX (page_va i)) < UPDE" using k i by simp
  have ul: "page_va i < ULIM"
    using i by (simp add: word_less_nat_alt unat_page_va layout_defs del: of_nat_mult)
  show "pgdir_walk (kva_of pd) (page_va i) False s \<noteq> None"
    using walk_present [OF inv, of pd "page_va i"] walk_absent [OF inv pd d]
    by (cases "ptab S s (pd, unat (PDX (page_va i)))") auto
  show "page_access (kva_of pd) perm s (page_va i) \<longleftrightarrow>
       (\<exists>e. vmap S s (pd, i div 1024, i mod 1024) = Some e \<and> e AND perm = perm)"
  proof (cases "ptab S s (pd, i div 1024)")
    case None
    then show ?thesis using walk_absent [OF inv pd d] k by (simp add: page_access_def vmap_def)
  next
    case (Some q)
    then have "ptab S s (pd, unat (PDX (page_va i))) = Some q" using k by simp
    then show ?thesis
      using walk_present [OF inv, of pd "page_va i" q False] k ul Some
      by (auto simp: page_access_def vmap_def kload_cell)
  qed
qed

lemma find_None_set: "find P xs = None \<longleftrightarrow> (\<forall>x\<in>set xs. \<not> P x)"
  by (auto simp: find_None_iff)

definition user_ok :: "nat set \<Rightarrow> kstate \<Rightarrow> nat \<Rightarrow> u32 \<Rightarrow> nat \<Rightarrow> bool" where
  "user_ok S s pd perm i \<longleftrightarrow> (\<exists>e. vmap S s (pd, i div 1024, i mod 1024) = Some e \<and> e AND perm = perm)"

lemma user_mem_check_vm:
  assumes inv: "vm_inv S s" and pd: "pd \<in> S" and r: "unat va + unat n \<le> unat UTOP"
  shows "user_mem_check (kva_of pd) va n perm s =
     (case find (\<lambda>i. \<not> user_ok S s pd perm i) [unat va div 4096 ..< (unat va + unat n + 4095) div 4096] of
        None \<Rightarrow> Some (Inr (), s)
      | Some i \<Rightarrow> Some (Inl E_FAULT, s\<lparr>user_mem_check_addr := (if page_va i < va then va else page_va i)\<rparr>))"
proof -
  let ?a = "unat va div 4096" and ?b = "(unat va + unat n + 4095) div 4096"
  have ut: "unat UTOP = UPDE * 1024 * 4096" by (simp add: layout_defs)
  with r have b: "?b \<le> UPDE * 1024" by simp
  have i: "i < UPDE * 1024" if "i < ?b" for i using that b by simp
  have "find (\<lambda>i. \<not> page_access (kva_of pd) perm s (page_va i)) [?a..<?b] = find (\<lambda>i. \<not> user_ok S s pd perm i) [?a..<?b]"
    using i by (intro find_cong) (auto simp: user_ok_def page_access_vm(2) [OF inv pd] simp del: of_nat_mult)
  moreover have "unat va + unat n + 4095 < 4294967296" using r ut by simp
  ultimately show ?thesis
    using user_mem_check_loop_find [of ?a ?b "kva_of pd" s va perm] b i page_access_vm(1) [OF inv pd]
    by (auto simp: user_mem_check_range div_le_mono simp del: of_nat_mult)
qed


text \<open>An address and the page it lies in are accessible together.\<close>

definition addr_ok :: "nat set \<Rightarrow> kstate \<Rightarrow> nat \<Rightarrow> u32 \<Rightarrow> u32 \<Rightarrow> bool" where
  "addr_ok S s pd perm a \<longleftrightarrow>
     (case vmap S s (va_key pd a) of None \<Rightarrow> False | Some e \<Rightarrow> e AND perm = perm)"

lemma addr_ok_page: "addr_ok S s pd perm a \<longleftrightarrow> user_ok S s pd perm (unat a div 4096)"
  by (simp add: addr_ok_def user_ok_def unat_PDX unat_PTX div_mult2_eq [of _ 4096 1024, simplified] split: option.split)

lemma in_range_page:
  fixes va a n :: u32
  assumes "unat va \<le> unat a" "unat a < unat va + unat n"
  shows "unat va div 4096 \<le> unat a div 4096" "unat a div 4096 < (unat va + unat n + 4095) div 4096"
proof -
  show "unat va div 4096 \<le> unat a div 4096" using assms(1) by (rule div_le_mono)
  have "(unat a + 4096) div 4096 \<le> (unat va + unat n + 4095) div 4096"
    using assms(2) by (intro div_le_mono) simp
  then show "unat a div 4096 < (unat va + unat n + 4095) div 4096" by simp
qed

text \<open>The first address of the range that lies in page \<open>i\<close>.\<close>

lemma first_in_page:
  assumes i: "unat va div 4096 \<le> i" "i < (unat va + unat n + 4095) div 4096"
    and r: "unat va + unat n \<le> unat UTOP" and n: "n \<noteq> 0"
  defines "a \<equiv> (if page_va i < va then va else page_va i)"
  shows "unat va \<le> unat a" "unat a < unat va + unat n" "unat a div 4096 = i"
    "\<And>b :: u32. unat va \<le> unat b \<Longrightarrow> unat b < unat a \<Longrightarrow> unat b div 4096 < i"
proof -
  have "unat va + unat n + 4095 \<le> 4005560320 + 4095" using r by (simp add: layout_defs)
  then have "(unat va + unat n + 4095) div 4096 \<le> 977920"
    using div_le_mono [of "unat va + unat n + 4095" "4005560320 + 4095" 4096] by simp
  then have i': "i < 1048576" using i by simp
  have n0: "0 < unat n" using n by (simp add: unat_gt_0)
  have ni: "4096 * i < unat va + unat n" using i(2) by linarith
  have vi: "unat va < 4096 * i + 4096" using i(1) by linarith
  have pv: "unat (page_va i) = 4096 * i" by (rule unat_page_va [OF i'])
  have ua: "unat a = max (unat va) (4096 * i)"
    unfolding a_def word_less_nat_alt pv by (auto simp: pv simp del: of_nat_mult)
  show "unat va \<le> unat a" "unat a < unat va + unat n" using ua ni n0 by auto
  show ai: "unat a div 4096 = i"
    using ua vi by (intro div_nat_eqI) auto
  show "unat b div 4096 < i" if "unat va \<le> unat b" "unat b < unat a" for b :: u32
    using that ua by (simp add: div_less_iff_less_mult max_def split: if_splits)
qed

lemma user_mem_check_ok:
  assumes inv: "vm_inv S s" and pd: "pd \<in> S" and r: "unat va + unat n \<le> unat UTOP" and n: "n \<noteq> 0"
  shows "\<exists>res s'. user_mem_check (kva_of pd) va n perm s = Some (res, s') \<and>
     (res = Inr () \<and> s' = s \<and> (\<forall>a. unat va \<le> unat a \<and> unat a < unat va + unat n \<longrightarrow> addr_ok S s pd perm a)
      \<or> res = Inl E_FAULT \<and> (\<exists>a. s' = s\<lparr>user_mem_check_addr := a\<rparr> \<and> unat va \<le> unat a \<and>
          unat a < unat va + unat n \<and> \<not> addr_ok S s pd perm a \<and>
          (\<forall>b. unat va \<le> unat b \<and> unat b < unat a \<longrightarrow> addr_ok S s pd perm b)))"
proof (cases "find (\<lambda>i. \<not> user_ok S s pd perm i) [unat va div 4096 ..< (unat va + unat n + 4095) div 4096]")
  case None
  then have "\<forall>i\<in>set [unat va div 4096 ..< (unat va + unat n + 4095) div 4096]. user_ok S s pd perm i"
    by (simp add: find_None_set)
  then have "\<forall>a. unat va \<le> unat a \<and> unat a < unat va + unat n \<longrightarrow> addr_ok S s pd perm a"
    using in_range_page [of va _ n] by (auto simp: addr_ok_page)
  with None user_mem_check_vm [OF inv pd r, of perm] show ?thesis by simp
next
  case (Some i)
  define xs where "xs = [unat va div 4096 ..< (unat va + unat n + 4095) div 4096]"
  obtain j where j: "j < length xs" "i = xs ! j" "\<not> user_ok S s pd perm i" "\<forall>k<j. user_ok S s pd perm (xs ! k)"
    using Some by (auto simp: find_Some_iff xs_def)
  then have i: "unat va div 4096 \<le> i" "i < (unat va + unat n + 4095) div 4096" by (auto simp: xs_def)
  have before: "user_ok S s pd perm m" if "unat va div 4096 \<le> m" "m < i" for m
  proof -
    have ij: "i = unat va div 4096 + j" using j(1,2) by (simp add: xs_def)
    then have "m - unat va div 4096 < j" using that by linarith
    moreover have "xs ! (m - unat va div 4096) = m" using that i by (simp add: xs_def)
    ultimately show ?thesis using j(4) by fastforce
  qed
  define a where "a = (if page_va i < va then va else page_va i)"
  note f = first_in_page [OF i r n, folded a_def]
  have "\<forall>b. unat va \<le> unat b \<and> unat b < unat a \<longrightarrow> addr_ok S s pd perm b"
    using f(4) before by (auto simp: addr_ok_page div_le_mono)
  moreover have "\<not> addr_ok S s pd perm a" using j(3) f(3) by (simp add: addr_ok_page)
  moreover have "user_mem_check (kva_of pd) va n perm s = Some (Inl E_FAULT, s\<lparr>user_mem_check_addr := a\<rparr>)"
    using Some user_mem_check_vm [OF inv pd r, of perm] by (simp add: a_def)
  ultimately show ?thesis using f(1,2) by blast
qed

lemma user_mem_check_wrapped:
  assumes "4294967296 \<le> unat va + unat n" and "unat va + unat n - 4294967296 \<le> unat va div 4096 * 4096"
  shows "user_mem_check pgdir va n perm s = Some (Inr (), s)"
proof -
  have w: "unat (va + n) = unat va + unat n - 4294967296"
    using assms(1) unat_less_32 [of va] unat_less_32 [of n] by (simp add: unat_add_32 mod_if)
  have "unat (ROUNDUP (va + n) PGSIZE) \<le> unat (ROUNDDOWN va PGSIZE)"
  proof (cases "unat (va + n) + 4095 < 4294967296")
    case True
    have "(unat (va + n) + 4095) div 4096 * 4096 \<le> unat va div 4096 * 4096"
    proof -
      have "unat (va + n) + 4095 < (unat va div 4096 + 1) * 4096" using assms(2) w by simp
      then have "(unat (va + n) + 4095) div 4096 < unat va div 4096 + 1" by (simp add: div_less_iff_less_mult)
      then show ?thesis by simp
    qed
    with True show ?thesis by (simp add: unat_ROUNDUP unat_ROUNDDOWN)
  next
    case False
    then show ?thesis by (simp add: ROUNDUP_wraps)
  qed
  then have "\<not> ROUNDDOWN va PGSIZE < ROUNDUP (va + n) PGSIZE" by (simp add: word_less_nat_alt)
  then show ?thesis by (simp add: user_mem_check_def user_mem_check_loop.simps)
qed

end
