(* ===== verification/Jos_Vm_Ops.thy ===== *)
theory Jos_Vm_Ops
  imports Jos_Vm
begin

text \<open>
  \<open>page_insert\<close> and \<open>page_remove\<close> as updates of one key of \<open>vmap\<close>: both keep \<open>vm_inv\<close>, leave the
  slack of every page as it was and touch no memory but page tables.
\<close>

text \<open>
  The effect of unmapping one virtual page: the key is gone, the page it mapped loses a use and is
  freed when that was its last reference, and nothing else changes.
\<close>

definition unmapped :: "nat set \<Rightarrow> nat \<Rightarrow> u32 \<Rightarrow> kstate \<Rightarrow> kstate \<Rightarrow> bool" where
  "unmapped S pd va s s' \<longleftrightarrow> vm_inv S s' \<and>
     vmap S s' = (vmap S s)(va_key pd va := None) \<and> ptab S s' = ptab S s \<and>
     slack S s' = slack S s \<and> env_part s' = env_part s \<and>
     free_pages s' = (case vpage S s (va_key pd va) of
        Some p \<Rightarrow> if pp_ref (pages s p) = 1 then p # free_pages s else free_pages s
      | None \<Rightarrow> free_pages s) \<and>
     phys s' = (case vmap S s (va_key pd va) of
        None \<Rightarrow> phys s
      | Some e \<Rightarrow> phys (set_cell (the (ptab S s (pd, unat (PDX va)))) (unat (PTX va)) 0 s)) \<and>
     (\<forall>r. vpage S s (va_key pd va) \<noteq> Some r \<longrightarrow> pages s' r = pages s r) \<and> freed s s'"

lemma unmapped_refl:
  assumes "vm_inv S s" "vmap S s (va_key pd va) = None"
  shows "unmapped S pd va s s"
proof -
  have "vmap S s = (vmap S s)(va_key pd va := None)" using assms(2) by (simp add: fun_upd_idem)
  then show ?thesis using assms by (simp add: unmapped_def vpage_def)
qed

lemma page_remove_vm:
  assumes inv: "vm_inv S s" and pd: "pd \<in> S" "unat (PDX va) < UPDE"
  shows "\<exists>s'. page_remove (kva_of pd) va s = Some s' \<and> unmapped S pd va s s'"
proof (cases "vmap S s (va_key pd va)")
  case None
  then show ?thesis
    using unmapped_refl [OF inv None] by (simp add: page_remove_def page_lookup_vm [OF inv pd])
next
  case (Some e)
  then obtain q where q: "ptab S s (pd, unat (PDX va)) = Some q"
    by (auto simp: vmap_def split: option.splits)
  define p where "p = entry_page e"
  have vp: "vpage S s (va_key pd va) = Some p" by (simp add: vpage_def Some p_def)
  note cl = clear_slot [OF inv q PTX_lt vp]
  define s1 where "s1 = set_cell q (unat (PTX va)) 0 s"
  have p: "p < npages s1" "1 \<le> slack S s1 p"
    using vm_inv_vpage [OF inv vp] vm_inv_slack [OF inv, of p] by (auto simp: s1_def cl(2))
  obtain s2 where s2: "page_decref p s1 = Some s2" "vm_inv S s2"
      "slack S s2 = (slack S s1)(p := slack S s1 p - 1)" "phys s2 = phys s1" "env_part s2 = env_part s1"
      "free_pages s2 = (if pp_ref (pages s1 p) = 1 then p # free_pages s1 else free_pages s1)"
      "\<forall>r. r \<noteq> p \<longrightarrow> pages s2 r = pages s1 r" "freed s1 s2"
    using decref_vm [OF cl(1) [folded s1_def] p] by auto
  have "freed s (tlb_invalidate (kva_of pd) va s2)" using s2(8) by (simp add: freed_def s1_def)
  moreover have r: "page_remove (kva_of pd) va s = Some (tlb_invalidate (kva_of pd) va s2)"
    using Some s2(1) by (simp add: page_remove_def page_lookup_vm [OF inv pd] kstore_cell q s1_def p_def)
  moreover have "slack S s2 = slack S s" by (simp add: s2(3) s1_def cl(2))
  moreover have "vmap S s2 = (vmap S s)(va_key pd va := None)" "ptab S s2 = ptab S s"
    using phys_cong [OF s2(4), of S] by (simp_all add: s1_def cl(3,4))
  ultimately show ?thesis using r s2 vp Some by (auto simp: unmapped_def s1_def q)
qed

text \<open>The conditional removal inside \<open>page_insert\<close>.\<close>

lemma evict_vm:
  assumes inv: "vm_inv S s" and pd: "pd \<in> S" "unat (PDX va) < UPDE"
    and q: "ptab S s (pd, unat (PDX va)) = Some q"
  shows "\<exists>s'. (if kload s (cell q (unat (PTX va)) + KERNBASE) AND PTE_P \<noteq> 0
      then page_remove (kva_of pd) va s else Some s) = Some s' \<and> unmapped S pd va s s'"
proof (cases "present (kload s (cell q (unat (PTX va)) + KERNBASE))")
  case True
  then show ?thesis using page_remove_vm [OF inv pd] by simp
next
  case False
  then have "vmap S s (va_key pd va) = None" using q by (simp add: vmap_def kload_cell)
  with False show ?thesis using unmapped_refl [OF inv] by simp
qed

text \<open>What a page must satisfy to be mapped: in range, neither a page directory nor a page table,
  not free, and its 16-bit reference count not at its maximum.\<close>

definition mappable :: "nat set \<Rightarrow> kstate \<Rightarrow> nat \<Rightarrow> bool" where
  "mappable S s p \<longleftrightarrow> p < npages s \<and> p \<notin> S \<and> p \<notin> ran (ptab S s) \<and> p \<notin> set (free_pages s) \<and>
     pp_ref (pages s p) \<noteq> 65535"

text \<open>The effect of a successful \<open>page_insert\<close>.\<close>

definition mapped_at :: "nat set \<Rightarrow> nat \<Rightarrow> u32 \<Rightarrow> nat \<Rightarrow> u32 \<Rightarrow> kstate \<Rightarrow> kstate \<Rightarrow> bool" where
  "mapped_at S pd va pp perm s s' \<longleftrightarrow> vm_inv S s' \<and>
     vmap S s' = (vmap S s)(va_key pd va := Some (page2pa pp OR perm OR PTE_P)) \<and>
     slack S s' = slack S s \<and> env_part s' = env_part s \<and> pp \<notin> set (free_pages s') \<and>
     set (free_pages s') \<subseteq> set (free_pages s) \<union>
       (case vpage S s (va_key pd va) of Some p \<Rightarrow> {p} | None \<Rightarrow> {}) \<and>
     ran (ptab S s') \<subseteq> ran (ptab S s) \<union> set (free_pages s) \<and>
     (\<forall>r i. r < 1048576 \<and> i < 1024 \<and> no_user_pde S r i \<and> r \<notin> ran (ptab S s) \<and> r \<notin> set (free_pages s) \<longrightarrow>
        phys s' (cell r i) = phys s (cell r i)) \<and>
     (\<forall>r. r \<noteq> pp \<and> r \<notin> set (free_pages s) \<and> vpage S s (va_key pd va) \<noteq> Some r \<longrightarrow>
        pages s' r = pages s r) \<and> freed s s'"

text \<open>The part of \<open>page_insert\<close> after the walk.\<close>

lemma max_word_not_wrap: "(x :: u16) \<noteq> 65535 \<Longrightarrow> x + 1 \<noteq> 0"
proof
  assume "x \<noteq> 65535" "x + 1 = 0"
  then have "x = - 1" by (simp add: eq_neg_iff_add_eq_0)
  with \<open>x \<noteq> 65535\<close> show False by simp
qed

lemma insert_walked:
  assumes inv: "vm_inv S s" and pd: "pd \<in> S" "unat (PDX va) < UPDE"
    and q: "ptab S s (pd, unat (PDX va)) = Some q" and pp: "mappable S s pp" and perm: "unat perm < 4096"
  shows "\<exists>s1 s2. (if kload (upd_page pp (\<lambda>q. q\<lparr>pp_ref := pp_ref q + 1\<rparr>) s) (cell q (unat (PTX va)) + KERNBASE)
         AND PTE_P \<noteq> 0 then page_remove (kva_of pd) va (upd_page pp (\<lambda>q. q\<lparr>pp_ref := pp_ref q + 1\<rparr>) s)
         else Some (upd_page pp (\<lambda>q. q\<lparr>pp_ref := pp_ref q + 1\<rparr>) s)) = Some s1 \<and>
     s2 = set_cell q (unat (PTX va)) (page2pa pp OR perm OR PTE_P) s1 \<and> mapped_at S pd va pp perm s s2"
proof -
  have pp': "pp < npages s" "pp \<notin> S" "pp \<notin> ran (ptab S s)" "pp \<notin> set (free_pages s)"
      "pp_ref (pages s pp) \<noteq> 65535" "pp < 1048576" "q < 1048576"
    using pp vm_inv_basic(2) [OF inv] vm_inv_ptab [OF inv q] by (auto simp: mappable_def)
  define s0 where "s0 = upd_page pp (\<lambda>q. q\<lparr>pp_ref := pp_ref q + 1\<rparr>) s"
  note inc = incref_vm [OF inv pp'(4,5), folded s0_def]
  have s0: "vmap S s0 = vmap S s" "ptab S s0 = ptab S s" "vpage S s0 = vpage S s" "env_part s0 = env_part s"
      "npages s0 = npages s" "phys s0 = phys s"
    using phys_cong [of s0 s S] by (auto simp: s0_def)
  obtain s1 where s1: "(if kload s0 (cell q (unat (PTX va)) + KERNBASE) AND PTE_P \<noteq> 0
      then page_remove (kva_of pd) va s0 else Some s0) = Some s1" and un: "unmapped S pd va s0 s1"
    using evict_vm [OF inc(1) pd, of q] q s0(2) by auto
  have s1': "vm_inv S s1" "vmap S s1 = (vmap S s)(va_key pd va := None)" "ptab S s1 = ptab S s"
      "slack S s1 = (slack S s)(pp := slack S s pp + 1)" "env_part s1 = env_part s"
    using un inc(2) by (simp_all add: unmapped_def s0)
  have sl: "1 \<le> slack S s1 pp" using vm_inv_slack [OF inv pp'(1)] by (simp add: s1'(4))
  note v = PGNUM_entry [OF pp'(6) perm]
  note fs = fill_slot [OF s1'(1) _ PTX_lt _ v(2,1) _ pp'(2) _ sl, of pd "unat (PDX va)" q va]
  define s2 where "s2 = set_cell q (unat (PTX va)) (page2pa pp OR perm OR PTE_P) s1"
  have nf: "pp \<notin> set (free_pages s1)" using sl free_unused(5) [OF s1'(1)] by fastforce
  have fp: "set (free_pages s1) \<subseteq> set (free_pages s) \<union> (case vpage S s (va_key pd va) of Some p \<Rightarrow> {p} | None \<Rightarrow> {})"
    using un by (auto simp: unmapped_def s0 inc(3) split: option.splits if_splits)
  have ph: "phys s2 (cell r i) = phys s (cell r i)" if "r < 1048576" "i < 1024" "r \<notin> ran (ptab S s)" for r i
  proof -
    have "r \<noteq> q" using that(3) q by (auto intro: ranI)
    with that un q pp'(7) show ?thesis
      by (auto simp: s2_def phys_set_cell unmapped_def s0 split: option.splits)
  qed
  have pg: "pages s2 r = pages s r" if "r \<noteq> pp" "vpage S s (va_key pd va) \<noteq> Some r" for r
    using un that by (simp add: s2_def unmapped_def s0) (simp add: s0_def)
  have "pp_ref (pages s0 r) \<noteq> 0" if "pp_ref (pages s r) \<noteq> 0" for r
    using that max_word_not_wrap pp'(5) by (auto simp: s0_def)
  moreover have "freed s0 s1" using un by (simp add: unmapped_def)
  ultimately have fd: "freed s s2" by (simp add: freed_def s2_def)
  have "1 \<le> slack S s1 pp \<and> ptab S s1 (pd, unat (PDX va)) = Some q \<and> vmap S s1 (va_key pd va) = None \<and>
      pp < npages s1 \<and> pp \<notin> ran (ptab S s1)"
    using sl q pp' env_partD [OF s1'(5)] by (simp add: s1'(2,3))
  then have "vm_inv S s2" "slack S s2 = slack S s" "ptab S s2 = ptab S s"
      "vmap S s2 = (vmap S s)(va_key pd va := Some (page2pa pp OR perm OR PTE_P))"
    using fs unfolding s2_def [symmetric] by (simp_all add: s1'(2-4))
  moreover have "env_part s2 = env_part s" "free_pages s2 = free_pages s1" by (simp_all add: s2_def s1'(5))
  ultimately have "mapped_at S pd va pp perm s s2"
    unfolding mapped_at_def using nf fp ph pg fd by simp
  with s1 show ?thesis by (auto simp: s0_def s2_def)
qed

lemma page_insert_vm:
  assumes inv: "vm_inv S s" and pd: "pd \<in> S" "unat (PDX va) < UPDE"
    and pp: "mappable S s pp" and perm: "unat perm < 4096"
  obtains (no_mem) "page_insert (kva_of pd) pp va perm s = Some (Inl E_NO_MEM, s)"
      "free_pages s = []" "ptab S s (pd, unat (PDX va)) = None"
  | (inserted) s' where "page_insert (kva_of pd) pp va perm s = Some (Inr (), s')"
      "mapped_at S pd va pp perm s s'"
  using inv pd
proof (cases rule: walk_create)
  case no_mem
  then show ?thesis using that(1) by (simp add: page_insert_def)
next
  case (walked q s1)
  have pp1: "mappable S s1 pp"
    using pp walked(6-9) env_partD [OF walked(7)] by (auto simp: mappable_def)
  obtain s2 where s2: "(if kload (upd_page pp (\<lambda>q. q\<lparr>pp_ref := pp_ref q + 1\<rparr>) s1) (cell q (unat (PTX va)) + KERNBASE)
         AND PTE_P \<noteq> 0 then page_remove (kva_of pd) va (upd_page pp (\<lambda>q. q\<lparr>pp_ref := pp_ref q + 1\<rparr>) s1)
         else Some (upd_page pp (\<lambda>q. q\<lparr>pp_ref := pp_ref q + 1\<rparr>) s1)) = Some s2"
    and m: "mapped_at S pd va pp perm s1 (set_cell q (unat (PTX va)) (page2pa pp OR perm OR PTE_P) s2)"
    using insert_walked [OF walked(2) pd walked(3) pp1 perm] by blast
  let ?s3 = "set_cell q (unat (PTX va)) (page2pa pp OR perm OR PTE_P) s2"
  have r: "page_insert (kva_of pd) pp va perm s = Some (Inr (), tlb_invalidate (kva_of pd) va ?s3)"
    using walked(1) s2 by (simp add: page_insert_def kstore_cell)
  have vp: "vpage S s1 = vpage S s" using walked(4) by (simp add: vpage_def fun_eq_iff)
  have fr: "set (free_pages s1) \<subseteq> set (free_pages s)" by (rule walked(6))
  have ph: "phys ?s3 (cell r i) = phys s (cell r i)"
    if "r < 1048576" "i < 1024" "no_user_pde S r i" "r \<notin> ran (ptab S s)" "r \<notin> set (free_pages s)" for r i
  proof -
    have "r \<notin> ran (ptab S s1)" "r \<notin> set (free_pages s1)" using walked(9) fr that(4,5) by blast+
    then show ?thesis using m that(1-3) walked(10) [OF that(1-3,5)] unfolding mapped_at_def by simp
  qed
  have "pp_ref (pages s1 r) \<noteq> 0" if "pp_ref (pages s r) \<noteq> 0" for r
    using that walked(8) [of r] free_pages_ref [OF vm_inv_basic(1) [OF inv], of r]
    by (cases "r \<in> set (free_pages s)") auto
  then have fd: "freed s (tlb_invalidate (kva_of pd) va ?s3)" using m unfolding mapped_at_def freed_def by simp
  have "mapped_at S pd va pp perm s (tlb_invalidate (kva_of pd) va ?s3)"
    using m walked(5,7) fr walked(9) ph walked(8) fd unfolding mapped_at_def vp walked(4)
    by (auto simp del: not_None_eq split: option.splits)
  with r that(2) show ?thesis by blast
qed

section \<open>Shrinking address spaces\<close>

text \<open>
  What holds across any sequence of unmappings: mappings and page tables only disappear, slack is
  kept, pages outside the address spaces are untouched, and released pages are on the free list.
\<close>

definition used :: "nat set \<Rightarrow> kstate \<Rightarrow> nat set" where
  "used S s = ran (vpage S s) \<union> ran (ptab S s) \<union> S"

definition vm_shrink :: "nat set \<Rightarrow> kstate \<Rightarrow> kstate \<Rightarrow> bool" where
  "vm_shrink S s s' \<longleftrightarrow> vm_inv S s' \<and> slack S s' = slack S s \<and> env_part s' = env_part s \<and>
     ptab S s' \<subseteq>\<^sub>m ptab S s \<and> vmap S s' \<subseteq>\<^sub>m vmap S s \<and>
     set (free_pages s) \<subseteq> set (free_pages s') \<and> set (free_pages s') \<subseteq> set (free_pages s) \<union> used S s \<and>
     (\<forall>r i. r < 1048576 \<and> i < 1024 \<and> no_user_pde S r i \<and> r \<notin> ran (ptab S s) \<longrightarrow> phys s' (cell r i) = phys s (cell r i)) \<and>
     (\<forall>r. r \<notin> used S s \<longrightarrow> pages s' r = pages s r) \<and> freed s s'"

lemma vm_shrink_refl: "vm_inv S s \<Longrightarrow> vm_shrink S s s"
  by (simp add: vm_shrink_def)

lemma used_mono: "ptab S s' \<subseteq>\<^sub>m ptab S s \<Longrightarrow> vmap S s' \<subseteq>\<^sub>m vmap S s \<Longrightarrow> used S s' \<subseteq> used S s"
proof -
  assume a: "ptab S s' \<subseteq>\<^sub>m ptab S s" "vmap S s' \<subseteq>\<^sub>m vmap S s"
  have "vpage S s' \<subseteq>\<^sub>m vpage S s"
    using a(2) by (force simp: map_le_def vpage_def dom_def)
  with a(1) show ?thesis by (auto simp: used_def dest!: ran_mono)
qed

lemma vm_shrink_trans:
  assumes "vm_shrink S s s1" "vm_shrink S s1 s2"
  shows "vm_shrink S s s2"
proof -
  have u: "used S s1 \<subseteq> used S s" "ran (ptab S s1) \<subseteq> ran (ptab S s)"
    using assms(1) by (auto simp: vm_shrink_def dest: used_mono ran_mono)
  have "phys s2 (cell r i) = phys s (cell r i)"
    if "r < 1048576" "i < 1024" "no_user_pde S r i" "r \<notin> ran (ptab S s)" for r i
  proof -
    have "r \<notin> ran (ptab S s1)" using u(2) that(4) by blast
    with that assms show ?thesis by (simp add: vm_shrink_def)
  qed
  moreover have "pages s2 r = pages s r" if "r \<notin> used S s" for r
  proof -
    have "r \<notin> used S s1" using u(1) that by blast
    with that assms show ?thesis by (simp add: vm_shrink_def)
  qed
  moreover have "set (free_pages s2) \<subseteq> set (free_pages s) \<union> used S s"
    using assms u(1) unfolding vm_shrink_def by blast
  moreover have "set (free_pages s) \<subseteq> set (free_pages s2)" using assms unfolding vm_shrink_def by blast
  moreover have "freed s s2" using assms freed_trans unfolding vm_shrink_def by blast
  ultimately show ?thesis
    using assms map_le_trans unfolding vm_shrink_def by metis
qed

lemma unmapped_shrink:
  assumes inv: "vm_inv S s" and un: "unmapped S pd va s s'"
  shows "vm_shrink S s s'"
proof -
  have "phys s' (cell r i) = phys s (cell r i)"
    if "r < 1048576" "i < 1024" "r \<notin> ran (ptab S s)" for r i
  proof (cases "vmap S s (va_key pd va)")
    case None
    then show ?thesis using un by (simp add: unmapped_def)
  next
    case (Some e)
    then obtain q where q: "ptab S s (pd, unat (PDX va)) = Some q"
      by (auto simp: vmap_def split: option.splits)
    then have "r \<noteq> q" "q < 1048576"
      using that(3) vm_inv_ptab [OF inv q] vm_inv_basic(2) [OF inv] by (auto intro: ranI)
    then show ?thesis using un that(1,2) by (simp add: unmapped_def Some q phys_set_cell)
  qed
  moreover have "set (free_pages s') \<subseteq> set (free_pages s) \<union> used S s"
    using un by (auto simp: unmapped_def used_def intro: ranI split: option.splits if_splits)
  moreover have "set (free_pages s) \<subseteq> set (free_pages s')"
    using un by (auto simp: unmapped_def split: option.splits if_splits)
  moreover have "pages s' r = pages s r" if "r \<notin> used S s" for r
  proof -
    have "vpage S s (va_key pd va) \<noteq> Some r" using that by (auto simp: used_def intro: ranI)
    then show ?thesis using un by (simp add: unmapped_def)
  qed
  moreover have "(vmap S s)(va_key pd va := None) \<subseteq>\<^sub>m vmap S s" by (auto simp: map_le_def)
  ultimately show ?thesis using un by (simp add: unmapped_def vm_shrink_def)
qed

lemma vm_shrink_data:
  "\<lbrakk>vm_shrink S s s'; r < 1048576; i < 1024; no_user_pde S r i; r \<notin> ran (ptab S s)\<rbrakk> \<Longrightarrow>
     phys s' (cell r i) = phys s (cell r i)"
  unfolding vm_shrink_def by blast

lemma mapped_at_data:
  "\<lbrakk>mapped_at S pd va pp perm s s'; r < 1048576; i < 1024; no_user_pde S r i; r \<notin> ran (ptab S s);
     r \<notin> set (free_pages s)\<rbrakk> \<Longrightarrow> phys s' (cell r i) = phys s (cell r i)"
  unfolding mapped_at_def by blast

end
