(* ===== verification/Jos_Env.thy ===== *)
theory Jos_Env
  imports Jos_UserMem Jos_Vm_Ops
begin

text \<open>
  Environments, the processes of JOS (\<open>kern/env.c\<close>): identifiers, the free list of \<open>struct Env\<close>,
  address space setup and teardown, and the switch to user mode.
\<close>

section \<open>Operations\<close>

abbreviation (input) NENV :: nat where "NENV \<equiv> 1024"
abbreviation (input) GD_UT :: u16 where "GD_UT \<equiv> 0x18"
abbreviation (input) GD_UD :: u16 where "GD_UD \<equiv> 0x20"
abbreviation (input) FL_IF :: u32 where "FL_IF \<equiv> 0x200"
abbreviation (input) FL_IOPL_MASK :: u32 where "FL_IOPL_MASK \<equiv> 0x3000"

definition ENVX :: "u32 \<Rightarrow> nat" where
  "ENVX envid = unat (envid AND 0x3FF)"

text \<open>
  \<open>envid2env\<close> returns the pointer it stores through \<open>env_store\<close>; the pointer is NULL when \<open>envid\<close> is
  0 and no environment is running. Reading \<open>curenv->env_id\<close> then would be a fault.
\<close>

definition envid2env :: "u32 \<Rightarrow> bool \<Rightarrow> kstate \<Rightarrow> (jos_error + nat option) option" where
  "envid2env envid checkperm s =
     (if envid = 0 then Some (Inr (curenv s))
      else let e = ENVX envid in
        if env_status (envs s e) = ENV_FREE \<or> env_id (envs s e) \<noteq> envid then Some (Inl E_BAD_ENV)
        else if checkperm \<and> Some e \<noteq> curenv s
        then (case curenv s of
            None \<Rightarrow> None
          | Some c \<Rightarrow> if env_parent_id (envs s e) \<noteq> env_id (envs s c) then Some (Inl E_BAD_ENV)
                     else Some (Inr (Some e)))
        else Some (Inr (Some e)))"

text \<open>
  \<open>env_init\<close>: \<open>sizeof(envs)\<close> is the size of a pointer, so the \<open>memset\<close> clears the first four bytes of
  \<open>envs[0]\<close>, its saved \<open>edi\<close>.
\<close>

definition env_init_step :: "nat \<Rightarrow> kstate \<Rightarrow> kstate" where
  "env_init_step i s = (upd_env i (\<lambda>e. e\<lparr>env_link := env_free_list s\<rparr>) s)\<lparr>env_free_list := Some i\<rparr>"

definition env_init :: "kstate \<Rightarrow> kstate option" where
  "env_init s = do {
     let s = upd_env 0 (\<lambda>e. e\<lparr>env_tf := (env_tf e)\<lparr>tf_regs := (tf_regs (env_tf e))\<lparr>reg_edi := 0\<rparr>\<rparr>\<rparr>) s;
     let s = s\<lparr>env_free_list := None\<rparr>;
     let s = fold env_init_step (rev [0..<NENV]) s;
     c_assert (env_free_list s = Some 0);
     Some s
   }"

definition kcopy :: "u32 \<Rightarrow> u32 \<Rightarrow> u32 \<Rightarrow> kstate \<Rightarrow> kstate" where
  "kcopy dst src n s =
     s\<lparr>phys := (\<lambda>a. if a - (dst - KERNBASE) < n then phys s ((src - KERNBASE) + (a - (dst - KERNBASE)))
                   else phys s a)\<rparr>"

definition env_setup_vm :: "nat \<Rightarrow> kstate \<Rightarrow> ((jos_error + unit) \<times> kstate) option" where
  "env_setup_vm e s = do {
     (p, s) \<leftarrow> page_alloc ALLOC_ZERO s;
     case p of
       None \<Rightarrow> Some (Inl E_NO_MEM, s)
     | Some p \<Rightarrow> do {
         kva \<leftarrow> page2kva s p;
         let s = upd_env e (\<lambda>v. v\<lparr>env_pgdir := kva\<rparr>) s;
         let s = upd_page p (\<lambda>q. q\<lparr>pp_ref := pp_ref q + 1\<rparr>) s;
         let s = kcopy kva (kern_pgdir s) PGSIZE s;
         pa \<leftarrow> PADDR kva;
         Some (Inr (), kstore (kva + 4 * PDX UVPT) (pa OR PTE_P OR PTE_U) s)
       }
   }"

definition next_env_id :: "u32 \<Rightarrow> nat \<Rightarrow> u32" where
  "next_env_id old idx =
     (let generation = (old + 0x1000) AND NOT 0x3FF;
          generation = (if sint generation \<le> 0 then 0x1000 else generation)
      in generation OR of_nat idx)"

definition env_alloc :: "u32 \<Rightarrow> kstate \<Rightarrow> ((jos_error + nat) \<times> kstate) option" where
  "env_alloc parent_id s =
     (case env_free_list s of
        None \<Rightarrow> Some (Inl E_NO_FREE_ENV, s)
      | Some e \<Rightarrow> do {
          (r, s) \<leftarrow> env_setup_vm e s;
          case r of
            Inl err \<Rightarrow> Some (Inl err, s)
          | Inr _ \<Rightarrow> do {
              let s = upd_env e (\<lambda>v. v\<lparr>
                env_id := next_env_id (env_id v) e,
                env_parent_id := parent_id,
                env_type := ENV_TYPE_USER,
                env_status := ENV_RUNNABLE,
                env_runs := 0,
                env_tf := zero_tf\<lparr>tf_ds := GD_UD OR 3, tf_es := GD_UD OR 3, tf_ss := GD_UD OR 3,
                  tf_esp := USTACKTOP, tf_cs := GD_UT OR 3, tf_eflags := FL_IF\<rparr>,
                env_pgfault_upcall := 0,
                env_ipc_recving := False\<rparr>) s;
              Some (Inr e, s\<lparr>env_free_list := env_link (envs s e)\<rparr>)
            }
        })"

definition env_free_pte :: "u32 \<Rightarrow> u32 \<Rightarrow> nat \<Rightarrow> nat \<Rightarrow> kstate \<Rightarrow> kstate option" where
  "env_free_pte pgdir pt pdeno pteno s =
     (if kload s (pt + 4 * of_nat pteno) AND PTE_P \<noteq> 0
      then page_remove pgdir (PGADDR (of_nat pdeno) (of_nat pteno) 0) s
      else Some s)"

definition env_free_pde :: "nat \<Rightarrow> nat \<Rightarrow> kstate \<Rightarrow> kstate option" where
  "env_free_pde e pdeno s =
     (let pgdir = env_pgdir (envs s e); pde = pgdir + 4 * of_nat pdeno
      in if kload s pde AND PTE_P = 0 then Some s
         else do {
           let pa = PTE_ADDR (kload s pde);
           pt \<leftarrow> KADDR s pa;
           s \<leftarrow> ofold (env_free_pte pgdir pt pdeno) [0..<NPTENTRIES] s;
           let s = kstore pde 0 s;
           pp \<leftarrow> pa2page s pa;
           page_decref pp s
         })"

definition env_free :: "nat \<Rightarrow> kstate \<Rightarrow> kstate option" where
  "env_free e s = do {
     s \<leftarrow> (if curenv s = Some e then do { pa \<leftarrow> PADDR (kern_pgdir s); Some (s\<lparr>cr3 := pa\<rparr>) } else Some s);
     s \<leftarrow> ofold (env_free_pde e) [0..<unat (PDX UTOP)] s;
     pa \<leftarrow> PADDR (env_pgdir (envs s e));
     let s = upd_env e (\<lambda>v. v\<lparr>env_pgdir := 0\<rparr>) s;
     pp \<leftarrow> pa2page s pa;
     s \<leftarrow> page_decref pp s;
     let s = upd_env e (\<lambda>v. v\<lparr>env_status := ENV_FREE, env_link := env_free_list s\<rparr>) s;
     Some (s\<lparr>env_free_list := Some e\<rparr>)
   }"

text \<open>
  \<open>region_alloc\<close>: the loop body, and the loop over \<open>i\<close>. The code asserts after each page that the
  cursor is above \<open>va\<close> and that \<open>i\<close> is below the length asked for.
\<close>

partial_function (option) region_alloc_loop ::
  "u32 \<Rightarrow> u32 \<Rightarrow> u32 \<Rightarrow> u32 \<Rightarrow> u32 \<Rightarrow> u32 \<Rightarrow> kstate \<Rightarrow> kstate option" where
  "region_alloc_loop pgdir va n l v i s =
     (if i < l then do {
        (p, s) \<leftarrow> page_alloc 0 s;
        p \<leftarrow> p;
        (r, s) \<leftarrow> page_insert pgdir p v (PTE_U OR PTE_W) s;
        c_assert (r = Inr ());
        let v = v + PGSIZE;
        c_assert (va < v \<and> i < n);
        region_alloc_loop pgdir va n l v (i + PGSIZE) s
      } else Some s)"

definition region_alloc :: "nat \<Rightarrow> u32 \<Rightarrow> u32 \<Rightarrow> kstate \<Rightarrow> kstate option" where
  "region_alloc e va n s =
     region_alloc_loop (env_pgdir (envs s e)) va n (ROUNDUP n PGSIZE) (ROUNDDOWN va PGSIZE) 0 s"

text \<open>
  \<open>env_run\<close> and the store of \<open>env_pop_tf\<close>; the \<open>iret\<close> into environment \<open>e\<close> is what the caller's
  event \<open>Run e\<close> stands for.
\<close>

definition env_run :: "nat \<Rightarrow> kstate \<Rightarrow> kstate option" where
  "env_run e s = do {
     let s = (case curenv s of
         None \<Rightarrow> s
       | Some c \<Rightarrow> if env_status (envs s c) = ENV_RUNNING
                  then upd_env c (\<lambda>v. v\<lparr>env_status := ENV_RUNNABLE\<rparr>) s else s);
     let s = set_curenv (Some e) s;
     let s = upd_env e (\<lambda>v. v\<lparr>env_status := ENV_RUNNING\<rparr>) s;
     let s = upd_env e (\<lambda>v. v\<lparr>env_runs := env_runs v + 1\<rparr>) s;
     pa \<leftarrow> PADDR (env_pgdir (envs s e));
     let s = s\<lparr>cr3 := pa, kernel_locked := False\<rparr>;
     Some (upd_env e (\<lambda>v. v\<lparr>env_cpunum := of_nat (this_cpu s)\<rparr>) s)
   }"

end
