(* ===== verification/Jos_Env_Free.thy ===== *)
theory Jos_Env_Free
  imports Jos_Env
begin

text \<open>
  The teardown of an address space by \<open>env_free\<close>: the inner loop empties a page table, each
  iteration of the outer loop releases one page table, and a directory without page tables can be
  released.
\<close>

text \<open>The inner loop of \<open>env_free\<close> empties one page table.\<close>

definition under :: "nat \<Rightarrow> nat \<Rightarrow> nat \<Rightarrow> (nat \<times> nat \<times> nat) set" where
  "under pd d t = {(pd', d', t'). pd' = pd \<and> d' = d \<and> t' < t}"

lemma env_free_pte_loop:
  assumes inv: "vm_inv S s" and q: "ptab S s (pd, d) = Some q"
  shows "\<exists>s'. ofold (env_free_pte (kva_of pd) (kva_of q) d) [0..<NPTENTRIES] s = Some s' \<and>
     vm_shrink S s s' \<and> ptab S s' = ptab S s \<and> vmap S s' = vmap S s |` (- under pd d NPTENTRIES)"
proof -
  note pd = ptab_entry [OF q]
  let ?P = "\<lambda>t s'. vm_shrink S s s' \<and> ptab S s' = ptab S s \<and> vmap S s' = vmap S s |` (- under pd d t)"
  show ?thesis
  proof (rule ofold_upt [where P = ?P])
    show "?P 0 s" using inv by (auto simp: vm_shrink_refl under_def restrict_map_def)
  next
    fix t s1 assume t: "t < NPTENTRIES" and P: "?P t s1"
    then have inv1: "vm_inv S s1" by (simp add: vm_shrink_def)
    have u: "under pd d (Suc t) = insert (pd, d, t) (under pd d t)" by (auto simp: under_def less_Suc_eq)
    have v: "vmap S s |` (- under pd d (Suc t)) = (vmap S s1)((pd, d, t) := None)"
      using P unfolding u restrict_step by simp
    have ld: "kload s1 (kva_of q + 4 * of_nat t) = phys s1 (cell q t)"
      using t by (simp add: kva_of_cell_nat kload_cell)
    let ?va = "PGADDR (of_nat d) (of_nat t) 0"
    have va: "unat (PDX ?va) = d" "unat (PTX ?va) = t" using pd(4) t by (simp_all add: PGADDR_inv)
    show "\<exists>s'. env_free_pte (kva_of pd) (kva_of q) d t s1 = Some s' \<and> ?P (Suc t) s'"
    proof (cases "present (phys s1 (cell q t))")
      case True
      obtain s2 where s2: "page_remove (kva_of pd) ?va s1 = Some s2" "unmapped S pd ?va s1 s2"
        using page_remove_vm [OF inv1 pd(3), of ?va] pd(4) va(1) by auto
      then have "?P (Suc t) s2"
        using unmapped_shrink [OF inv1 s2(2)] P vm_shrink_trans v by (auto simp: unmapped_def va)
      with s2(1) True show ?thesis by (simp add: env_free_pte_def ld)
    next
      case False
      then have "vmap S s1 (pd, d, t) = None" using P q t by (simp add: vmap_def)
      then have "vmap S s1 = (vmap S s1)((pd, d, t) := None)" by (simp add: fun_upd_idem)
      with P v have "?P (Suc t) s1" by simp
      with False show ?thesis by (simp add: env_free_pte_def ld)
    qed
  qed simp
qed

text \<open>Clearing the directory entry of an empty page table.\<close>

lemma clear_pde:
  assumes inv: "vm_inv S s" and q: "ptab S s (pd, d) = Some q" and e: "\<And>t. vmap S s (pd, d, t) = None"
  defines "s1 \<equiv> set_cell pd d 0 s"
  shows "ptab S s1 = (ptab S s)((pd, d) := None)" "vmap S s1 = vmap S s"
    "slack S s1 = (slack S s)(q := slack S s q + 1)" "vm_inv S s1"
proof -
  note pd = ptab_entry [OF q]
  have lt: "\<And>p. p < npages s \<Longrightarrow> p < 1048576" using vm_inv_basic(2) [OF inv] by simp
  have Slt: "\<And>p. p \<in> S \<Longrightarrow> p < 1048576" using vm_inv_root [OF inv] lt by blast
  have ph: "phys s1 (cell r i) = (if r = pd \<and> i = d then 0 else phys s (cell r i))"
    if "r < 1048576" "i < 1024" for r i
    using that pd Slt by (auto simp: s1_def phys_set_cell)
  show pt: "ptab S s1 = (ptab S s)((pd, d) := None)"
  proof (rule ext, clarify)
    fix pd' d' show "ptab S s1 (pd', d') = ((ptab S s)((pd, d) := None)) (pd', d')"
      using pd Slt by (auto simp: ptab_def ph)
  qed
  show vm: "vmap S s1 = vmap S s"
  proof (rule ext, clarify)
    fix pd' d' t
    show "vmap S s1 (pd', d', t) = vmap S s (pd', d', t)"
    proof (cases "(pd', d') = (pd, d) \<or> ptab S s (pd', d') = None")
      case True
      then show ?thesis using e [of t] by (auto simp: vmap_def pt split: option.splits)
    next
      case False
      then obtain q' where q': "ptab S s (pd', d') = Some q'" by auto
      then have "q' \<notin> S" "q' < 1048576" using vm_inv_ptab [OF inv q'] lt by auto
      then show ?thesis using False q' pd ph by (auto simp: vmap_def pt)
    qed
  qed
  then have vp: "vpage S s1 = vpage S s" by (simp add: vpage_def fun_eq_iff)
  have oc: "occ (ptab S s1) p + (if p = q then 1 else 0) = occ (ptab S s) p" for p
    using occ_upd [OF vm_inv_basic(4) [OF inv], of "(pd, d)" None p] q by (auto simp: pt)
  have pg: "pages s1 = pages s" "npages s1 = npages s" "pm_inv s1 = pm_inv s" by (simp_all add: s1_def)
  have sl1: "slack S s1 p = slack S s p + (if p = q then 1 else 0)" for p
    using oc [of p] by (auto simp: slack_def uses_def vp pg split: if_splits)
  show sl: "slack S s1 = (slack S s)(q := slack S s q + 1)"
    by (intro ext) (simp add: sl1)
  have rp: "ran (ptab S s1) \<subseteq> ran (ptab S s)" unfolding pt by (auto simp: ran_def)
  have inj: "inj_on (ptab S s1) (dom (ptab S s1))"
    using inv by (auto simp: vm_inv_def pt inj_on_def)
  show "vm_inv S s1"
    using inv rp inj by (auto simp: vm_inv_def sl vp pg)
qed

lemma drop_table:
  assumes inv: "vm_inv S s" and q: "ptab S s (pd, d) = Some q" and e: "\<And>t. vmap S s (pd, d, t) = None"
  shows "\<exists>s'. page_decref q (set_cell pd d 0 s) = Some s' \<and> vm_shrink S s s' \<and>
     ptab S s' = (ptab S s)((pd, d) := None) \<and> vmap S s' = vmap S s"
proof -
  let ?s1 = "set_cell pd d 0 s"
  note cl = clear_pde [OF assms]
  note pd = ptab_entry [OF q]
  have q': "q < npages ?s1" "1 \<le> slack S ?s1 q"
    using vm_inv_ptab [OF inv q] vm_inv_slack [OF inv, of q] by (auto simp: cl(3))
  from decref_vm [OF cl(4) q'] obtain s2 where s2: "page_decref q ?s1 = Some s2" "vm_inv S s2"
    "slack S s2 = slack S s" "phys s2 = phys ?s1" "env_part s2 = env_part s"
    "free_pages s2 = (if pp_ref (pages s q) = 1 then q # free_pages s else free_pages s)"
    "\<forall>r. r \<noteq> q \<longrightarrow> pages s2 r = pages s r" "freed ?s1 s2"
    by (auto simp: cl(3))
  have pt: "ptab S s2 = (ptab S s)((pd, d) := None)" "vmap S s2 = vmap S s"
    using phys_cong [OF s2(4), of S] cl(1,2) by auto
  have qu: "q \<in> used S s" using q by (auto simp: used_def intro: ranI)
  have pdl: "pd < 1048576" using vm_inv_root [OF inv pd(3)] vm_inv_basic(2) [OF inv] by simp
  have "(ptab S s)((pd, d) := None) \<subseteq>\<^sub>m ptab S s" by (auto simp: map_le_def)
  moreover have "phys s2 (cell r i) = phys s (cell r i)" if "r < 1048576" "i < 1024" "no_user_pde S r i" for r i
    using that pd pdl by (auto simp: s2(4) phys_set_cell)
  moreover have "freed s s2" using s2(8) by (simp add: freed_def)
  moreover have "pages s2 r = pages s r" if "r \<notin> used S s" for r using s2(7) qu that by metis
  ultimately have "vm_shrink S s s2"
    unfolding vm_shrink_def pt using s2(2,3,5) qu by (auto simp: s2(6))
  with s2(1) pt show ?thesis by blast
qed

lemma env_free_pde_vm:
  assumes inv: "vm_inv S s" and pd: "pd \<in> S" "d < UPDE" and e: "env_pgdir (envs s e) = kva_of pd"
  shows "\<exists>s'. env_free_pde e d s = Some s' \<and> vm_shrink S s s' \<and>
     ptab S s' = (ptab S s)((pd, d) := None) \<and> vmap S s' = vmap S s |` (- under pd d NPTENTRIES)"
proof (cases "ptab S s (pd, d)")
  case None
  then have "vmap S s |` (- under pd d NPTENTRIES) = vmap S s"
    by (auto simp: restrict_map_def under_def vmap_def fun_eq_iff)
  moreover have "env_free_pde e d s = Some s"
    using None pd by (simp add: env_free_pde_def e kva_of_cell_nat kload_cell ptab_def split: if_splits)
  ultimately show ?thesis using None inv by (simp add: vm_shrink_refl fun_upd_idem)
next
  case (Some q)
  note en = ptab_entry [OF Some]
  obtain s1 where s1: "ofold (env_free_pte (kva_of pd) (kva_of q) d) [0..<NPTENTRIES] s = Some s1"
    "vm_shrink S s s1" "ptab S s1 = ptab S s" "vmap S s1 = vmap S s |` (- under pd d NPTENTRIES)"
    using env_free_pte_loop [OF inv Some] by blast
  then have inv1: "vm_inv S s1" and np: "npages s1 = npages s"
    by (auto simp: vm_shrink_def dest: env_partD)
  have empty: "vmap S s1 (pd, d, t) = None" for t
  proof (cases "t < NPTENTRIES")
    case True
    then show ?thesis by (simp add: s1(4) restrict_map_def under_def)
  next
    case False
    then show ?thesis by (simp add: vmap_def split: option.split)
  qed
  obtain s2 where s2: "page_decref q (set_cell pd d 0 s1) = Some s2" "vm_shrink S s1 s2"
    "ptab S s2 = (ptab S s)((pd, d) := None)" "vmap S s2 = vmap S s |` (- under pd d NPTENTRIES)"
    using drop_table [OF inv1 _ empty, of q] Some by (auto simp: s1(3,4))
  have ql: "q < npages s" "q < 1048576" using vm_inv_ptab [OF inv Some] vm_inv_basic(2) [OF inv] by auto
  then have "KADDR s (page2pa q) = Some (kva_of q)" "\<And>v. pa2page (set_cell pd d v s1) (page2pa q) = Some q"
    by (simp_all add: KADDR_def kva_of_def pa2page_def PGNUM_page2pa np)
  then have "env_free_pde e d s = Some s2"
    using en s1(1) s2(1) pd by (simp add: env_free_pde_def e kva_of_cell_nat kload_cell kstore_cell)
  then show ?thesis using s2 vm_shrink_trans [OF s1(2) s2(2)] by blast
qed

definition below_pde :: "nat \<Rightarrow> nat \<Rightarrow> (nat \<times> nat \<times> nat) set" where
  "below_pde pd d = {(pd', d', t'). pd' = pd \<and> d' < d}"

lemma env_free_pde_loop:
  assumes inv: "vm_inv S s" and pd: "pd \<in> S" and e: "env_pgdir (envs s e) = kva_of pd"
  shows "\<exists>s'. ofold (env_free_pde e) [0..<UPDE] s = Some s' \<and> vm_shrink S s s' \<and>
     ptab S s' = ptab S s |` {k. fst k \<noteq> pd} \<and> vmap S s' = vmap S s |` {k. fst k \<noteq> pd}"
proof -
  let ?P = "\<lambda>d s'. vm_shrink S s s' \<and> ptab S s' = ptab S s |` {k. \<not> (fst k = pd \<and> snd k < d)} \<and>
      vmap S s' = vmap S s |` (- below_pde pd d)"
  have "\<exists>s'. ofold (env_free_pde e) [0..<UPDE] s = Some s' \<and> ?P UPDE s'"
  proof (rule ofold_upt)
    show "?P 0 s" using inv by (auto simp: vm_shrink_refl below_pde_def restrict_map_def)
  next
    fix d s1 assume d: "d < UPDE" and P: "?P d s1"
    then have inv1: "vm_inv S s1" and e1: "env_pgdir (envs s1 e) = kva_of pd"
      using e by (auto simp: vm_shrink_def dest: env_partD)
    obtain s2 where s2: "env_free_pde e d s1 = Some s2" "vm_shrink S s1 s2"
      "ptab S s2 = (ptab S s1)((pd, d) := None)" "vmap S s2 = vmap S s1 |` (- under pd d NPTENTRIES)"
      using env_free_pde_vm [OF inv1 pd d e1] by blast
    have "ptab S s2 = ptab S s |` {k. \<not> (fst k = pd \<and> snd k < Suc d)}"
      using P by (auto simp: s2(3) restrict_map_def fun_eq_iff less_Suc_eq)
    moreover have "vmap S s2 = vmap S s |` (- below_pde pd (Suc d))"
    proof (rule ext, clarify)
      fix pd' d' t
      have "t < NPTENTRIES \<or> vmap S s (pd', d', t) = None" by (simp add: vmap_def split: option.split)
      then show "vmap S s2 (pd', d', t) = (vmap S s |` (- below_pde pd (Suc d))) (pd', d', t)"
        using P by (auto simp: s2(4) restrict_map_def below_pde_def under_def less_Suc_eq)
    qed
    ultimately show "\<exists>s'. env_free_pde e d s1 = Some s' \<and> ?P (Suc d) s'"
      using s2(1,2) P vm_shrink_trans by blast
  qed simp
  then obtain s' where s': "ofold (env_free_pde e) [0..<UPDE] s = Some s'" "?P UPDE s'" by blast
  have "ptab S s |` {k. \<not> (fst k = pd \<and> snd k < UPDE)} = ptab S s |` {k. fst k \<noteq> pd}"
    by (auto simp: restrict_map_def fun_eq_iff ptab_def)
  moreover have "vmap S s |` (- below_pde pd UPDE) = vmap S s |` {k. fst k \<noteq> pd}"
    by (auto simp: restrict_map_def fun_eq_iff below_pde_def vmap_def ptab_def)
  ultimately show ?thesis using s' by auto
qed

text \<open>A directory without page tables can leave the set of directories.\<close>

lemma ptab_drop: "ptab (S - {pd}) s = ptab S s |` {k. fst k \<noteq> pd}"
  by (auto simp: ptab_def restrict_map_def fun_eq_iff)

lemma vmap_drop: "vmap (S - {pd}) s = vmap S s |` {k. fst k \<noteq> pd}"
  by (auto simp: vmap_def ptab_drop restrict_map_def fun_eq_iff)

lemma drop_root:
  assumes inv: "vm_inv S s" and pd: "pd \<in> S" and none: "\<And>d. ptab S s (pd, d) = None"
  shows "vm_inv (S - {pd}) s" "ptab (S - {pd}) s = ptab S s" "vmap (S - {pd}) s = vmap S s"
    "slack (S - {pd}) s = (slack S s)(pd := slack S s pd + 1)"
proof -
  show pt: "ptab (S - {pd}) s = ptab S s"
    using none by (auto simp: ptab_drop restrict_map_def fun_eq_iff)
  show vm: "vmap (S - {pd}) s = vmap S s" using none by (auto simp: vmap_def pt fun_eq_iff)
  then have vp: "vpage (S - {pd}) s = vpage S s" by (simp add: vpage_def fun_eq_iff)
  show sl: "slack (S - {pd}) s = (slack S s)(pd := slack S s pd + 1)"
    using pd by (auto simp: slack_def uses_def pt vp fun_eq_iff)
  show "vm_inv (S - {pd}) s" using inv by (auto simp: vm_inv_def pt vp sl)
qed

end
