(* ===== verification/Jos_Kernel_Inv.thy ===== *)
theory Jos_Kernel_Inv
  imports Jos_Env_Free
begin

text \<open>
  The invariant of the kernel between operations. \<open>roots s\<close> are the pages that hold the page
  directories of live environments; \<open>kinv\<close> joins the memory invariant for these roots, the
  consistency of the environment table and its free list, and the condition that \<open>kern_pgdir\<close> is a
  page of its own with an empty user part.
\<close>

section \<open>Environment identifiers\<close>

lemma and_not_and [simp]: "((x :: u32) AND NOT m) AND m = 0"
  by (simp add: and.assoc)

lemma next_env_id_gen:
  obtains g where "next_env_id old idx = g OR of_nat idx" "g AND 0x3FF = 0" "0 < sint g"
proof
  define g0 where "g0 = (old + 0x1000) AND NOT 0x3FF"
  let ?g = "if sint g0 \<le> 0 then 0x1000 else g0"
  show "next_env_id old idx = ?g OR of_nat idx" by (simp add: next_env_id_def g0_def)
  have "g0 AND 0x3FF = 0" unfolding g0_def by (rule and_not_and)
  then show "?g AND 0x3FF = 0" by simp
  show "0 < sint ?g" by simp
qed

lemma bit_of_small: "idx < 1024 \<Longrightarrow> 10 \<le> n \<Longrightarrow> \<not> bit (of_nat idx :: u32) n"
proof -
  assume "idx < 1024" "10 \<le> n"
  then have "take_bit 10 (of_nat idx :: u32) = of_nat idx"
    by (simp add: word_eq_unat unsigned_take_bit_eq take_bit_nat_eq_self_iff)
  with \<open>10 \<le> n\<close> show ?thesis by (metis bit_take_bit_iff not_less)
qed

lemma next_env_id_parts:
  assumes "idx < NENV"
  shows "ENVX (next_env_id old idx) = idx" "0 < sint (next_env_id old idx)" "next_env_id old idx \<noteq> 0"
proof -
  obtain g where g: "next_env_id old idx = g OR of_nat idx" "g AND 0x3FF = 0" "0 < sint g"
    by (rule next_env_id_gen)
  have "(of_nat idx :: u32) AND 0x3FF = of_nat idx"
    using assms by (simp add: mask_3ff flip: take_bit_eq_mask)
      (simp add: word_eq_unat unsigned_take_bit_eq take_bit_nat_eq_self_iff)
  then show "ENVX (next_env_id old idx) = idx"
    using assms g(1,2) by (simp add: ENVX_def bit.conj_disj_distrib2)
  have "\<not> bit g 31" using g(3) bit_last_iff [of g] by simp
  then have "\<not> sint (g OR of_nat idx) < 0"
    using bit_of_small [OF assms, of 31] bit_last_iff [of "g OR of_nat idx"] by (simp add: bit_or_iff)
  moreover have nz: "g OR of_nat idx \<noteq> 0" using g(3) by (auto simp: or_eq_0_iff)
  then have "sint (g OR of_nat idx) \<noteq> 0" by (simp only: signed_eq_0_iff not_False_eq_True)
  ultimately show "0 < sint (next_env_id old idx)" unfolding g(1) by linarith
  show "next_env_id old idx \<noteq> 0" unfolding g(1) by (rule nz)
qed

section \<open>The kernel invariant\<close>

definition live_envs :: "kstate \<Rightarrow> nat set" where
  "live_envs s = {e. e < NENV \<and> env_status (envs s e) \<noteq> ENV_FREE}"

definition pd_page :: "kstate \<Rightarrow> nat \<Rightarrow> nat" where
  "pd_page s e = unat (PGNUM (env_pgdir (envs s e) - KERNBASE))"

definition roots :: "kstate \<Rightarrow> nat set" where
  "roots s = pd_page s ` live_envs s"

definition free_envs :: "kstate \<Rightarrow> nat list" where
  "free_envs s = follow NENV (\<lambda>i. env_link (envs s i)) (env_free_list s)"

definition env_inv :: "kstate \<Rightarrow> bool" where
  "env_inv s \<longleftrightarrow>
     (\<forall>e\<in>live_envs s. env_pgdir (envs s e) = kva_of (pd_page s e) \<and> ENVX (env_id (envs s e)) = e \<and>
        env_id (envs s e) \<noteq> 0) \<and>
     inj_on (pd_page s) (live_envs s) \<and>
     chain (\<lambda>i. env_link (envs s i)) (env_free_list s) (free_envs s) \<and>
     set (free_envs s) = {..<NENV} - live_envs s"

definition kern_page :: "kstate \<Rightarrow> nat" where
  "kern_page s = unat (PGNUM (kern_pgdir s - KERNBASE))"

definition kern_dir :: "kstate \<Rightarrow> bool" where
  "kern_dir s \<longleftrightarrow> kern_pgdir s = kva_of (kern_page s) \<and> kern_page s < npages s \<and>
     kern_page s \<notin> used (roots s) s \<and> kern_page s \<notin> set (free_pages s) \<and>
     (\<forall>d < UPDE. phys s (cell (kern_page s) d) AND PTE_P = 0)"

text \<open>The kernel part of a page directory names existing pages.\<close>

definition upper_ok :: "kstate \<Rightarrow> nat \<Rightarrow> bool" where
  "upper_ok s pd \<longleftrightarrow> (\<forall>d. UPDE \<le> d \<and> d < 1024 \<and> present (phys s (cell pd d)) \<longrightarrow>
     entry_page (phys s (cell pd d)) < npages s)"

definition dirs :: "kstate \<Rightarrow> nat set" where
  "dirs s = insert (kern_page s) (roots s)"

definition kinv :: "kstate \<Rightarrow> bool" where
  "kinv s \<longleftrightarrow> vm_inv (roots s) s \<and> env_inv s \<and> kern_dir s \<and> (\<forall>pd \<in> dirs s. upper_ok s pd)"

definition cur_ok :: "kstate \<Rightarrow> bool" where
  "cur_ok s \<longleftrightarrow> (\<forall>e. curenv s = Some e \<longrightarrow> e \<in> live_envs s)"

lemma pd_page_kva: "p < 1048576 \<Longrightarrow> unat (PGNUM (kva_of p - KERNBASE)) = p"
  by (simp add: kva_of_def PGNUM_page2pa)

lemma env_part_roots:
  assumes "env_part s' = env_part s"
  shows "roots s' = roots s" "live_envs s' = live_envs s" "env_inv s' = env_inv s" "pd_page s' = pd_page s"
    "kern_page s' = kern_page s" "kern_pgdir s' = kern_pgdir s" "cur_ok s' = cur_ok s" "free_envs s' = free_envs s"
proof -
  have e: "envs s' = envs s" "env_free_list s' = env_free_list s" "kern_pgdir s' = kern_pgdir s"
    "curenv s' = curenv s" using assms by (auto simp: env_part_def curenv_def)
  then show "live_envs s' = live_envs s" "pd_page s' = pd_page s" by (simp_all add: live_envs_def pd_page_def fun_eq_iff)
  then show "roots s' = roots s" "env_inv s' = env_inv s" "cur_ok s' = cur_ok s" "free_envs s' = free_envs s"
    using e by (simp_all add: roots_def env_inv_def cur_ok_def free_envs_def)
  show "kern_page s' = kern_page s" "kern_pgdir s' = kern_pgdir s" using e by (simp_all add: kern_page_def)
qed

lemma kinv_page_lt: "kinv s \<Longrightarrow> p < npages s \<Longrightarrow> p < 65536"
  using vm_inv_basic(2) by (fastforce simp: kinv_def)

lemma kinv_live:
  assumes "kinv s" "e \<in> live_envs s"
  shows "pd_page s e \<in> roots s" "env_pgdir (envs s e) = kva_of (pd_page s e)" "pd_page s e < npages s"
    "ENVX (env_id (envs s e)) = e" "env_id (envs s e) \<noteq> 0" "pd_page s e < 65536"
proof -
  show r: "pd_page s e \<in> roots s" using assms(2) by (simp add: roots_def)
  show "env_pgdir (envs s e) = kva_of (pd_page s e)" "ENVX (env_id (envs s e)) = e" "env_id (envs s e) \<noteq> 0"
    using assms by (auto simp: kinv_def env_inv_def)
  show "pd_page s e < npages s" using assms(1) r vm_inv_root by (auto simp: kinv_def)
  with assms(1) show "pd_page s e < 65536" by (rule kinv_page_lt)
qed

lemma upper_ok_cong:
  "\<lbrakk>npages s' = npages s; \<And>d. UPDE \<le> d \<Longrightarrow> d < 1024 \<Longrightarrow> phys s' (cell pd d) = phys s (cell pd d)\<rbrakk> \<Longrightarrow>
     upper_ok s' pd = upper_ok s pd"
  unfolding upper_ok_def by metis

lemma kinv_dirs:
  assumes k: "kinv s" and pd: "pd \<in> dirs s"
  shows "pd < 65536" "pd \<notin> ran (ptab (roots s) s)" "pd \<notin> set (free_pages s)"
proof -
  have vm: "vm_inv (roots s) s" and kd: "kern_dir s" using k by (simp_all add: kinv_def)
  have "pd < npages s" using pd vm_inv_root [OF vm] kd by (auto simp: dirs_def kern_dir_def)
  then show "pd < 65536" by (rule kinv_page_lt [OF k])
  show "pd \<notin> ran (ptab (roots s) s)"
    using pd kd vm by (auto simp: dirs_def kern_dir_def used_def vm_inv_def)
  show "pd \<notin> set (free_pages s)"
    using pd kd free_unused(2) [OF vm, of pd] by (auto simp: dirs_def kern_dir_def)
qed

text \<open>Unmapping keeps the kernel invariant.\<close>

lemma kinv_shrink:
  assumes "kinv s" "vm_shrink (roots s) s s'"
  shows "kinv s'"
proof -
  have ep: "env_part s' = env_part s" using assms(2) by (simp add: vm_shrink_def)
  note r = env_part_roots [OF ep]
  have np: "npages s' = npages s" using ep by (rule env_partD [THEN conjunct1])
  have up: "\<forall>pd \<in> dirs s. upper_ok s' pd"
  proof
    fix pd assume pd: "pd \<in> dirs s"
    note d = kinv_dirs [OF assms(1) pd]
    have "upper_ok s' pd = upper_ok s pd"
      using d by (intro upper_ok_cong [OF np] vm_shrink_data [OF assms(2)]) auto
    then show "upper_ok s' pd" using assms(1) pd by (simp add: kinv_def)
  qed
  have k: "kern_page s < npages s" "kern_page s \<notin> used (roots s) s" "kern_page s \<notin> set (free_pages s)"
    using assms(1) by (simp_all add: kinv_def kern_dir_def)
  then have "kern_page s \<notin> roots s" "kern_page s \<notin> ran (ptab (roots s) s)" by (auto simp: used_def)
  then have "phys s' (cell (kern_page s) d) = phys s (cell (kern_page s) d)" if "d < UPDE" for d
    using that kinv_page_lt [OF assms(1) k(1)] by (intro vm_shrink_data [OF assms(2)]) auto
  moreover have "used (roots s) s' \<subseteq> used (roots s) s"
    using assms(2) used_mono unfolding vm_shrink_def by blast
  moreover have "kern_page s \<notin> set (free_pages s')" using assms(2) k by (auto simp: vm_shrink_def)
  ultimately show ?thesis
    using assms k up unfolding kinv_def kern_dir_def dirs_def r np by (auto simp: vm_shrink_def)
qed

text \<open>So does mapping a page other than \<open>kern_pgdir\<close>.\<close>

lemma kinv_mapped:
  assumes k: "kinv s" and m: "mapped_at (roots s) pd va pp perm s s'" and pp: "pp \<noteq> kern_page s"
    and v: "entry_page (page2pa pp OR perm OR PTE_P) = pp"
  shows "kinv s'"
proof -
  have ep: "env_part s' = env_part s" using m by (simp add: mapped_at_def)
  note r = env_part_roots [OF ep]
  have np: "npages s' = npages s" using ep by (rule env_partD [THEN conjunct1])
  have up: "\<forall>pd \<in> dirs s. upper_ok s' pd"
  proof
    fix x assume x: "x \<in> dirs s"
    note d = kinv_dirs [OF k x]
    have "upper_ok s' x = upper_ok s x"
      using d by (intro upper_ok_cong [OF np] mapped_at_data [OF m]) auto
    then show "upper_ok s' x" using k x by (simp add: kinv_def)
  qed
  have kp: "kern_page s < npages s" "kern_page s \<notin> used (roots s) s" "kern_page s \<notin> set (free_pages s)"
    using k by (simp_all add: kinv_def kern_dir_def)
  then have nr: "kern_page s \<notin> roots s" "kern_page s \<notin> ran (ptab (roots s) s)" "kern_page s \<notin> ran (vpage (roots s) s)"
    by (auto simp: used_def)
  have ph: "phys s' (cell (kern_page s) d) = phys s (cell (kern_page s) d)" if "d < UPDE" for d
    using that nr kp kinv_page_lt [OF k kp(1)] by (intro mapped_at_data [OF m]) auto
  have "vpage (roots s) s' = (vpage (roots s) s)(va_key pd va := Some pp)"
    using m vpage_upd [of "roots s" s' s "va_key pd va"] v by (simp add: mapped_at_def)
  then have "ran (vpage (roots s) s') \<subseteq> insert pp (ran (vpage (roots s) s))" by (auto simp: ran_def)
  then have u: "kern_page s \<notin> used (roots s) s'"
    using m nr pp kp(3) by (auto simp: used_def mapped_at_def)
  have "kern_page s \<notin> set (free_pages s')"
    using m kp(3) nr(3) by (auto simp: mapped_at_def ran_def split: option.splits)
  moreover have "vm_inv (roots s) s'" using m by (simp add: mapped_at_def)
  moreover have "env_inv s" "kern_pgdir s = kva_of (kern_page s)"
    using k by (simp_all add: kinv_def kern_dir_def)
  moreover have "\<forall>d < UPDE. phys s' (cell (kern_page s) d) AND PTE_P = 0"
  proof (intro allI impI)
    fix d :: nat assume "d < UPDE"
    then show "phys s' (cell (kern_page s) d) AND PTE_P = 0"
      unfolding ph [OF \<open>d < UPDE\<close>] using k unfolding kinv_def kern_dir_def by blast
  qed
  ultimately show ?thesis
    unfolding kinv_def kern_dir_def dirs_def r np using u kp(1) up [unfolded dirs_def] by (intro conjI)
qed

lemma free_envsI:
  "\<lbrakk>chain (\<lambda>i. env_link (envs s i)) (env_free_list s) xs; set xs \<subseteq> {..<NENV}\<rbrakk> \<Longrightarrow> free_envs s = xs"
  unfolding free_envs_def by (rule follow_chain) (auto intro: chain_bound)

lemma PADDR_kva: "p < 65536 \<Longrightarrow> PADDR (kva_of p) = Some (page2pa p)"
proof -
  assume p: "p < 65536"
  then have "unat (page2pa p) = p * 4096" by (simp add: unat_page2pa)
  then have "unat (kva_of p) = p * 4096 + 4026531840"
    using p by (simp add: kva_of_def unat_add_no_wrap KERNBASE_def)
  then have "\<not> kva_of p < KERNBASE" by (simp add: word_less_nat_alt KERNBASE_def)
  then show ?thesis by (simp add: PADDR_def kva_of_def)
qed

section \<open>Updates of one environment\<close>

lemma upd_env_vm [simp]:
  "vm_inv S (upd_env e f s) = vm_inv S s" "vmap S (upd_env e f s) = vmap S s" "ptab S (upd_env e f s) = ptab S s"
  "slack S (upd_env e f s) = slack S s" "free_pages (upd_env e f s) = free_pages s"
  by (rule vm_cong; simp)+

lemma upd_env_part:
  "env_part s' = env_part s \<Longrightarrow> env_part (upd_env e f s') = env_part (upd_env e f s)"
  by (simp add: env_part_def upd_env_def)

lemma vpage_cong: "vmap S' s' = vmap S s \<Longrightarrow> vpage S' s' = vpage S s"
  by (simp add: vpage_def fun_eq_iff)

end
