(* ===== verification/Jos_Env_Life.thy ===== *)
theory Jos_Env_Life
  imports Jos_Kernel_Inv
begin

text \<open>
  Creation and destruction of environments: \<open>env_free\<close> and \<open>env_alloc\<close> on every branch, with the
  kernel invariant, the mappings and the free lists before and after.
\<close>

section \<open>Destroying an environment\<close>

text \<open>Releasing the whole address space rooted at \<open>pd\<close>.\<close>

lemma teardown_vm:
  assumes inv: "vm_inv S s" and pd: "pd \<in> S" and e: "env_pgdir (envs s e) = kva_of pd"
  obtains s1 s2 where "ofold (env_free_pde e) [0..<UPDE] s = Some s1" "env_part s1 = env_part s"
    "page_decref pd (upd_env e f s1) = Some s2" "env_part s2 = env_part (upd_env e f s)"
    "vm_inv (S - {pd}) s2" "vmap (S - {pd}) s2 = vmap S s |` {k. fst k \<noteq> pd}"
    "slack (S - {pd}) s2 = slack S s" "used (S - {pd}) s2 \<subseteq> used S s"
    "set (free_pages s) \<subseteq> set (free_pages s2)" "set (free_pages s2) \<subseteq> set (free_pages s) \<union> used S s"
    "\<And>r i. \<lbrakk>r < 1048576; i < 1024; no_user_pde S r i; r \<notin> ran (ptab S s)\<rbrakk> \<Longrightarrow> phys s2 (cell r i) = phys s (cell r i)"
    "freed s s2"
proof -
  obtain s1 where s1: "ofold (env_free_pde e) [0..<UPDE] s = Some s1" and sh: "vm_shrink S s s1"
    and pt: "ptab S s1 = ptab S s |` {k. fst k \<noteq> pd}" and vm: "vmap S s1 = vmap S s |` {k. fst k \<noteq> pd}"
    using env_free_pde_loop [OF inv pd e] by blast
  have inv1: "vm_inv S s1" and sl1: "slack S s1 = slack S s" and ep: "env_part s1 = env_part s"
    using sh by (auto simp: vm_shrink_def)
  note dr = drop_root [OF inv1 pd]
  have none: "ptab S s1 (pd, d) = None" for d by (simp add: pt)
  let ?s1 = "upd_env e f s1"
  have "1 \<le> slack (S - {pd}) ?s1 pd" "pd < npages ?s1" "vm_inv (S - {pd}) ?s1"
    using vm_inv_slack [OF inv1 vm_inv_root [OF inv1 pd]] vm_inv_root [OF inv1 pd] dr none by simp_all
  then obtain s2 where s2: "page_decref pd ?s1 = Some s2" "vm_inv (S - {pd}) s2"
    "slack (S - {pd}) s2 = (slack (S - {pd}) ?s1)(pd := slack (S - {pd}) ?s1 pd - 1)"
    "phys s2 = phys ?s1" "env_part s2 = env_part ?s1"
    "free_pages s2 = (if pp_ref (pages ?s1 pd) = 1 then pd # free_pages ?s1 else free_pages ?s1)"
    "freed ?s1 s2"
    using decref_vm [of "S - {pd}" ?s1 pd] by blast
  have vm2: "ptab (S - {pd}) s2 = ptab S s1" "vmap (S - {pd}) s2 = vmap S s1"
    using phys_cong [OF s2(4), of "S - {pd}"] dr none by simp_all
  have us: "used S s1 \<subseteq> used S s" using sh used_mono unfolding vm_shrink_def by blast
  have "used (S - {pd}) s2 \<subseteq> used S s1" by (auto simp: used_def vm2 vpage_cong [OF vm2(2)])
  with us have u2: "used (S - {pd}) s2 \<subseteq> used S s" by blast
  have fr: "set (free_pages s1) \<subseteq> set (free_pages s) \<union> used S s" "set (free_pages s) \<subseteq> set (free_pages s1)" "freed s s1"
    using sh by (auto simp: vm_shrink_def)
  have "freed s1 s2" using s2(7) by (simp add: freed_def)
  with fr(3) have fd: "freed s s2" by (rule freed_trans) (auto simp: s2(6))
  have "pd \<in> used S s" using pd by (simp add: used_def)
  with fr have f2: "set (free_pages s) \<subseteq> set (free_pages s2)" "set (free_pages s2) \<subseteq> set (free_pages s) \<union> used S s"
    by (auto simp: s2(6))
  have sl2: "slack (S - {pd}) s2 = slack S s" using dr(4) none by (simp add: s2(3) sl1)
  have ph: "phys s2 (cell r i) = phys s (cell r i)"
    if "r < 1048576" "i < 1024" "no_user_pde S r i" "r \<notin> ran (ptab S s)" for r i
    using vm_shrink_data [OF sh that] by (simp add: s2(4))
  show thesis
    by (rule that [OF s1 ep s2(1) _ s2(2) _ sl2 u2 f2 ph fd])
      (use s2(5) upd_env_part [OF ep] vm2 vm in \<open>simp_all\<close>)
qed

lemma env_free_steps:
  assumes k: "kinv s" and e: "e \<in> live_envs s"
  obtains s0 s2 where
    "s0 = (if curenv s = Some e then s\<lparr>cr3 := page2pa (kern_page s)\<rparr> else s)"
    "env_free e s = Some ((upd_env e (\<lambda>v. v\<lparr>env_status := ENV_FREE, env_link := env_free_list s\<rparr>) s2)
       \<lparr>env_free_list := Some e\<rparr>)"
    "env_part s2 = env_part (upd_env e (\<lambda>v. v\<lparr>env_pgdir := 0\<rparr>) s0)"
    "vm_inv (roots s - {pd_page s e}) s2"
    "vmap (roots s - {pd_page s e}) s2 = vmap (roots s) s |` {k. fst k \<noteq> pd_page s e}"
    "slack (roots s - {pd_page s e}) s2 = slack (roots s) s"
    "used (roots s - {pd_page s e}) s2 \<subseteq> used (roots s) s" "set (free_pages s) \<subseteq> set (free_pages s2)"
    "set (free_pages s2) \<subseteq> set (free_pages s) \<union> used (roots s) s"
    "\<And>r i. \<lbrakk>r < 1048576; i < 1024; no_user_pde (roots s) r i; r \<notin> ran (ptab (roots s) s)\<rbrakk> \<Longrightarrow>
       phys s2 (cell r i) = phys s (cell r i)"
    "freed s s2"
proof -
  define s0 where "s0 = (if curenv s = Some e then s\<lparr>cr3 := page2pa (kern_page s)\<rparr> else s)"
  note l = kinv_live [OF k e]
  have c: "phys s0 = phys s" "pages s0 = pages s" "page_free_list s0 = page_free_list s" "npages s0 = npages s"
    "envs s0 = envs s" "env_free_list s0 = env_free_list s"
    by (simp_all add: s0_def)
  note vc = vm_cong(1-4) [OF c(1-4), of "roots s"] vm_cong(5) [OF c(1-4)]
  have inv: "vm_inv (roots s) s0" "env_pgdir (envs s0 e) = kva_of (pd_page s e)"
    using k l vc by (simp_all add: kinv_def c)
  obtain s1 s2 where t: "ofold (env_free_pde e) [0..<UPDE] s0 = Some s1" "env_part s1 = env_part s0"
    "page_decref (pd_page s e) (upd_env e (\<lambda>v. v\<lparr>env_pgdir := 0\<rparr>) s1) = Some s2"
    "env_part s2 = env_part (upd_env e (\<lambda>v. v\<lparr>env_pgdir := 0\<rparr>) s0)"
    "vm_inv (roots s - {pd_page s e}) s2" 
    "vmap (roots s - {pd_page s e}) s2 = vmap (roots s) s0 |` {k. fst k \<noteq> pd_page s e}"
    "slack (roots s - {pd_page s e}) s2 = slack (roots s) s0"
    "used (roots s - {pd_page s e}) s2 \<subseteq> used (roots s) s0" "set (free_pages s0) \<subseteq> set (free_pages s2)"
    "set (free_pages s2) \<subseteq> set (free_pages s0) \<union> used (roots s) s0"
    "\<And>r i. \<lbrakk>r < 1048576; i < 1024; no_user_pde (roots s) r i; r \<notin> ran (ptab (roots s) s0)\<rbrakk> \<Longrightarrow>
       phys s2 (cell r i) = phys s0 (cell r i)" "freed s0 s2"
    using teardown_vm [OF inv(1) l(1) inv(2), where f = "\<lambda>v. v\<lparr>env_pgdir := 0\<rparr>"] by blast
  have "kern_page s < 65536" "kern_pgdir s = kva_of (kern_page s)"
    using k kinv_page_lt [OF k] by (auto simp: kinv_def kern_dir_def)
  then have h: "(if curenv s = Some e then do { pa \<leftarrow> PADDR (kern_pgdir s); Some (s\<lparr>cr3 := pa\<rparr>) } else Some s) = Some s0"
    by (simp add: s0_def PADDR_kva)
  have e1: "envs s1 = envs s" "npages s1 = npages s" using t(2) by (auto simp: c dest: env_partD)
  have pa: "pa2page (upd_env e g s1) (page2pa (pd_page s e)) = Some (pd_page s e)" for g
    using l(3,6) by (simp add: pa2page_def PGNUM_page2pa e1)
  have fl: "env_free_list s2 = env_free_list s" using t(4) by (simp add: env_part_def c)
  have ut: "unat (PDX UTOP) = UPDE" by (simp add: UPDE_UTOP)
  have "env_free e s = Some ((upd_env e (\<lambda>v. v\<lparr>env_status := ENV_FREE, env_link := env_free_list s\<rparr>) s2)
       \<lparr>env_free_list := Some e\<rparr>)"
    unfolding env_free_def h ut using t(1,3) l(2,6) by (simp add: e1 PADDR_kva pa fl)
  moreover have us: "used (roots s) s0 = used (roots s) s"
    using vc by (simp add: used_def vpage_cong [OF vc(2)])
  moreover have "freed s s2" using t(12) by (simp add: freed_def c)
  ultimately show thesis
    using that [OF s0_def] t(4-11) vc by (simp add: c)
qed

text \<open>
  \<open>env_free\<close> keeps the kernel invariant, puts the environment at the head of the free list, removes
  its mappings and no others, and leaves every other environment as it was.
\<close>

lemma env_free_ok:
  assumes k: "kinv s" and e: "e \<in> live_envs s"
  obtains s' where "env_free e s = Some s'" "kinv s'" "live_envs s' = live_envs s - {e}"
    "roots s' = roots s - {pd_page s e}" "\<forall>x. x \<noteq> e \<longrightarrow> envs s' x = envs s x"
    "vmap (roots s') s' = vmap (roots s) s |` {k. fst k \<noteq> pd_page s e}"
    "slack (roots s') s' = slack (roots s) s" "freed s s'" "cpus s' = cpus s" "this_cpu s' = this_cpu s"
    "free_envs s' = e # free_envs s" "set (free_pages s) \<subseteq> set (free_pages s')"
    "env_id (envs s' e) = env_id (envs s e)"
proof -
  obtain s0 s2 where s0: "s0 = (if curenv s = Some e then s\<lparr>cr3 := page2pa (kern_page s)\<rparr> else s)"
    and ef: "env_free e s = Some ((upd_env e (\<lambda>v. v\<lparr>env_status := ENV_FREE, env_link := env_free_list s\<rparr>) s2)
       \<lparr>env_free_list := Some e\<rparr>)"
    and ep: "env_part s2 = env_part (upd_env e (\<lambda>v. v\<lparr>env_pgdir := 0\<rparr>) s0)"
    and vm: "vm_inv (roots s - {pd_page s e}) s2"
    "vmap (roots s - {pd_page s e}) s2 = vmap (roots s) s |` {k. fst k \<noteq> pd_page s e}"
    "slack (roots s - {pd_page s e}) s2 = slack (roots s) s"
    "used (roots s - {pd_page s e}) s2 \<subseteq> used (roots s) s" "set (free_pages s) \<subseteq> set (free_pages s2)"
    "set (free_pages s2) \<subseteq> set (free_pages s) \<union> used (roots s) s"
    and ph: "\<And>r i. \<lbrakk>r < 1048576; i < 1024; no_user_pde (roots s) r i; r \<notin> ran (ptab (roots s) s)\<rbrakk> \<Longrightarrow>
       phys s2 (cell r i) = phys s (cell r i)" and fd: "freed s s2"
    using env_free_steps [OF k e] by blast
  define s' where "s' = (upd_env e (\<lambda>v. v\<lparr>env_status := ENV_FREE, env_link := env_free_list s\<rparr>) s2)
       \<lparr>env_free_list := Some e\<rparr>"
  have c: "phys s' = phys s2" "pages s' = pages s2" "page_free_list s' = page_free_list s2" "npages s' = npages s2"
    by (simp_all add: s'_def)
  have ev: "envs s' = (envs s)(e := (envs s e)\<lparr>env_pgdir := 0, env_status := ENV_FREE, env_link := env_free_list s\<rparr>)"
    "env_free_list s' = Some e" "kern_pgdir s' = kern_pgdir s" "npages s' = npages s" "cpus s' = cpus s"
    "this_cpu s' = this_cpu s"
    using ep by (auto simp: s'_def s0 env_part_def upd_env_def)
  have en: "e < NENV" using e by (simp add: live_envs_def)
  have lv: "live_envs s' = live_envs s - {e}" using en by (auto simp: live_envs_def ev)
  have pp: "pd_page s' x = pd_page s x" if "x \<noteq> e" for x using that by (simp add: pd_page_def ev)
  have "inj_on (pd_page s) (live_envs s)" using k by (simp add: kinv_def env_inv_def)
  then have "pd_page s ` (live_envs s - {e}) = roots s - {pd_page s e}"
    using e by (auto simp: roots_def inj_on_def)
  moreover have "pd_page s' ` (live_envs s - {e}) = pd_page s ` (live_envs s - {e})"
    by (rule image_cong) (auto simp: pp)
  ultimately have rt: "roots s' = roots s - {pd_page s e}" by (simp add: roots_def lv)
  note vc = vm_cong(1-4) [OF c, of "roots s - {pd_page s e}"] vm_cong(5) [OF c]
  have nin: "e \<notin> set (free_envs s)" and ch: "chain (\<lambda>i. env_link (envs s i)) (env_free_list s) (free_envs s)"
    and fs: "set (free_envs s) = {..<NENV} - live_envs s"
    using k e by (auto simp: kinv_def env_inv_def)
  have "chain (\<lambda>i. env_link (envs s' i)) (env_free_list s) (free_envs s)"
    using ch nin by (subst chain_cong [of _ _ "\<lambda>i. env_link (envs s i)"]) (auto simp: ev)
  then have "chain (\<lambda>i. env_link (envs s' i)) (Some e) (e # free_envs s)" by (simp add: ev)
  then have fl: "free_envs s' = e # free_envs s" "chain (\<lambda>i. env_link (envs s' i)) (env_free_list s') (free_envs s')"
    using free_envsI [of s' "e # free_envs s"] fs en by (auto simp: ev)
  have "env_inv s'"
    using k fl fs en e pp ev(1) unfolding kinv_def env_inv_def lv
    by (auto simp: inj_on_def)
  moreover have kp: "kern_page s' = kern_page s" by (simp add: kern_page_def ev)
  have "kern_dir s'"
  proof -
    have d: "kern_page s \<notin> used (roots s) s" "kern_page s \<notin> set (free_pages s)" "kern_page s < npages s"
      using k by (simp_all add: kinv_def kern_dir_def)
    then have "kern_page s \<notin> roots s" "kern_page s \<notin> ran (ptab (roots s) s)" by (auto simp: used_def)
    then have phk: "phys s' (cell (kern_page s) i) = phys s (cell (kern_page s) i)" if "i < UPDE" for i
      using ph kinv_page_lt [OF k d(3)] that by (simp add: c)
    have "used (roots s') s' = used (roots s - {pd_page s e}) s2"
      unfolding rt using vc by (simp add: used_def vpage_cong [OF vc(2)])
    with vm(4) d(1) have "kern_page s \<notin> used (roots s') s'" by blast
    moreover have "kern_page s \<notin> set (free_pages s')" using vm(6) d vc(5) by auto
    ultimately show ?thesis
      using k d(3) phk unfolding kinv_def kern_dir_def kp ev(3,4) by simp
  qed
  moreover have "\<forall>pd \<in> dirs s'. upper_ok s' pd"
  proof
    fix x assume "x \<in> dirs s'"
    then have x: "x \<in> dirs s" by (auto simp: dirs_def rt kp)
    note d = kinv_dirs [OF k x]
    have "upper_ok s' x = upper_ok s x"
      unfolding c(1) [symmetric] using d ph by (intro upper_ok_cong [OF ev(4)]) (auto simp: c)
    then show "upper_ok s' x" using k x by (simp add: kinv_def)
  qed
  ultimately have "kinv s'" using vm(1) vc(1) by (simp add: kinv_def rt)
  moreover have "freed s s'" using fd vc(5) by (simp add: freed_def c)
  ultimately show thesis
    using that [of s'] ef vm vc lv rt fl(1) ev by (simp add: s'_def [symmetric])
qed

section \<open>Creating an environment\<close>

text \<open>A fresh page directory with no user entries joins the set of directories.\<close>

lemma add_root:
  assumes inv: "vm_inv S s" and fp: "free_pages s = f # fs"
    and ph: "\<And>p i. \<lbrakk>p < 1048576; i < 1024; p \<noteq> f\<rbrakk> \<Longrightarrow> phys s' (cell p i) = phys s (cell p i)"
    and ab: "\<And>d. d < UPDE \<Longrightarrow> phys s' (cell f d) AND PTE_P = 0"
    and pg: "\<And>p. pages s' p = (if p = f then (pages s f)\<lparr>pp_link := None, pp_ref := 1\<rparr> else pages s p)"
    and pm: "pm_inv s'" "npages s' = npages s"
  shows "ptab (insert f S) s' = ptab S s" "vmap (insert f S) s' = vmap S s"
    "slack (insert f S) s' = slack S s" "vm_inv (insert f S) s'"
proof -
  have ff: "f \<in> set (free_pages s)" by (simp add: fp)
  note fu = free_unused [OF inv ff]
  have lt: "\<And>p. p < npages s \<Longrightarrow> p < 1048576" using vm_inv_basic(2) [OF inv] by simp
  have f: "f < npages s" "pp_ref (pages s f) = 0"
    using vm_inv_basic(1) [OF inv] ff by (auto simp: pm_inv_def)
  have Slt: "\<And>p. p \<in> S \<Longrightarrow> p < 1048576" using vm_inv_root [OF inv] lt by blast
  show pt: "ptab (insert f S) s' = ptab S s"
  proof (rule ext, clarify)
    fix pd d
    have "phys s' (cell pd d) = phys s (cell pd d)" if "pd \<in> S" "d < UPDE" for pd d
      using that ph [of pd d] Slt fu(2) by auto
    then show "ptab (insert f S) s' (pd, d) = ptab S s (pd, d)"
      using fu(2) ab by (auto simp: ptab_def)
  qed
  show vm: "vmap (insert f S) s' = vmap S s"
  proof (rule ext, clarify)
    fix pd d t
    have "phys s' (cell q t) = phys s (cell q t)" if "ptab S s (pd, d) = Some q" "t < 1024" for q
      using that ph [of q t] vm_inv_ptab [OF inv that(1)] lt fu(3) by (auto intro: ranI)
    then show "vmap (insert f S) s' (pd, d, t) = vmap S s (pd, d, t)"
      by (auto simp: vmap_def pt split: option.split)
  qed
  note vp = vpage_cong [OF vm]
  have o: "occ (vpage S s) f = 0" "occ (ptab S s) f = 0" using fu(1) by (auto simp: uses_def)
  show sl: "slack (insert f S) s' = slack S s"
    using fu(2) f(2) o by (auto simp: slack_def uses_def pt vp pg fun_eq_iff)
  show "vm_inv (insert f S) s'"
    using inv fu f(1) pm unfolding vm_inv_def pt vp sl by auto
qed

lemma kcopy_cell:
  assumes "p < 1048576" "i < 1024" "f < 1048576"
  shows "phys (kcopy (kva_of f) (kva_of k) PGSIZE s) (cell p i) =
     (if p = f then phys s (cell k i) else phys s (cell p i))"
proof -
  have "cell p i - page2pa f < PGSIZE \<longleftrightarrow> p = f"
    using assms by (simp only: in_page_iff PGNUM_cell)
  moreover have "page2pa k + (cell f i - page2pa f) = cell k i"
    by (simp add: cell_def page2pa_of_nat)
  ultimately show ?thesis by (simp add: kcopy_def kva_of_def)
qed

definition new_dir :: "nat \<Rightarrow> nat \<Rightarrow> kstate \<Rightarrow> kstate" where
  "new_dir e f s = set_cell f (unat (PDX UVPT)) (page2pa f OR PTE_P OR PTE_U)
     (kcopy (kva_of f) (kern_pgdir s) PGSIZE (upd_page f (\<lambda>q. q\<lparr>pp_ref := pp_ref q + 1\<rparr>)
       (upd_env e (\<lambda>v. v\<lparr>env_pgdir := kva_of f\<rparr>) (cleared f (unlinked f s)))))"

lemma new_dir_simps:
  "npages (new_dir e f s) = npages s" "kern_pgdir (new_dir e f s) = kern_pgdir s"
  "envs (new_dir e f s) = (envs s)(e := (envs s e)\<lparr>env_pgdir := kva_of f\<rparr>)"
  "env_free_list (new_dir e f s) = env_free_list s" "cpus (new_dir e f s) = cpus s"
  "this_cpu (new_dir e f s) = this_cpu s"
  by (simp_all add: new_dir_def kcopy_def upd_env_def cleared_def unlinked_def)

lemma env_setup_vm_new:
  assumes inv: "vm_inv S s" and fp: "free_pages s = f # fs"
  shows "env_setup_vm e s = Some (Inr (), new_dir e f s)"
proof -
  note pm = vm_inv_basic(1) [OF inv]
  have f: "f < npages s" "f < 65536" using pm fp vm_inv_basic(2) [OF inv] by (auto simp: pm_inv_def)
  have kv: "page2kva (cleared f (unlinked f s)) f = Some (kva_of f)"
    using f by (simp add: page2kva_def KADDR_def PGNUM_page2pa kva_of_def cleared_def unlinked_def)
  have al: "page_alloc ALLOC_ZERO s = Some (Some f, cleared f (unlinked f s))"
    using page_alloc_frame [OF pm fp, of 1] by simp
  have kp: "kern_pgdir (cleared f (unlinked f s)) = kern_pgdir s" by (simp add: cleared_def unlinked_def)
  show ?thesis
    unfolding env_setup_vm_def al using f
    by (simp add: kv PADDR_kva kva_of_cell kstore_cell new_dir_def kp)
qed

lemma new_dir_phys:
  assumes "f < 1048576" "p < 1048576" "i < 1024" "kern_pgdir s = kva_of k" "k \<noteq> f" "k < 1048576"
  shows "phys (new_dir e f s) (cell p i) =
     (if p = f then if i = unat (PDX UVPT) then page2pa f OR PTE_P OR PTE_U else phys s (cell k i)
      else phys s (cell p i))"
  using assms PDX_lt [of UVPT] by (simp add: new_dir_def phys_set_cell kcopy_cell) (simp add: cleared_def unlinked_def PGNUM_cell)

lemma new_dir_pages:
  assumes pm: "pm_inv s" and fp: "free_pages s = f # fs"
  shows "pages (new_dir e f s) p = (if p = f then (pages s f)\<lparr>pp_link := None, pp_ref := 1\<rparr> else pages s p)"
    "pm_inv (new_dir e f s)" "free_pages (new_dir e f s) = fs"
proof -
  have f0: "pp_ref (pages s f) = 0" using pm fp by (auto simp: pm_inv_def)
  then show "pages (new_dir e f s) p = (if p = f then (pages s f)\<lparr>pp_link := None, pp_ref := 1\<rparr> else pages s p)"
    by (simp add: new_dir_def kcopy_def cleared_def unlinked_def)
  let ?t = "cleared f (unlinked f s)"
  have t: "pm_inv ?t" "free_pages ?t = fs" using unlinked_inv [OF pm fp] by simp_all
  have nin: "f \<notin> set (free_pages ?t)" using t(2) pm_inv_distinct [OF pm] fp by simp
  have u: "pm_inv (upd_page f (\<lambda>p. p\<lparr>pp_ref := 1\<rparr>) ?t)" "free_pages (upd_page f (\<lambda>p. p\<lparr>pp_ref := 1\<rparr>) ?t) = fs"
    using upd_ref_inv [OF t(1) nin, of 1] t(2) by auto
  have c: "npages (new_dir e f s) = npages (upd_page f (\<lambda>p. p\<lparr>pp_ref := 1\<rparr>) ?t)"
    "pages (new_dir e f s) = pages (upd_page f (\<lambda>p. p\<lparr>pp_ref := 1\<rparr>) ?t)"
    "page_free_list (new_dir e f s) = page_free_list (upd_page f (\<lambda>p. p\<lparr>pp_ref := 1\<rparr>) ?t)"
    using f0 by (simp_all add: new_dir_def kcopy_def cleared_def unlinked_def)
  show "pm_inv (new_dir e f s)" "free_pages (new_dir e f s) = fs" using pm_inv_cong [OF c] u by simp_all
qed

text \<open>The fields \<open>env_alloc\<close> sets in the new environment.\<close>

definition fresh_env :: "u32 \<Rightarrow> nat \<Rightarrow> nat \<Rightarrow> Env \<Rightarrow> Env" where
  "fresh_env parent_id e f v = v\<lparr>env_pgdir := kva_of f, env_id := next_env_id (env_id v) e,
     env_parent_id := parent_id, env_type := ENV_TYPE_USER, env_status := ENV_RUNNABLE, env_runs := 0,
     env_tf := zero_tf\<lparr>tf_ds := GD_UD OR 3, tf_es := GD_UD OR 3, tf_ss := GD_UD OR 3,
       tf_esp := USTACKTOP, tf_cs := GD_UT OR 3, tf_eflags := FL_IF\<rparr>,
     env_pgfault_upcall := 0, env_ipc_recving := False\<rparr>"

lemma env_alloc_errors:
  assumes "kinv s"
  shows "free_envs s = [] \<Longrightarrow> env_alloc parent_id s = Some (Inl E_NO_FREE_ENV, s)"
    and "free_envs s \<noteq> [] \<Longrightarrow> free_pages s = [] \<Longrightarrow> env_alloc parent_id s = Some (Inl E_NO_MEM, s)"
proof -
  have ch: "chain (\<lambda>i. env_link (envs s i)) (env_free_list s) (free_envs s)" and pm: "pm_inv s"
    using assms by (auto simp: kinv_def env_inv_def vm_inv_def)
  show "env_alloc parent_id s = Some (Inl E_NO_FREE_ENV, s)" if "free_envs s = []"
    using ch that by (simp add: env_alloc_def)
  show "env_alloc parent_id s = Some (Inl E_NO_MEM, s)" if "free_envs s \<noteq> []" "free_pages s = []"
    using ch that page_alloc_empty [OF pm that(2)]
    by (cases "free_envs s") (simp_all add: env_alloc_def env_setup_vm_def)
qed

lemma env_alloc_new:
  assumes k: "kinv s" and fe: "free_envs s = e # es" and fp: "free_pages s = f # fs"
  shows "env_alloc parent_id s = Some (Inr e, (new_dir e f s)
     \<lparr>envs := (envs s)(e := fresh_env parent_id e f (envs s e)), env_free_list := env_link (envs s e)\<rparr>)"
proof -
  have hd: "env_free_list s = Some e"
    using k fe by (auto simp: kinv_def env_inv_def)
  have vm: "vm_inv (roots s) s" using k by (simp add: kinv_def)
  show ?thesis
    unfolding env_alloc_def hd using env_setup_vm_new [OF vm fp, of e]
    by (simp add: upd_env_def new_dir_simps fresh_env_def)
qed

lemma new_dir_vm:
  assumes k: "kinv s" and fp: "free_pages s = f # fs"
  shows "ptab (insert f (roots s)) (new_dir e f s) = ptab (roots s) s"
    "vmap (insert f (roots s)) (new_dir e f s) = vmap (roots s) s"
    "slack (insert f (roots s)) (new_dir e f s) = slack (roots s) s"
    "vm_inv (insert f (roots s)) (new_dir e f s)"
    "\<And>d. d < UPDE \<Longrightarrow> phys (new_dir e f s) (cell (kern_page s) d) = phys s (cell (kern_page s) d)"
    "\<And>pd. pd \<in> insert f (dirs s) \<Longrightarrow> upper_ok (new_dir e f s) pd"
proof -
  have vm: "vm_inv (roots s) s" and kd: "kern_dir s" using k by (simp_all add: kinv_def)
  note pm = vm_inv_basic(1) [OF vm]
  have f: "f < npages s" "f < 1048576" using pm fp vm_inv_basic(2) [OF vm] by (auto simp: pm_inv_def)
  have kk: "kern_pgdir s = kva_of (kern_page s)" "kern_page s \<noteq> f" "kern_page s < 1048576"
    using kd fp kinv_page_lt [OF k, of "kern_page s"] by (auto simp: kern_dir_def)
  note ph = new_dir_phys [OF f(2) _ _ kk]
  note pg = new_dir_pages [OF pm fp]
  have ab: "phys (new_dir e f s) (cell f d) AND PTE_P = 0" if "d < UPDE" for d
    using that kd f(2) ph by (simp add: kern_dir_def unat_PDX layout_defs)
  have ne: "phys (new_dir e f s) (cell p i) = phys s (cell p i)" if "p < 1048576" "i < 1024" "p \<noteq> f" for p i
    using that ph by simp
  show "ptab (insert f (roots s)) (new_dir e f s) = ptab (roots s) s"
    "vmap (insert f (roots s)) (new_dir e f s) = vmap (roots s) s"
    "slack (insert f (roots s)) (new_dir e f s) = slack (roots s) s"
    "vm_inv (insert f (roots s)) (new_dir e f s)"
    by (rule add_root [OF vm fp ne ab pg(1,2) new_dir_simps(1)]; assumption)+
  show "phys (new_dir e f s) (cell (kern_page s) d) = phys s (cell (kern_page s) d)" if "d < UPDE" for d
    using that kk by (intro ne) auto
  have ok: "upper_ok s pd" if "pd \<in> dirs s" for pd using k that by (simp add: kinv_def)
  show "upper_ok (new_dir e f s) pd" if pd: "pd \<in> insert f (dirs s)" for pd
  proof (cases "pd = f")
    case True
    have "upper_ok s (kern_page s)" by (rule ok) (simp add: dirs_def)
    moreover have "entry_page (page2pa f OR PTE_P OR PTE_U) = f"
      using PGNUM_entry(1) [OF f(2), of PTE_U] by simp
    ultimately show ?thesis
      using f ph [OF f(2)] unfolding True upper_ok_def new_dir_simps(1) by (auto split: if_splits)
  next
    case False
    with pd have pd': "pd \<in> dirs s" by simp
    have "upper_ok (new_dir e f s) pd = upper_ok s pd"
      using False kinv_dirs [OF k pd'] by (intro upper_ok_cong [OF new_dir_simps(1)] ne) auto
    with ok [OF pd'] show ?thesis by simp
  qed
qed

lemma pop_free_env:
  assumes ei: "env_inv s" and fe: "free_envs s = e # es"
  shows "e < NENV" "e \<notin> live_envs s" "env_free_list s = Some e"
    "chain (\<lambda>i. env_link (envs s i)) (env_link (envs s e)) es" "e \<notin> set es" "set es \<subseteq> {..<NENV}"
    "set es = {..<NENV} - insert e (live_envs s)"
proof -
  have c: "chain (\<lambda>i. env_link (envs s i)) (env_free_list s) (e # es)" "set (e # es) = {..<NENV} - live_envs s"
    using ei fe by (auto simp: env_inv_def)
  then have "distinct (e # es)" using chain_distinct by blast
  with c show "e < NENV" "e \<notin> live_envs s" "env_free_list s = Some e"
    "chain (\<lambda>i. env_link (envs s i)) (env_link (envs s e)) es" "e \<notin> set es" "set es \<subseteq> {..<NENV}"
    "set es = {..<NENV} - insert e (live_envs s)" by auto
qed

text \<open>The bookkeeping of environments when slot \<open>e\<close> becomes live with its directory in page \<open>f\<close>.\<close>

lemma enlist_env:
  assumes ei: "env_inv s" and fe: "free_envs s = e # es" and f: "f < 1048576" "f \<notin> roots s"
    and ev: "envs s' = (envs s)(e := fresh_env parent_id e f (envs s e))"
      "env_free_list s' = env_link (envs s e)"
  shows "env_inv s'" "live_envs s' = insert e (live_envs s)" "roots s' = insert f (roots s)" "pd_page s' e = f"
    "free_envs s' = es"
proof -
  note po = pop_free_env [OF ei fe]
  show lv: "live_envs s' = insert e (live_envs s)" using po(1) by (auto simp: live_envs_def ev fresh_env_def)
  have pp: "pd_page s' x = (if x = e then f else pd_page s x)" for x
    using f(1) by (simp add: pd_page_def ev fresh_env_def pd_page_kva)
  then show pe: "pd_page s' e = f" by simp
  have "pd_page s' ` live_envs s = pd_page s ` live_envs s"
    using po(2) by (intro image_cong) (auto simp: pp)
  then show "roots s' = insert f (roots s)" unfolding roots_def lv image_insert pe by (rule arg_cong)
  have ch: "chain (\<lambda>i. env_link (envs s' i)) (env_free_list s') es"
    unfolding ev(2) using po(4,5) by (subst chain_cong [of _ _ "\<lambda>i. env_link (envs s i)"]) (auto simp: ev)
  then show fl: "free_envs s' = es" using po(6) by (rule free_envsI)
  have "f \<notin> pd_page s ` live_envs s" using f(2) by (simp add: roots_def)
  then show "env_inv s'"
    using ei ch po(1,2,7) next_env_id_parts [OF po(1)] unfolding env_inv_def lv fl
    by (auto simp: pp ev inj_on_def fresh_env_def)
qed

text \<open>
  A successful \<open>env_alloc\<close> takes the first free slot and the first free page: the new environment is
  live with an empty address space, and the kernel invariant and all existing mappings are kept.
\<close>

lemma env_alloc_ok:
  assumes k: "kinv s" and fe: "free_envs s = e # es" and fp: "free_pages s = f # fs"
  obtains s' where "env_alloc parent_id s = Some (Inr e, s')" "kinv s'" "e \<notin> live_envs s"
    "live_envs s' = insert e (live_envs s)" "f \<notin> roots s" "roots s' = insert f (roots s)" "pd_page s' e = f"
    "envs s' = (envs s)(e := fresh_env parent_id e f (envs s e))"
    "vmap (roots s') s' = vmap (roots s) s" "slack (roots s') s' = slack (roots s) s"
    "free_envs s' = es" "free_pages s' = fs" "cpus s' = cpus s" "this_cpu s' = this_cpu s"
    "kern_page s' = kern_page s" "used (roots s') s' = insert f (used (roots s) s)"
    "\<And>p. p \<noteq> f \<Longrightarrow> pages s' p = pages s p"
proof -
  define s' where "s' = (new_dir e f s)
    \<lparr>envs := (envs s)(e := fresh_env parent_id e f (envs s e)), env_free_list := env_link (envs s e)\<rparr>"
  have ea: "env_alloc parent_id s = Some (Inr e, s')" using env_alloc_new [OF assms] by (simp add: s'_def)
  have vm: "vm_inv (roots s) s" and kd: "kern_dir s" and ei: "env_inv s" using k by (simp_all add: kinv_def)
  note pm = vm_inv_basic(1) [OF vm]
  have ff: "f \<in> set (free_pages s)" by (simp add: fp)
  note fu = free_unused [OF vm ff]
  have f: "f < 1048576" using pm ff vm_inv_basic(2) [OF vm] by (auto simp: pm_inv_def)
  have c: "phys s' = phys (new_dir e f s)" "pages s' = pages (new_dir e f s)"
    "page_free_list s' = page_free_list (new_dir e f s)" "npages s' = npages (new_dir e f s)"
    by (simp_all add: s'_def)
  note vc = vm_cong(1-4) [OF c, of "insert f (roots s)"] vm_cong(5) [OF c]
  note nd = new_dir_vm [OF k fp, where e = e] and pg = new_dir_pages [OF pm fp, of e]
  have ev: "envs s' = (envs s)(e := fresh_env parent_id e f (envs s e))" "env_free_list s' = env_link (envs s e)"
    "kern_pgdir s' = kern_pgdir s" "npages s' = npages s" "cpus s' = cpus s" "this_cpu s' = this_cpu s"
    by (simp_all add: s'_def new_dir_simps)
  note en = enlist_env [OF ei fe f fu(2) ev(1,2)]
  have kp: "kern_page s' = kern_page s" by (simp add: kern_page_def ev)
  have us: "used (roots s') s' = insert f (used (roots s) s)"
    unfolding en(3) using vc nd by (simp add: used_def vpage_cong [of "insert f (roots s)" s' "roots s" s])
  have "kern_page s \<notin> set (free_pages s')" using kd fp pg(3) vc(5) by (simp add: kern_dir_def)
  moreover have "kern_page s \<noteq> f" using kd fp by (auto simp: kern_dir_def)
  ultimately have "kern_dir s'"
    using kd nd(5) unfolding kern_dir_def kp ev(3,4) us by (simp add: c)
  moreover have "upper_ok s' pd" if "pd \<in> dirs s'" for pd
    using that nd(6) [of pd] ev(4) by (auto simp: upper_ok_def dirs_def en(3) kp c new_dir_simps)
  ultimately have "kinv s'" using en(1,3) vc(1) nd(4) by (simp add: kinv_def)
  then show thesis
    using that [OF ea _ pop_free_env(2) [OF ei fe] en(2) fu(2) en(3,4) ev(1)] vc nd pg en ev kp us
    by (simp add: c)
qed

end
