(* ===== verification/Jos_Example.thy ===== *)
theory Jos_Example
  imports Jos_Env_Life
begin

text \<open>
  A small concrete kernel state at which the properties are evaluated: eight physical pages and
  two environments. Environment 0 runs with its page directory in page 0 and one page (page 2,
  through the page table in page 3) mapped at \<open>UTEXT\<close>; environment 1 is its child, with an empty
  address space in page 1, blocked in \<open>sys_ipc_recv\<close>; \<open>kern_pgdir\<close> is page 4; pages 5, 6 and 7 are
  free.
\<close>

definition ex_env :: "u32 \<Rightarrow> u32 \<Rightarrow> u32 \<Rightarrow> u32 \<Rightarrow> nat option \<Rightarrow> Env" where
  "ex_env i parent st pgdir lnk = \<lparr>env_tf = zero_tf, env_link = lnk, env_id = i, env_parent_id = parent,
     env_type = ENV_TYPE_USER, env_status = st, env_runs = 0, env_cpunum = 0, env_pgdir = pgdir,
     env_pgfault_upcall = 0, env_ipc_recving = False, env_ipc_dstva = 0, env_ipc_value = 0,
     env_ipc_from = 0, env_ipc_perm = 0\<rparr>"

definition ex_console :: console where
  "ex_console = \<lparr>con_cons = \<lparr>cons_buf = (\<lambda>_. 0), cons_rpos = 0, cons_wpos = 0\<rparr>,
     con_kbd = \<lparr>kbd_in = [], kbd_shift = 0, kbd_reboots = 0\<rparr>, serial_in = [], serial_exists = True\<rparr>"

definition ex_nic :: e1000 where
  "ex_nic = \<lparr>tdh = 0, tdt = 0, tx_desc_array = (\<lambda>_. \<lparr>tx_addr = 0, tx_length = 0, tx_cmd = 0, tx_status = 1\<rparr>),
     tx_buffer_array = (\<lambda>_. 0), rdh = 0, rdt = 127,
     rx_desc_array = (\<lambda>i. \<lparr>rx_addr = 0, rx_length = (if i = 0 then 64 else 0), rx_status = (if i = 0 then 1 else 0), rx_errors = 0\<rparr>),
     rx_buffer_array = (\<lambda>_. 0), rx_next = 0\<rparr>"

definition ex_state :: kstate where
  "ex_state = \<lparr>npages = 8, npages_basemem = 8, kern_pgdir = kva_of 4,
     pages = (\<lambda>i. \<lparr>pp_link = (if i = 5 then Some 6 else if i = 6 then Some 7 else None),
                   pp_ref = (if i < 4 then 1 else 0)\<rparr>),
     page_free_list = Some 5,
     phys = (\<lambda>_. 0)(cell 0 2 := 0x3007, cell 3 0 := 0x2007),
     kern_end = 0xF0110000, nextfree = 0, mmio_base = MMIOBASE, user_mem_check_addr = 0,
     envs = (\<lambda>i. if i = 0 then ex_env 0x1000 0 ENV_RUNNING (kva_of 0) None
                 else if i = 1 then (ex_env 0x1001 0x1000 ENV_NOT_RUNNABLE (kva_of 1) None)
                   \<lparr>env_ipc_recving := True, env_ipc_dstva := 0x1000\<rparr>
                 else ex_env 0 0 ENV_FREE 0 (if i < 1023 then Some (Suc i) else None)),
     env_free_list = Some 2,
     cpus = (\<lambda>i. \<lparr>cpu_id = of_nat i, cpu_status = CPU_STARTED, cpu_env = (if i = 0 then Some 0 else None)\<rparr>),
     this_cpu = 0, kernel_locked = True, cr3 = 0, ticks = 0, con = ex_console,
     screen = \<lparr>crt_buf = (\<lambda>_. 0), crt_pos = 0, cursor_out = [], serial_out = [], lpt_out = []\<rparr>, nic = ex_nic, invlpg_log = []\<rparr>"

definition ex_roots :: "nat set" where
  "ex_roots = {0, 1}"

lemma ex_roots [simp]: "p \<in> ex_roots \<longleftrightarrow> p = 0 \<or> p = 1" "finite ex_roots"
  by (simp_all add: ex_roots_def)

lemma ex_chain: "chain (\<lambda>i. pp_link (pages ex_state i)) (page_free_list ex_state) [5, 6, 7]"
  by (simp add: ex_state_def)

lemma ex_free_pages: "free_pages ex_state = [5, 6, 7]"
  using follow_chain [OF ex_chain, of 8] by (simp add: free_pages_def ex_state_def)

lemma ex_pm_inv: "pm_inv ex_state"
  using ex_chain by (auto simp: pm_inv_def ex_free_pages) (auto simp: ex_state_def)

lemma ex_phys:
  "p < 1048576 \<Longrightarrow> i < 1024 \<Longrightarrow> phys ex_state (cell p i) =
     (if p = 0 \<and> i = 2 then 0x3007 else if p = 3 \<and> i = 0 then 0x2007 else 0)"
  by (simp add: ex_state_def cell_inj)

lemma ex_ptab: "ptab ex_roots ex_state = [(0, 2) \<mapsto> 3]"
proof (rule ext, clarify)
  fix pd d
  show "ptab ex_roots ex_state (pd, d) = [(0, 2) \<mapsto> 3] (pd, d)"
    by (auto simp: ptab_def ex_phys PGNUM_def drop_bit_eq_div split: if_splits)
qed

lemma ex_vmap: "vmap ex_roots ex_state = [(0, 2, 0) \<mapsto> 0x2007]"
proof (rule ext, clarify)
  fix pd d t
  show "vmap ex_roots ex_state (pd, d, t) = [(0, 2, 0) \<mapsto> 0x2007] (pd, d, t)"
    by (auto simp: vmap_def ex_ptab ex_phys split: if_splits)
qed

lemma ex_vpage: "vpage ex_roots ex_state = [(0, 2, 0) \<mapsto> 2]"
  by (rule ext) (simp add: vpage_def ex_vmap PGNUM_def drop_bit_eq_div)

lemma occ_single: "occ [k \<mapsto> v] p = (if p = v then 1 else 0)"
  using occ_upd [of Map.empty k "Some v" p] by (auto simp: occ_def)

lemma ex_slack: "slack ex_roots ex_state p = 0"
  proof -
  have "pp_ref (pages ex_state p) = (if p < 4 then 1 else 0)" by (simp add: ex_state_def)
  then show ?thesis by (auto simp: slack_def uses_def ex_ptab ex_vpage occ_single)
qed

lemma ex_vm_inv: "vm_inv ex_roots ex_state"
proof -
  have "npages ex_state = 8" by (simp add: ex_state_def)
  then show ?thesis using ex_pm_inv by (auto simp: vm_inv_def ex_slack ex_ptab ex_vpage inj_on_def)
qed

section \<open>The kernel invariant at the example\<close>

lemma ex_simps:
  "npages ex_state = 8" "kern_pgdir ex_state = kva_of 4" "env_free_list ex_state = Some 2"
  "envs ex_state 0 = ex_env 0x1000 0 ENV_RUNNING (kva_of 0) None"
  "envs ex_state (Suc 0) = (ex_env 0x1001 0x1000 ENV_NOT_RUNNABLE (kva_of 1) None)
     \<lparr>env_ipc_recving := True, env_ipc_dstva := 0x1000\<rparr>"
  "1 < i \<Longrightarrow> envs ex_state i = ex_env 0 0 ENV_FREE 0 (if i < 1023 then Some (Suc i) else None)"
  "curenv ex_state = Some 0" "this_cpu ex_state = 0"
  by (simp_all add: ex_state_def curenv_def)

lemma ex_live: "live_envs ex_state = {0, 1}"
proof -
  have "env_status (envs ex_state i) = (if i = 0 then ENV_RUNNING else if i = 1 then ENV_NOT_RUNNABLE else ENV_FREE)" for i
    by (cases "1 < i") (auto simp: ex_simps ex_env_def not_less le_Suc_eq)
  then show ?thesis by (auto simp: live_envs_def split: if_splits)
qed

lemma ex_pd: "pd_page ex_state 0 = 0" "pd_page ex_state (Suc 0) = Suc 0"
  using pd_page_kva [of 0] pd_page_kva [of 1] by (simp_all add: pd_page_def ex_simps ex_env_def)

lemma ex_roots_state: "roots ex_state = ex_roots"
  by (simp add: roots_def ex_live ex_pd ex_roots_def)

lemma ex_env_chain: "chain (\<lambda>i. env_link (envs ex_state i)) (env_free_list ex_state) [2..<1024]"
  unfolding ex_simps(3) by (rule chain_upt) (simp_all add: ex_simps ex_env_def)

lemma ex_free_envs: "free_envs ex_state = [2..<1024]"
  using ex_env_chain by (rule free_envsI) (unfold set_upt, auto)

lemma ex_kinv: "kinv ex_state"
proof -
  have "set [2..<1024] = {..<1024} - {0, 1::nat}" unfolding set_upt by auto
  moreover have "\<forall>e\<in>{0, 1}. env_pgdir (envs ex_state e) = kva_of (pd_page ex_state e) \<and>
      ENVX (env_id (envs ex_state e)) = e \<and> env_id (envs ex_state e) \<noteq> 0"
    by (simp add: ex_pd) (simp add: ex_simps ex_env_def ENVX_def)
  moreover have "inj_on (pd_page ex_state) {0, 1}" by (simp add: ex_pd)
  ultimately have "env_inv ex_state"
    unfolding env_inv_def ex_live ex_free_envs using ex_env_chain by (intro conjI)
  moreover have "kern_page ex_state = 4" using pd_page_kva [of 4] by (simp add: kern_page_def ex_simps)
  then have "kern_dir ex_state"
    by (simp add: kern_dir_def ex_simps ex_roots_state used_def ex_ptab ex_vpage ex_free_pages ex_phys)
  moreover have "upper_ok ex_state pd" if "pd < 8" for pd
    using that by (auto simp: upper_ok_def ex_phys)
  ultimately show ?thesis
    using ex_vm_inv \<open>kern_page ex_state = 4\<close> by (auto simp: kinv_def ex_roots_state dirs_def)
qed

end
