(* ===== verification/Jos_Properties.thy ===== *)
theory Jos_Properties
  imports Jos_Example
begin

text \<open>
  What the memory and environment management of JOS guarantees, stated over the definitions that
  model \<open>kern/pmap.c\<close> and \<open>kern/env.c\<close>. Each property with a hypothesis is followed by an instance at
  the example state.
\<close>

lemma PDX_user: "va < UTOP \<Longrightarrow> unat (PDX va) < UPDE"
  by (simp add: word_less_nat_alt unat_PDX layout_defs div_less_iff_less_mult)

section \<open>Address spaces\<close>

text \<open>
  C2. Inserting a mapping. For a user address, \<open>page_insert\<close> either fails with \<open>E_NO_MEM\<close>, changing
  nothing, exactly because a page table is needed and no page is free, or it sets this one mapping
  to the page with the permissions asked for: all other mappings of all address spaces stay, the
  memory invariant holds again, and for every page the reference count changes by as much as its
  number of uses.
\<close>

theorem page_insert_refines:
  assumes "vm_inv S s" "pd \<in> S" "va < UTOP" "mappable S s pp" "unat perm < 4096"
  shows "(page_insert (kva_of pd) pp va perm s = Some (Inl E_NO_MEM, s) \<and> free_pages s = [] \<and>
      ptab S s (pd, unat (PDX va)) = None) \<or>
    (\<exists>s'. page_insert (kva_of pd) pp va perm s = Some (Inr (), s') \<and> vm_inv S s' \<and>
      vmap S s' = (vmap S s)(va_key pd va := Some (page2pa pp OR perm OR PTE_P)) \<and>
      slack S s' = slack S s)"
  using page_insert_vm [OF assms(1,2) PDX_user [OF assms(3)] assms(4,5)]
  unfolding mapped_at_def by metis

lemma ex_mappable: "mappable ex_roots ex_state 2"
  by (auto simp: mappable_def ex_ptab ex_free_pages ex_simps) (simp add: ex_state_def)

theorem page_insert_refines_witness:
  "\<exists>s'. page_insert (kva_of 1) 2 0x1000 PTE_U ex_state = Some (Inr (), s') \<and> vm_inv ex_roots s' \<and>
     vmap ex_roots s' = (vmap ex_roots ex_state)((1, 0, 1) := Some 0x2005)"
  using page_insert_refines [of ex_roots ex_state 1 "0x1000" 2 PTE_U] ex_vm_inv ex_mappable
  by (auto simp: ex_free_pages layout_defs unat_PDX unat_PTX page2pa_of_nat)

text \<open>
  C5. Removing a mapping. \<open>page_remove\<close> on a user address never panics; it removes this mapping and
  no other, keeps the memory invariant, and the page it mapped joins the free list exactly when
  this was its last reference.
\<close>

theorem page_remove_refines:
  assumes "vm_inv S s" "pd \<in> S" "va < UTOP"
  shows "\<exists>s'. page_remove (kva_of pd) va s = Some s' \<and> vm_inv S s' \<and>
    vmap S s' = (vmap S s)(va_key pd va := None) \<and> slack S s' = slack S s \<and>
    free_pages s' = (case vpage S s (va_key pd va) of
        Some p \<Rightarrow> if pp_ref (pages s p) = 1 then p # free_pages s else free_pages s
      | None \<Rightarrow> free_pages s)"
  using page_remove_vm [OF assms(1,2) PDX_user [OF assms(3)]] by (auto simp: unmapped_def)

theorem page_remove_refines_witness:
  "\<exists>s'. page_remove (kva_of 0) 0x800000 ex_state = Some s' \<and> vmap ex_roots s' = Map.empty \<and>
     free_pages s' = [2, 5, 6, 7]"
proof -
  have "pp_ref (pages ex_state 2) = 1" by (simp add: ex_state_def)
  then show ?thesis
    using page_remove_refines [of ex_roots ex_state 0 "0x800000"] ex_vm_inv
    by (auto simp: layout_defs unat_PDX unat_PTX ex_vmap ex_vpage ex_free_pages)
qed



section \<open>User memory checks\<close>

text \<open>
  C12. \<open>user_mem_check\<close> is exact on ranges below \<open>UTOP\<close>: it accepts when every address of the range is
  mapped with the permissions asked for, and otherwise reports \<open>E_FAULT\<close> with
  \<open>user_mem_check_addr\<close> set to the first address of the range that is not.
\<close>

theorem user_mem_check_exact:
  assumes "vm_inv S s" "pd \<in> S" "unat va + unat n \<le> unat UTOP" "n \<noteq> 0"
  shows "\<exists>res s'. user_mem_check (kva_of pd) va n perm s = Some (res, s') \<and>
     (res = Inr () \<and> s' = s \<and> (\<forall>a. unat va \<le> unat a \<and> unat a < unat va + unat n \<longrightarrow> addr_ok S s pd perm a)
      \<or> res = Inl E_FAULT \<and> (\<exists>a. s' = s\<lparr>user_mem_check_addr := a\<rparr> \<and> unat va \<le> unat a \<and>
          unat a < unat va + unat n \<and> \<not> addr_ok S s pd perm a \<and>
          (\<forall>b. unat va \<le> unat b \<and> unat b < unat a \<longrightarrow> addr_ok S s pd perm b)))"
  using assms by (rule user_mem_check_ok)

theorem user_mem_check_exact_witness:
  "\<exists>s'. user_mem_check (kva_of 1) 0x1234 8 PTE_U ex_state = Some (Inl E_FAULT, s')"
proof -
  have "\<not> addr_ok ex_roots ex_state 1 PTE_U 0x1234" by (simp add: addr_ok_def ex_vmap)
  moreover have "unat (0x1234 :: u32) < unat (0x1234 :: u32) + unat (8 :: u32)" by simp
  ultimately show ?thesis
    using user_mem_check_exact [of ex_roots ex_state 1 "0x1234" 8 PTE_U] ex_vm_inv
    by (auto simp: layout_defs)
qed

text \<open>
  A range that wraps around the end of the address space is accepted without any page being
  looked at, whatever the page directory and the permissions: the loop bound is computed modulo
  \<open>2^32\<close> and lies below the start.
\<close>

theorem user_mem_check_wraps:
  assumes "4294967296 \<le> unat va + unat n" "unat va + unat n - 4294967296 \<le> unat va div 4096 * 4096"
  shows "user_mem_check pgdir va n perm s = Some (Inr (), s)"
  using assms by (rule user_mem_check_wrapped)

theorem user_mem_check_wraps_witness:
  "user_mem_check (kva_of 0) 0xF0100000 0x10000000 (PTE_P OR PTE_U) ex_state = Some (Inr (), ex_state)"
  by (rule user_mem_check_wraps) simp_all

end
