(* ===== verification/Jos_Sched.thy ===== *)
theory Jos_Sched
  imports Jos_Env_Life
begin

text \<open>
  The scheduler (\<open>kern/sched.c\<close>) and the destruction of environments with what follows it. Code that
  enters user mode, halts the processor or drops into the kernel monitor does not return to its
  caller: such a run ends in a \<open>kexit\<close>.
\<close>

section \<open>Operations\<close>

datatype kexit = Run nat | Halted | InMonitor

datatype 'a ctl = Ret 'a | Exit kexit

definition sched_halt :: "kstate \<Rightarrow> (kexit \<times> kstate) option" where
  "sched_halt s =
     (if list_ex (\<lambda>i. env_status (envs s i) = ENV_RUNNABLE \<or> env_status (envs s i) = ENV_RUNNING \<or>
            env_status (envs s i) = ENV_DYING) [0..<NENV]
      then do {
        let s = set_curenv None s;
        pa \<leftarrow> PADDR (kern_pgdir s);
        let c = this_cpu s;
        Some (Halted, s\<lparr>cr3 := pa, cpus := (cpus s)(c := (cpus s c)\<lparr>cpu_status := CPU_HALTED\<rparr>), kernel_locked := False\<rparr>)
      }
      else Some (InMonitor, s))"

text \<open>\<open>ENVX\<close> of an \<open>int32_t\<close> and the sum taken modulo \<open>NENV\<close>: the indices stay non-negative.\<close>

definition sched_start :: "kstate \<Rightarrow> nat" where
  "sched_start s = (case curenv s of None \<Rightarrow> 0 | Some e \<Rightarrow> ENVX (env_id (envs s e)))"

definition sched_pick :: "kstate \<Rightarrow> nat option" where
  "sched_pick s =
     find (\<lambda>e. env_status (envs s e) = ENV_RUNNABLE) (map (\<lambda>i. (sched_start s + i) mod NENV) [0..<NENV])"

definition sched_yield :: "kstate \<Rightarrow> (kexit \<times> kstate) option" where
  "sched_yield s =
     (case sched_pick s of
        Some e \<Rightarrow> do { s \<leftarrow> env_run e s; Some (Run e, s) }
      | None \<Rightarrow>
          let e = sched_start s
          in if env_status (envs s e) = ENV_RUNNING \<and> env_cpunum (envs s e) = of_nat (this_cpu s)
             then do { s \<leftarrow> env_run e s; Some (Run e, s) }
             else sched_halt s)"

definition env_destroy :: "nat \<Rightarrow> kstate \<Rightarrow> (unit ctl \<times> kstate) option" where
  "env_destroy e s =
     (if env_status (envs s e) = ENV_RUNNING \<and> curenv s \<noteq> Some e
      then Some (Ret (), upd_env e (\<lambda>v. v\<lparr>env_status := ENV_DYING\<rparr>) s)
      else do {
        s \<leftarrow> env_free e s;
        if curenv s = Some e
        then do { (x, s) \<leftarrow> sched_yield (set_curenv None s); Some (Exit x, s) }
        else Some (Ret (), s)
      })"

definition user_mem_assert :: "nat \<Rightarrow> u32 \<Rightarrow> u32 \<Rightarrow> u32 \<Rightarrow> kstate \<Rightarrow> (unit ctl \<times> kstate) option" where
  "user_mem_assert e va n perm s = do {
     (r, s) \<leftarrow> user_mem_check (env_pgdir (envs s e)) va n (perm OR PTE_U) s;
     case r of
       Inl _ \<Rightarrow> env_destroy e s
     | Inr _ \<Rightarrow> Some (Ret (), s)
   }"

section \<open>Steps that leave memory alone\<close>

text \<open>
  Memory, free lists and the identity of environments are the same; only statuses (between live
  ones), saved registers, IPC fields, CPU and device state may differ.
\<close>

definition same_space :: "kstate \<Rightarrow> kstate \<Rightarrow> bool" where
  "same_space s s' \<longleftrightarrow> phys s' = phys s \<and> pages s' = pages s \<and> page_free_list s' = page_free_list s \<and>
     npages s' = npages s \<and> kern_pgdir s' = kern_pgdir s \<and> env_free_list s' = env_free_list s \<and>
     (\<forall>i. env_pgdir (envs s' i) = env_pgdir (envs s i) \<and> env_id (envs s' i) = env_id (envs s i) \<and>
        env_link (envs s' i) = env_link (envs s i) \<and>
        (env_status (envs s' i) = ENV_FREE \<longleftrightarrow> env_status (envs s i) = ENV_FREE))"

lemma same_space_refl [simp]: "same_space s s"
  by (simp add: same_space_def)

lemma same_space_trans: "same_space s s1 \<Longrightarrow> same_space s1 s2 \<Longrightarrow> same_space s s2"
  by (simp add: same_space_def)

lemma same_space_inv:
  assumes "same_space s s'"
  shows "kinv s' = kinv s" "roots s' = roots s" "live_envs s' = live_envs s" "pd_page s' = pd_page s"
    "vmap S s' = vmap S s" "ptab S s' = ptab S s" "slack S s' = slack S s" "free_pages s' = free_pages s"
    "free_envs s' = free_envs s" "kern_page s' = kern_page s" "used S s' = used S s"
proof -
  have c: "phys s' = phys s" "pages s' = pages s" "page_free_list s' = page_free_list s" "npages s' = npages s"
    using assms by (simp_all add: same_space_def)
  show vm: "vmap S s' = vmap S s" "ptab S s' = ptab S s" "slack S s' = slack S s" "free_pages s' = free_pages s" for S
    using vm_cong [OF c] by simp_all
  show us: "used S s' = used S s" for S by (simp add: used_def vm vpage_cong [OF vm(1)])
  show lv: "live_envs s' = live_envs s" and pd: "pd_page s' = pd_page s"
    using assms by (simp_all add: same_space_def live_envs_def pd_page_def fun_eq_iff)
  then show rt: "roots s' = roots s" by (simp add: roots_def)
  show fe: "free_envs s' = free_envs s" using assms by (simp add: free_envs_def same_space_def)
  show kp: "kern_page s' = kern_page s" using assms by (simp add: kern_page_def same_space_def)
  have "env_inv s' = env_inv s" using assms by (simp add: env_inv_def lv pd fe) (simp add: same_space_def)
  moreover have "kern_dir s' = kern_dir s" using assms by (simp add: kern_dir_def kp rt us vm) (simp add: same_space_def)
  moreover have "upper_ok s' p = upper_ok s p" for p using c by (simp add: upper_ok_def)
  ultimately show "kinv s' = kinv s" using vm_cong(1) [OF c] by (simp add: kinv_def rt dirs_def kp)
qed

lemma same_space_upd_env:
  assumes "\<And>v. env_pgdir (f v) = env_pgdir v" "\<And>v. env_id (f v) = env_id v" "\<And>v. env_link (f v) = env_link v"
    "env_status (f (envs s e)) = ENV_FREE \<longleftrightarrow> env_status (envs s e) = ENV_FREE"
  shows "same_space s (upd_env e f s)"
  using assms by (auto simp: same_space_def)

lemma same_space_set_curenv: "same_space s (set_curenv c s)"
  by (simp add: same_space_def set_curenv_def)

lemma curenv_set_curenv [simp]: "curenv (set_curenv c s) = c" "envs (set_curenv c s) = envs s"
  "this_cpu (set_curenv c s) = this_cpu s" "kern_pgdir (set_curenv c s) = kern_pgdir s"
  by (simp_all add: curenv_def set_curenv_def)

lemma curenv_upd_env [simp]: "curenv (upd_env e f s) = curenv s"
  by (simp add: curenv_def)

lemma cur_ok_same: "same_space s s' \<Longrightarrow> curenv s' = curenv s \<Longrightarrow> cur_ok s' = cur_ok s"
  using same_space_inv(3) by (simp add: cur_ok_def)

section \<open>Running an environment\<close>

lemma env_run_ok:
  assumes k: "kinv s" and e: "e \<in> live_envs s" and c: "cur_ok s"
  obtains s' where "env_run e s = Some s'" "same_space s s'" "curenv s' = Some e"
    "env_status (envs s' e) = ENV_RUNNING" "cr3 s' = page2pa (pd_page s e)" "\<not> kernel_locked s'"
    "env_runs (envs s' e) = env_runs (envs s e) + 1" "this_cpu s' = this_cpu s"
    "\<And>x. x \<noteq> e \<Longrightarrow> env_status (envs s' x) =
       (if curenv s = Some x \<and> env_status (envs s x) = ENV_RUNNING then ENV_RUNNABLE else env_status (envs s x))"
proof -
  note l = kinv_live [OF k e]
  define s1 where "s1 = (case curenv s of None \<Rightarrow> s
     | Some c \<Rightarrow> if env_status (envs s c) = ENV_RUNNING then upd_env c (\<lambda>v. v\<lparr>env_status := ENV_RUNNABLE\<rparr>) s else s)"
  have s1: "same_space s s1"
    by (auto simp: s1_def intro!: same_space_upd_env split: option.split)
  have st: "env_status (envs s1 x) = (if curenv s = Some x \<and> env_status (envs s x) = ENV_RUNNING
      then ENV_RUNNABLE else env_status (envs s x))" "env_runs (envs s1 x) = env_runs (envs s x)"
      "env_pgdir (envs s1 x) = env_pgdir (envs s x)" "this_cpu s1 = this_cpu s" for x
    by (auto simp: s1_def split: option.split)
  define s2 where "s2 = upd_env e (\<lambda>v. v\<lparr>env_runs := env_runs v + 1\<rparr>)
     (upd_env e (\<lambda>v. v\<lparr>env_status := ENV_RUNNING\<rparr>) (set_curenv (Some e) s1))"
  define s3 where "s3 = upd_env e (\<lambda>v. v\<lparr>env_cpunum := of_nat (this_cpu s)\<rparr>)
     (s2\<lparr>cr3 := page2pa (pd_page s e), kernel_locked := False\<rparr>)"
  have ne: "env_status (envs s1 e) \<noteq> ENV_FREE" using e st by (simp add: live_envs_def)
  have s3: "same_space s s3"
    using s1 ne by (auto simp: s3_def s2_def same_space_def set_curenv_def)
  have "env_pgdir (envs s2 e) = kva_of (pd_page s e)" "this_cpu s2 = this_cpu s"
    using l(2) st by (simp_all add: s2_def)
  then have "env_run e s = Some s3"
    unfolding env_run_def s1_def [symmetric] using l(2,6) st(3,4)
    by (simp add: s2_def [symmetric] PADDR_kva s3_def Let_def)
  moreover have "curenv s3 = Some e" by (simp add: s3_def s2_def curenv_def set_curenv_def)
  moreover have "env_status (envs s3 e) = ENV_RUNNING" "cr3 s3 = page2pa (pd_page s e)" "\<not> kernel_locked s3"
    "env_runs (envs s3 e) = env_runs (envs s e) + 1" "this_cpu s3 = this_cpu s"
    using st by (simp_all add: s3_def s2_def) (simp_all add: upd_env_def)
  moreover have "env_status (envs s3 x) = env_status (envs s1 x)" if "x \<noteq> e" for x
    using that by (simp add: s3_def s2_def)
  ultimately show thesis using that [of s3] s3 st(1) by simp
qed

section \<open>Scheduling\<close>

lemma sched_start_lt: "sched_start s < NENV"
proof -
  have "ENVX x < 1024" for x
  proof -
    have "unat (x AND 0x3FF) = unat x mod 1024" by (simp add: mask_3ff unat_and_mask)
    then show ?thesis by (simp add: ENVX_def)
  qed
  then show ?thesis by (simp add: sched_start_def split: option.split)
qed

text \<open>The search visits every slot once, starting with the current one.\<close>

lemma sched_pick_cases:
  obtains (none) "sched_pick s = None" "\<forall>e < NENV. env_status (envs s e) \<noteq> ENV_RUNNABLE"
  | (some) i where "i < NENV" "sched_pick s = Some ((sched_start s + i) mod NENV)"
      "env_status (envs s ((sched_start s + i) mod NENV)) = ENV_RUNNABLE"
      "\<forall>j < i. env_status (envs s ((sched_start s + j) mod NENV)) \<noteq> ENV_RUNNABLE"
proof (cases "sched_pick s")
  case None
  have "env_status (envs s e) \<noteq> ENV_RUNNABLE" if "e < NENV" for e
  proof -
    have "(sched_start s + (e + NENV - sched_start s) mod NENV) mod NENV = (sched_start s + (e + NENV - sched_start s)) mod NENV"
      by (rule mod_add_right_eq)
    also have "\<dots> = e" using that sched_start_lt [of s] by simp
    finally have "e \<in> (\<lambda>i. (sched_start s + i) mod NENV) ` {0..<NENV}"
      by (intro image_eqI [of _ _ "(e + NENV - sched_start s) mod NENV"]) simp_all
    then show ?thesis using None by (auto simp: sched_pick_def find_None_iff)
  qed
  with None that(1) show ?thesis by blast
next
  case (Some e)
  then obtain i where "i < length (map (\<lambda>i. (sched_start s + i) mod NENV) [0..<NENV])"
    "env_status (envs s (map (\<lambda>i. (sched_start s + i) mod NENV) [0..<NENV] ! i)) = ENV_RUNNABLE"
    "e = map (\<lambda>i. (sched_start s + i) mod NENV) [0..<NENV] ! i"
    "\<forall>j<i. env_status (envs s (map (\<lambda>i. (sched_start s + i) mod NENV) [0..<NENV] ! j)) \<noteq> ENV_RUNNABLE"
    by (auto simp: sched_pick_def find_Some_iff)
  with Some show ?thesis by (intro that(2) [of i]) simp_all
qed


lemma sched_halt_ok:
  assumes "kinv s"
  obtains (halted) s' where "sched_halt s = Some (Halted, s')" "same_space s s'" "curenv s' = None"
      "this_cpu s' = this_cpu s"
  | (monitor) "sched_halt s = Some (InMonitor, s)" "\<forall>e < NENV. env_status (envs s e) = ENV_FREE \<or>
      env_status (envs s e) \<notin> {ENV_RUNNABLE, ENV_RUNNING, ENV_DYING}"
proof (cases "list_ex (\<lambda>i. env_status (envs s i) = ENV_RUNNABLE \<or> env_status (envs s i) = ENV_RUNNING \<or>
    env_status (envs s i) = ENV_DYING) [0..<NENV]")
  case True
  have "kern_page s < npages s" "kern_pgdir s = kva_of (kern_page s)"
    using assms by (simp_all add: kinv_def kern_dir_def)
  then have p: "PADDR (kern_pgdir s) = Some (page2pa (kern_page s))"
    using kinv_page_lt [OF assms] by (simp add: PADDR_kva)
  define s' where "s' = (set_curenv None s)\<lparr>cr3 := page2pa (kern_page s),
    cpus := (cpus (set_curenv None s))(this_cpu s := (cpus (set_curenv None s) (this_cpu s))\<lparr>cpu_status := CPU_HALTED\<rparr>),
    kernel_locked := False\<rparr>"
  have "sched_halt s = Some (Halted, s')" using True p by (simp add: sched_halt_def s'_def Let_def)
  moreover have "same_space s s'" by (simp add: s'_def same_space_def set_curenv_def)
  moreover have "curenv s' = None" "this_cpu s' = this_cpu s" by (simp_all add: s'_def curenv_def set_curenv_def)
  ultimately show ?thesis using that(1) by blast
next
  case False
  then have "sched_halt s = Some (InMonitor, s)" by (simp add: sched_halt_def)
  moreover have "\<forall>e < NENV. env_status (envs s e) \<notin> {ENV_RUNNABLE, ENV_RUNNING, ENV_DYING}"
    using False by (auto simp: list_ex_iff)
  ultimately show ?thesis using that(2) by blast
qed

text \<open>
  \<open>sched_yield\<close> always ends: in the first runnable environment after the current one in circular
  order, else in the current one if it still runs here, else with the processor halted or, when no
  environment can ever run again, in the monitor.
\<close>

lemma sched_yield_ok:
  assumes k: "kinv s" and c: "cur_ok s"
  obtains x s' where "sched_yield s = Some (x, s')" "same_space s s'" "cur_ok s'" "this_cpu s' = this_cpu s"
    "\<And>e. x = Run e \<Longrightarrow> e \<in> live_envs s \<and> curenv s' = Some e \<and> env_status (envs s' e) = ENV_RUNNING \<and>
       (sched_pick s = Some e \<or> sched_pick s = None \<and> e = sched_start s \<and> env_status (envs s e) = ENV_RUNNING)"
    "x = Halted \<Longrightarrow> sched_pick s = None \<and> curenv s' = None" "x = InMonitor \<Longrightarrow> sched_pick s = None \<and> s' = s"
proof (cases "sched_pick s")
  case (Some e)
  have "e < NENV" "env_status (envs s e) = ENV_RUNNABLE" using Some by (cases rule: sched_pick_cases [of s]; auto)+
  then have e: "e \<in> live_envs s" by (simp add: live_envs_def)
  obtain s' where s': "env_run e s = Some s'" "same_space s s'" "curenv s' = Some e"
    "env_status (envs s' e) = ENV_RUNNING" "this_cpu s' = this_cpu s"
    using env_run_ok [OF k e c] by blast
  have "cur_ok s'" using s'(3) e same_space_inv(3) [OF s'(2)] by (simp add: cur_ok_def)
  with s' Some e show ?thesis by (intro that [of "Run e" s']) (simp_all add: sched_yield_def)
next
  case None
  let ?e = "sched_start s"
  show ?thesis
  proof (cases "env_status (envs s ?e) = ENV_RUNNING \<and> env_cpunum (envs s ?e) = of_nat (this_cpu s)")
    case True
    then have e: "?e \<in> live_envs s" using sched_start_lt [of s] by (simp add: live_envs_def)
    obtain s' where s': "env_run ?e s = Some s'" "same_space s s'" "curenv s' = Some ?e" "this_cpu s' = this_cpu s"
      "env_status (envs s' ?e) = ENV_RUNNING"
      using env_run_ok [OF k e c] by blast
    have "cur_ok s'" using s'(3) e same_space_inv(3) [OF s'(2)] by (simp add: cur_ok_def)
    with s' None True e show ?thesis by (intro that [of "Run ?e" s']) (auto simp: sched_yield_def)
  next
    case False
    have y: "sched_yield s = sched_halt s" using None False by (auto simp: sched_yield_def Let_def)
    from k show ?thesis
    proof (cases rule: sched_halt_ok)
      case (halted s')
      then show ?thesis using y None by (intro that [of Halted s']) (simp_all add: cur_ok_def)
    next
      case monitor
      then show ?thesis using y None c by (intro that [of InMonitor s]) simp_all
    qed
  qed
qed

section \<open>Destroying environments\<close>

text \<open>What \<open>env_destroy\<close> and its callers leave behind: the invariant, and mappings only removed.\<close>

lemma env_destroy_ok:
  assumes k: "kinv s" and c: "cur_ok s" and e: "e \<in> live_envs s"
  obtains (dying) "env_destroy e s = Some (Ret (), upd_env e (\<lambda>v. v\<lparr>env_status := ENV_DYING\<rparr>) s)"
      "env_status (envs s e) = ENV_RUNNING" "curenv s \<noteq> Some e"
  | (freed) s' where "env_destroy e s = Some (Ret (), s')" "env_free e s = Some s'" "curenv s \<noteq> Some e" "kinv s'" "cur_ok s'"
  | (current) s1 x s' where "env_destroy e s = Some (Exit x, s')" "curenv s = Some e" "env_free e s = Some s1"
      "sched_yield (set_curenv None s1) = Some (x, s')" "kinv s'" "cur_ok s'"
proof (cases "env_status (envs s e) = ENV_RUNNING \<and> curenv s \<noteq> Some e")
  case True
  then show ?thesis by (intro that(1)) (simp_all add: env_destroy_def)
next
  case False
  obtain s1 where s1: "env_free e s = Some s1" "kinv s1" "live_envs s1 = live_envs s - {e}" "cpus s1 = cpus s"
    "this_cpu s1 = this_cpu s"
    using env_free_ok [OF k e] by metis
  have cu: "curenv s1 = curenv s" using s1 by (simp add: curenv_def)
  show ?thesis
  proof (cases "curenv s = Some e")
    case True
    have "kinv (set_curenv None s1)" "cur_ok (set_curenv None s1)"
      using s1(2) same_space_inv(1) [OF same_space_set_curenv] by (simp_all add: cur_ok_def)
    then obtain x s' where s': "sched_yield (set_curenv None s1) = Some (x, s')" "same_space (set_curenv None s1) s'" "cur_ok s'"
      using sched_yield_ok by metis
    moreover have "kinv s'"
      using \<open>kinv (set_curenv None s1)\<close> same_space_inv(1) [OF s'(2)] by simp
    ultimately show ?thesis
      using that(3) True s1(1) cu False by (simp add: env_destroy_def)
  next
    case ne: False
    have "cur_ok s1" using c cu s1(3) ne by (auto simp: cur_ok_def)
    moreover have "env_destroy e s = Some (Ret (), s1)"
      unfolding env_destroy_def using ne s1(1) cu False by simp
    ultimately show ?thesis using that(2) ne s1(1,2) by blast
  qed
qed

section \<open>Checking user memory\<close>

lemma walk_total:
  assumes k: "kinv s" and pd: "pd \<in> roots s"
  shows "pgdir_walk (kva_of pd) va False s \<noteq> None"
proof (cases "unat (PDX va) < UPDE")
  case True
  have vm: "vm_inv (roots s) s" using k by (simp add: kinv_def)
  then show ?thesis
    using walk_present [OF vm, of pd va] walk_absent [OF vm pd True]
    by (cases "ptab (roots s) s (pd, unat (PDX va))") auto
next
  case False
  let ?e = "phys s (cell pd (unat (PDX va)))"
  have up: "upper_ok s pd" and lt: "pd < 65536"
    using k pd kinv_dirs(1) [OF k] by (auto simp: kinv_def dirs_def)
  have "KADDR s (PTE_ADDR ?e) \<noteq> None" if "present ?e"
    using up [unfolded upper_ok_def, rule_format, of "unat (PDX va)"] that False PDX_lt [of va]
    by (simp add: KADDR_def PGNUM_PTE_ADDR)
  then show ?thesis
    using lt by (cases "present ?e") (auto simp: pgdir_walk_def Let_def kva_of_nonzero kva_of_cell kload_cell)
qed

lemma ROUNDUP_page: "\<exists>b < 1048576. ROUNDUP x PGSIZE = page_va b"
proof -
  let ?r = "ROUNDDOWN (x + 4095) PGSIZE"
  have "unat ?r = unat (x + 4095) div 4096 * 4096" by (rule unat_ROUNDDOWN)
  moreover have b: "unat (x + 4095) div 4096 < 1048576" using unat_less_32 [of "x + 4095"] by simp
  ultimately have "?r = page_va (unat (x + 4095) div 4096)"
    by (simp add: word_eq_unat unat_page_va del: of_nat_mult)
  moreover have "ROUNDUP x PGSIZE = ?r" by (simp add: ROUNDUP_def algebra_simps)
  ultimately show ?thesis using b by auto
qed

lemma user_mem_check_total:
  assumes k: "kinv s" and pd: "pd \<in> roots s"
  shows "user_mem_check (kva_of pd) va n perm s = Some (Inr (), s) \<or>
    (\<exists>a. user_mem_check (kva_of pd) va n perm s = Some (Inl E_FAULT, s\<lparr>user_mem_check_addr := a\<rparr>))"
proof -
  let ?a = "unat va div 4096"
  have a: "?a < 1048576" "ROUNDDOWN va PGSIZE = page_va ?a"
    using unat_less_32 [of va] by (simp, subst word_eq_unat, subst unat_ROUNDDOWN, subst unat_page_va) auto
  obtain b where b: "b < 1048576" "ROUNDUP (va + n) PGSIZE = page_va b" using ROUNDUP_page by blast
  show ?thesis
  proof (cases "?a \<le> b")
    case True
    then show ?thesis
      using user_mem_check_loop_find [OF True b(1), of "kva_of pd" s va perm] walk_total [OF k pd]
      by (auto simp: user_mem_check_def a b(2) split: option.split simp del: of_nat_mult)
  next
    case False
    then have "\<not> page_va ?a < page_va b"
      using a(1) b(1) by (simp add: word_less_nat_alt unat_page_va del: of_nat_mult)
    then show ?thesis
      by (simp add: user_mem_check_def a b(2) user_mem_check_loop.simps del: of_nat_mult)
  qed
qed

lemma user_mem_assert_ok:
  assumes k: "kinv s" and c: "cur_ok s" and e: "e \<in> live_envs s"
  obtains (passed) "user_mem_assert e va n perm s = Some (Ret (), s)"
  | (killed) s1 r s' where "same_space s s1" "curenv s1 = curenv s" "env_destroy e s1 = Some (r, s')"
      "user_mem_assert e va n perm s = Some (r, s')" "envs s1 = envs s"
proof -
  note l = kinv_live [OF k e]
  show ?thesis
    using user_mem_check_total [OF k l(1), of va n "perm OR PTE_U"]
  proof
    assume "user_mem_check (kva_of (pd_page s e)) va n (perm OR PTE_U) s = Some (Inr (), s)"
    then show ?thesis using l(2) by (intro that(1)) (simp add: user_mem_assert_def)
  next
    assume "\<exists>a. user_mem_check (kva_of (pd_page s e)) va n (perm OR PTE_U) s = Some (Inl E_FAULT, s\<lparr>user_mem_check_addr := a\<rparr>)"
    then obtain a where a: "user_mem_check (kva_of (pd_page s e)) va n (perm OR PTE_U) s =
        Some (Inl E_FAULT, s\<lparr>user_mem_check_addr := a\<rparr>)" by blast
    let ?s = "s\<lparr>user_mem_check_addr := a\<rparr>"
    have ss: "same_space s ?s" "curenv ?s = curenv s" by (simp_all add: same_space_def curenv_def)
    have k': "kinv ?s" "cur_ok ?s" "e \<in> live_envs ?s"
      using k c e same_space_inv(1,3) [OF ss(1)] cur_ok_same [OF ss] by simp_all
    from k' obtain r s' where "env_destroy e ?s = Some (r, s')"
      by (cases rule: env_destroy_ok) auto
    with a l(2) ss show ?thesis by (intro that(2) [of ?s]) (simp_all add: user_mem_assert_def)
  qed
qed

end
