(* ===== verification/Jos_Access.thy ===== *)
theory Jos_Access
  imports Jos_Pages
begin

text \<open>
  Memory accesses of kernel code through virtual addresses that are not in the direct mapping:
  pointers passed in by user programs. The address is translated as the processor does it, through
  the page directory \<open>cr3\<close> points to; a missing mapping, or a store through a read-only one
  (\<open>CR0_WP\<close> is set), is a page fault in the kernel, whose handler panics: \<^const>\<open>None\<close>.
\<close>

definition vtrans :: "kstate \<Rightarrow> bool \<Rightarrow> u32 \<Rightarrow> u32 option" where
  "vtrans s wr va =
     (let pde = phys s (cr3 s + 4 * PDX va)
      in if pde AND PTE_P = 0 then None
         else let pte = phys s (PTE_ADDR pde + 4 * PTX va)
              in if pte AND PTE_P = 0 then None
                 else if wr \<and> (pde AND PTE_W = 0 \<or> pte AND PTE_W = 0) then None
                 else Some (PTE_ADDR pte OR PGOFF va))"

text \<open>Bytes of the 32-bit cells of physical memory, little endian.\<close>

definition pbyte :: "kstate \<Rightarrow> u32 \<Rightarrow> u8" where
  "pbyte s pa = ucast (drop_bit (8 * unat (pa AND 3)) (phys s (pa AND NOT 3)))"

definition set_byte :: "nat \<Rightarrow> u8 \<Rightarrow> u32 \<Rightarrow> u32" where
  "set_byte k b w = (w AND NOT (push_bit (8 * k) 0xFF)) OR push_bit (8 * k) (ucast b)"

definition pstore8 :: "u32 \<Rightarrow> u8 \<Rightarrow> kstate \<Rightarrow> kstate" where
  "pstore8 pa b s = s\<lparr>phys := (phys s)(pa AND NOT 3 := set_byte (unat (pa AND 3)) b (phys s (pa AND NOT 3)))\<rparr>"

definition vload8 :: "kstate \<Rightarrow> u32 \<Rightarrow> u8 option" where
  "vload8 s va = map_option (pbyte s) (vtrans s False va)"

definition vstore8 :: "u32 \<Rightarrow> u8 \<Rightarrow> kstate \<Rightarrow> kstate option" where
  "vstore8 va b s = do { pa \<leftarrow> vtrans s True va; Some (pstore8 pa b s) }"

text \<open>\<open>memcpy\<close> from and to a virtual address, byte by byte upwards.\<close>

primrec vload_bytes :: "nat \<Rightarrow> u32 \<Rightarrow> kstate \<Rightarrow> u8 list option" where
  "vload_bytes 0 va s = Some []"
| "vload_bytes (Suc n) va s = do { b \<leftarrow> vload8 s va; bs \<leftarrow> vload_bytes n (va + 1) s; Some (b # bs) }"

primrec vstore_bytes :: "u8 list \<Rightarrow> u32 \<Rightarrow> kstate \<Rightarrow> kstate option" where
  "vstore_bytes [] va s = Some s"
| "vstore_bytes (b # bs) va s = do { s \<leftarrow> vstore8 va b s; vstore_bytes bs (va + 1) s }"

definition le_word :: "u8 list \<Rightarrow> u32" where
  "le_word bs = foldr (\<lambda>b w. ucast b OR push_bit 8 w) bs 0"

definition le_bytes :: "nat \<Rightarrow> u32 \<Rightarrow> u8 list" where
  "le_bytes n w = map (\<lambda>i. ucast (drop_bit (8 * i) w)) [0..<n]"

definition vload32 :: "kstate \<Rightarrow> u32 \<Rightarrow> u32 option" where
  "vload32 s va = map_option le_word (vload_bytes 4 va s)"

definition vload16 :: "kstate \<Rightarrow> u32 \<Rightarrow> u16 option" where
  "vload16 s va = map_option (\<lambda>bs. ucast (le_word bs)) (vload_bytes 2 va s)"

definition vstore32 :: "u32 \<Rightarrow> u32 \<Rightarrow> kstate \<Rightarrow> kstate option" where
  "vstore32 va w s = vstore_bytes (le_bytes 4 w) va s"

definition vstore16 :: "u32 \<Rightarrow> u16 \<Rightarrow> kstate \<Rightarrow> kstate option" where
  "vstore16 va w s = vstore_bytes (le_bytes 2 (ucast w)) va s"

section \<open>Structures in memory\<close>

definition load_regs :: "kstate \<Rightarrow> u32 \<Rightarrow> PushRegs option" where
  "load_regs s va = do {
     a \<leftarrow> vload32 s va; b \<leftarrow> vload32 s (va + 4); c \<leftarrow> vload32 s (va + 8); d \<leftarrow> vload32 s (va + 12);
     e \<leftarrow> vload32 s (va + 16); f \<leftarrow> vload32 s (va + 20); g \<leftarrow> vload32 s (va + 24); h \<leftarrow> vload32 s (va + 28);
     Some \<lparr>reg_edi = a, reg_esi = b, reg_ebp = c, reg_oesp = d, reg_ebx = e, reg_edx = f, reg_ecx = g, reg_eax = h\<rparr>
   }"

definition load_tf :: "kstate \<Rightarrow> u32 \<Rightarrow> Trapframe option" where
  "load_tf s va = do {
     regs \<leftarrow> load_regs s va;
     es \<leftarrow> vload16 s (va + 32); p1 \<leftarrow> vload16 s (va + 34); ds \<leftarrow> vload16 s (va + 36); p2 \<leftarrow> vload16 s (va + 38);
     trapno \<leftarrow> vload32 s (va + 40); err \<leftarrow> vload32 s (va + 44); eip \<leftarrow> vload32 s (va + 48);
     cs \<leftarrow> vload16 s (va + 52); p3 \<leftarrow> vload16 s (va + 54); eflags \<leftarrow> vload32 s (va + 56);
     esp \<leftarrow> vload32 s (va + 60); ss \<leftarrow> vload16 s (va + 64); p4 \<leftarrow> vload16 s (va + 66);
     Some \<lparr>tf_regs = regs, tf_es = es, tf_padding1 = p1, tf_ds = ds, tf_padding2 = p2, tf_trapno = trapno,
       tf_err = err, tf_eip = eip, tf_cs = cs, tf_padding3 = p3, tf_eflags = eflags, tf_esp = esp,
       tf_ss = ss, tf_padding4 = p4\<rparr>
   }"

definition store_regs :: "u32 \<Rightarrow> PushRegs \<Rightarrow> kstate \<Rightarrow> kstate option" where
  "store_regs va r s = do {
     s \<leftarrow> vstore32 va (reg_edi r) s; s \<leftarrow> vstore32 (va + 4) (reg_esi r) s;
     s \<leftarrow> vstore32 (va + 8) (reg_ebp r) s; s \<leftarrow> vstore32 (va + 12) (reg_oesp r) s;
     s \<leftarrow> vstore32 (va + 16) (reg_ebx r) s; s \<leftarrow> vstore32 (va + 20) (reg_edx r) s;
     s \<leftarrow> vstore32 (va + 24) (reg_ecx r) s; vstore32 (va + 28) (reg_eax r) s
   }"

end
