(* ===== verification/Jos_E1000.thy ===== *)
theory Jos_E1000
  imports Jos_Access
begin

text \<open>
  The network card driver (\<open>kern/e1000.c\<close>). Registers the driver only writes once at start-up are
  left out; the tail registers and the descriptors it works with are the fields of \<open>nic\<close>. What the
  card itself does to the rings is no part of the driver: it sets the DD bits.
\<close>

abbreviation (input) TXDESCS :: nat where "TXDESCS \<equiv> 32"
abbreviation (input) RXDESCS :: nat where "RXDESCS \<equiv> 128"
abbreviation (input) TX_PKT_SIZE :: nat where "TX_PKT_SIZE \<equiv> 1518"
abbreviation (input) RX_PKT_SIZE :: nat where "RX_PKT_SIZE \<equiv> 1518"
abbreviation (input) E1000_STAT_DD :: u8 where "E1000_STAT_DD \<equiv> 1"

text \<open>\<open>tx_pa\<close> and \<open>rx_pa\<close> are the physical addresses of the two buffer arrays.\<close>

definition e1000_transmit_init :: "u32 \<Rightarrow> e1000 \<Rightarrow> e1000" where
  "e1000_transmit_init tx_pa n =
     n\<lparr>tx_desc_array := (\<lambda>i. if i < TXDESCS
         then (tx_desc_array n i)\<lparr>tx_addr := tx_pa + of_nat (i * TX_PKT_SIZE), tx_cmd := 0,
                tx_status := tx_status (tx_desc_array n i) OR E1000_STAT_DD\<rparr>
         else tx_desc_array n i),
       tdh := 0, tdt := 0\<rparr>"

definition e1000_receive_init :: "u32 \<Rightarrow> e1000 \<Rightarrow> e1000" where
  "e1000_receive_init rx_pa n =
     n\<lparr>rx_desc_array := (\<lambda>i. if i < RXDESCS
         then (rx_desc_array n i)\<lparr>rx_addr := rx_pa + of_nat (i * RX_PKT_SIZE)\<rparr>
         else rx_desc_array n i),
       rdh := 0, rdt := 127\<rparr>"

text \<open>A \<open>memcpy\<close> into a flat byte array.\<close>

definition put_bytes :: "nat \<Rightarrow> u8 list \<Rightarrow> (nat \<Rightarrow> u8) \<Rightarrow> nat \<Rightarrow> u8" where
  "put_bytes off bs m = (\<lambda>i. if off \<le> i \<and> i < off + length bs then bs ! (i - off) else m i)"

text \<open>Results are the C return values: 0, or the negated error number.\<close>

definition e1000_transmit :: "u32 \<Rightarrow> u32 \<Rightarrow> kstate \<Rightarrow> (u32 \<times> kstate) option" where
  "e1000_transmit data len s =
     (let n = nic s; current = unat (tdt n); d = tx_desc_array n current
      in if tx_status d AND E1000_STAT_DD = 0 then Some (- 1, s)
         else do {
           let d = d\<lparr>tx_length := ucast len, tx_status := tx_status d AND NOT E1000_STAT_DD, tx_cmd := tx_cmd d OR 9\<rparr>;
           bs \<leftarrow> vload_bytes (unat len) data s;
           Some (0, s\<lparr>nic := n\<lparr>tx_desc_array := (tx_desc_array n)(current := d),
               tx_buffer_array := put_bytes (current * TX_PKT_SIZE) bs (tx_buffer_array n),
               tdt := of_nat ((current + 1) mod TXDESCS)\<rparr>\<rparr>)
         })"

definition e1000_receive :: "u32 \<Rightarrow> u32 \<Rightarrow> kstate \<Rightarrow> (u32 \<times> kstate) option" where
  "e1000_receive addr lenp s =
     (let n = nic s; nxt = rx_next n; d = rx_desc_array n nxt
      in if rx_status d AND E1000_STAT_DD = 0 then Some (- 2, s)
         else if rx_errors d \<noteq> 0 then Some (- 2, s)
         else do {
           s \<leftarrow> vstore32 lenp (ucast (rx_length d)) s;
           l \<leftarrow> vload32 s lenp;
           s \<leftarrow> vstore_bytes (map (\<lambda>i. rx_buffer_array n (nxt * RX_PKT_SIZE + i)) [0..<unat l]) addr s;
           Some (0, s\<lparr>nic := n\<lparr>rdt := of_nat ((unat (rdt n) + 1) mod RXDESCS), rx_next := (nxt + 1) mod RXDESCS\<rparr>\<rparr>)
         })"

end
