(* ===== verification/Jos_Syscall.thy ===== *)
theory Jos_Syscall
  imports Jos_Sched Jos_E1000
begin

text \<open>
  The system calls of JOS (\<open>kern/syscall.c\<close>) and their dispatcher. A system call returns a 32-bit
  value, errors as the negated error number, or does not return (\<open>Exit\<close>); \<^const>\<open>None\<close> is a kernel
  panic. Diagnostic messages printed by the kernel itself are left out; what \<open>sys_cputs\<close> prints
  goes to \<open>screen\<close>.
\<close>

definition serr :: "jos_error \<Rightarrow> u32" where
  "serr e = - errno e"

text \<open>
  The string conversion of \<open>vprintfmt\<close> for the format \<open>"%.*s"\<close>, with characters sent to the console:
  the next character is fetched before the precision is looked at.
\<close>

partial_function (option) print_str :: "int \<Rightarrow> u32 \<Rightarrow> kstate \<Rightarrow> kstate option" where
  "print_str prec p s = do {
     ch \<leftarrow> vload8 s p;
     if ch \<noteq> 0 \<and> (prec < 0 \<or> 0 \<le> prec - 1)
     then print_str (if prec < 0 then prec else prec - 1) (p + 1) (s\<lparr>screen := cons_putc (scast ch) (screen s)\<rparr>)
     else Some s
   }"

definition print_null :: "int \<Rightarrow> kstate \<Rightarrow> kstate" where
  "print_null prec s =
     (let cs = (if prec < 0 then ''(null)'' else take (nat prec) ''(null)'')
      in s\<lparr>screen := fold (\<lambda>c. cons_putc (of_char c)) cs (screen s)\<rparr>)"

definition sys_cputs :: "u32 \<Rightarrow> u32 \<Rightarrow> kstate \<Rightarrow> (unit ctl \<times> kstate) option" where
  "sys_cputs p len s = do {
     c \<leftarrow> curenv s;
     (r, s) \<leftarrow> user_mem_assert c p len (PTE_P OR PTE_U) s;
     case r of
       Exit x \<Rightarrow> Some (Exit x, s)
     | Ret _ \<Rightarrow> do {
         s \<leftarrow> (if p = 0 then Some (print_null (sint len) s) else print_str (sint len) p s);
         Some (Ret (), s)
       }
   }"

definition sys_cgetc :: "kstate \<Rightarrow> (u32 \<times> kstate) option" where
  "sys_cgetc s = do { (c, k) \<leftarrow> cons_getc (con s); Some (ucast c, s\<lparr>con := k\<rparr>) }"

definition sys_getenvid :: "kstate \<Rightarrow> u32 option" where
  "sys_getenvid s = do { c \<leftarrow> curenv s; Some (env_id (envs s c)) }"

text \<open>
  Most calls start by resolving an environment id and return its error; \<open>with_env\<close> is that prologue,
  with the error number the call returns. \<open>trap\<close> asserts that an environment is running before a
  system call is dispatched, so the pointer stored for id 0 is never NULL; a NULL pointer is taken
  as a fault here rather than where it would be dereferenced.
\<close>

definition with_env :: "u32 \<Rightarrow> bool \<Rightarrow> (nat \<Rightarrow> kstate \<Rightarrow> (u32 ctl \<times> kstate) option) \<Rightarrow> kstate \<Rightarrow> (u32 ctl \<times> kstate) option" where
  "with_env envid checkperm body s = do {
     r \<leftarrow> envid2env envid checkperm s;
     case r of
       Inl _ \<Rightarrow> Some (Ret (serr E_BAD_ENV), s)
     | Inr e \<Rightarrow> do { e \<leftarrow> e; body e s }
   }"

definition sys_env_destroy :: "u32 \<Rightarrow> kstate \<Rightarrow> (u32 ctl \<times> kstate) option" where
  "sys_env_destroy envid = with_env envid True (\<lambda>e s. do {
     (r, s) \<leftarrow> env_destroy e s;
     Some (case r of Exit x \<Rightarrow> Exit x | Ret _ \<Rightarrow> Ret 0, s)
   })"

definition sys_yield :: "kstate \<Rightarrow> (u32 ctl \<times> kstate) option" where
  "sys_yield s = do { (x, s) \<leftarrow> sched_yield s; Some (Exit x, s) }"

definition sys_exofork :: "kstate \<Rightarrow> (u32 ctl \<times> kstate) option" where
  "sys_exofork s = do {
     c \<leftarrow> curenv s;
     (r, s) \<leftarrow> env_alloc (env_id (envs s c)) s;
     case r of
       Inl err \<Rightarrow> Some (Ret (serr err), s)
     | Inr e \<Rightarrow> do {
         let s = upd_env e (\<lambda>v. v\<lparr>env_status := ENV_NOT_RUNNABLE\<rparr>) s;
         let s = upd_env e (\<lambda>v. v\<lparr>env_tf := env_tf (envs s c)\<rparr>) s;
         let s = upd_env e (\<lambda>v. v\<lparr>env_tf := (env_tf v)\<lparr>tf_regs := (tf_regs (env_tf v))\<lparr>reg_eax := 0\<rparr>\<rparr>\<rparr>) s;
         Some (Ret (env_id (envs s e)), s)
       }
   }"

definition sys_env_set_status :: "u32 \<Rightarrow> u32 \<Rightarrow> kstate \<Rightarrow> (u32 ctl \<times> kstate) option" where
  "sys_env_set_status envid status s =
     (if status \<noteq> ENV_RUNNABLE \<and> status \<noteq> ENV_NOT_RUNNABLE then Some (Ret (serr E_INVAL), s)
      else with_env envid True (\<lambda>e s. Some (Ret 0, upd_env e (\<lambda>v. v\<lparr>env_status := status\<rparr>) s)) s)"

definition sys_env_set_trapframe :: "u32 \<Rightarrow> u32 \<Rightarrow> kstate \<Rightarrow> (u32 ctl \<times> kstate) option" where
  "sys_env_set_trapframe envid tf = with_env envid True (\<lambda>e s. do {
     (r, s) \<leftarrow> user_mem_assert e tf 68 PTE_U s;
     case r of
       Exit x \<Rightarrow> Some (Exit x, s)
     | Ret _ \<Rightarrow> do {
         fl \<leftarrow> vload32 s (tf + 56);
         s \<leftarrow> vstore32 (tf + 56) (fl AND NOT FL_IOPL_MASK) s;
         fl \<leftarrow> vload32 s (tf + 56);
         s \<leftarrow> vstore32 (tf + 56) (fl OR FL_IF) s;
         cs \<leftarrow> vload16 s (tf + 52);
         s \<leftarrow> vstore16 (tf + 52) (cs OR GD_UT OR 3) s;
         t \<leftarrow> load_tf s tf;
         Some (Ret 0, upd_env e (\<lambda>v. v\<lparr>env_tf := t\<rparr>) s)
       }
   })"

definition sys_env_set_pgfault_upcall :: "u32 \<Rightarrow> u32 \<Rightarrow> kstate \<Rightarrow> (u32 ctl \<times> kstate) option" where
  "sys_env_set_pgfault_upcall envid func =
     with_env envid True (\<lambda>e s. Some (Ret 0, upd_env e (\<lambda>v. v\<lparr>env_pgfault_upcall := func\<rparr>) s))"

definition bad_va :: "u32 \<Rightarrow> bool" where
  "bad_va va \<longleftrightarrow> UTOP \<le> va \<or> PGOFF va \<noteq> 0"

definition bad_perm :: "u32 \<Rightarrow> bool" where
  "bad_perm perm \<longleftrightarrow> perm AND PTE_SYSCALL = 0 \<or> perm AND NOT PTE_SYSCALL \<noteq> 0"

definition sys_page_alloc :: "u32 \<Rightarrow> u32 \<Rightarrow> u32 \<Rightarrow> kstate \<Rightarrow> (u32 ctl \<times> kstate) option" where
  "sys_page_alloc envid va perm = with_env envid True (\<lambda>e s.
     if bad_va va then Some (Ret (serr E_INVAL), s)
     else if bad_perm perm then Some (Ret (serr E_INVAL), s)
     else do {
       (pp, s) \<leftarrow> page_alloc ALLOC_ZERO s;
       case pp of
         None \<Rightarrow> Some (Ret (serr E_NO_MEM), s)
       | Some pp \<Rightarrow> do {
           (r, s) \<leftarrow> page_insert (env_pgdir (envs s e)) pp va perm s;
           Some (case r of Inl _ \<Rightarrow> Ret (serr E_NO_MEM) | Inr _ \<Rightarrow> Ret 0, s)
         }
     })"

definition sys_page_map :: "u32 \<Rightarrow> u32 \<Rightarrow> u32 \<Rightarrow> u32 \<Rightarrow> u32 \<Rightarrow> kstate \<Rightarrow> (u32 ctl \<times> kstate) option" where
  "sys_page_map srcenvid srcva dstenvid dstva perm =
     with_env srcenvid True (\<lambda>se. with_env dstenvid True (\<lambda>de s.
     if bad_va srcva \<or> bad_va dstva then Some (Ret (serr E_INVAL), s)
     else if bad_perm perm then Some (Ret (serr E_INVAL), s)
     else do {
       l \<leftarrow> page_lookup (env_pgdir (envs s se)) srcva s;
       case l of
         None \<Rightarrow> Some (Ret (serr E_INVAL), s)
       | Some (pp, pte) \<Rightarrow>
           if perm AND PTE_W \<noteq> 0 \<and> kload s pte AND PTE_W = 0 then Some (Ret (serr E_INVAL), s)
           else do {
             (r, s) \<leftarrow> page_insert (env_pgdir (envs s de)) pp dstva perm s;
             Some (case r of Inl _ \<Rightarrow> Ret (serr E_NO_MEM) | Inr _ \<Rightarrow> Ret 0, s)
           }
     }))"

definition sys_page_unmap :: "u32 \<Rightarrow> u32 \<Rightarrow> kstate \<Rightarrow> (u32 ctl \<times> kstate) option" where
  "sys_page_unmap envid va = with_env envid True (\<lambda>e s.
     if bad_va va then Some (Ret (serr E_INVAL), s)
     else do { s \<leftarrow> page_remove (env_pgdir (envs s e)) va s; Some (Ret 0, s) })"

section \<open>Inter-process communication\<close>

text \<open>The assignments at the end of \<open>sys_ipc_try_send\<close>.\<close>

definition ipc_deliver :: "nat \<Rightarrow> u32 \<Rightarrow> u32 \<Rightarrow> kstate \<Rightarrow> kstate" where
  "ipc_deliver e from value = upd_env e (\<lambda>v. v\<lparr>env_ipc_from := from, env_ipc_recving := False,
     env_ipc_value := value, env_status := ENV_RUNNABLE,
     env_tf := (env_tf v)\<lparr>tf_regs := (tf_regs (env_tf v))\<lparr>reg_eax := 0\<rparr>\<rparr>\<rparr>)"

text \<open>
  The transfer of a page: \<open>Inl\<close> the value to return, or the state to deliver the message in.
\<close>

definition ipc_page :: "nat \<Rightarrow> nat \<Rightarrow> u32 \<Rightarrow> u32 \<Rightarrow> kstate \<Rightarrow> ((jos_error + unit) \<times> kstate) option" where
  "ipc_page c e srcva perm s =
     (if UTOP \<le> srcva then Some (Inr (), s)
      else if PGOFF srcva \<noteq> 0 then Some (Inl E_INVAL, s)
      else if perm AND PTE_P = 0 \<or> perm AND PTE_U = 0 then Some (Inl E_INVAL, s)
      else if perm AND NOT PTE_SYSCALL \<noteq> 0 then Some (Inl E_INVAL, s)
      else do {
        l \<leftarrow> page_lookup (env_pgdir (envs s c)) srcva s;
        case l of
          None \<Rightarrow> Some (Inl E_INVAL, s)
        | Some (pp, pte) \<Rightarrow>
            if perm AND PTE_W \<noteq> 0 \<and> kload s pte AND PTE_W = 0 then Some (Inl E_INVAL, s)
            else if env_ipc_dstva (envs s e) = 0 then Some (Inr (), s)
            else do {
              (r, s) \<leftarrow> page_insert (env_pgdir (envs s e)) pp (env_ipc_dstva (envs s e)) perm s;
              case r of
                Inl err \<Rightarrow> Some (Inl err, s)
              | Inr _ \<Rightarrow> Some (Inr (), upd_env e (\<lambda>v. v\<lparr>env_ipc_perm := perm\<rparr>) s)
            }
      })"

definition sys_ipc_try_send :: "u32 \<Rightarrow> u32 \<Rightarrow> u32 \<Rightarrow> u32 \<Rightarrow> kstate \<Rightarrow> (u32 ctl \<times> kstate) option" where
  "sys_ipc_try_send envid value srcva perm = with_env envid False (\<lambda>e s.
     if \<not> env_ipc_recving (envs s e) \<or> env_ipc_from (envs s e) \<noteq> 0 then Some (Ret (serr E_IPC_NOT_RECV), s)
     else do {
       c \<leftarrow> curenv s;
       (r, s) \<leftarrow> ipc_page c e srcva perm s;
       case r of
         Inl err \<Rightarrow> Some (Ret (serr err), s)
       | Inr _ \<Rightarrow> Some (Ret 0, ipc_deliver e (env_id (envs s c)) value s)
     })"

definition sys_ipc_recv :: "u32 \<Rightarrow> kstate \<Rightarrow> (u32 ctl \<times> kstate) option" where
  "sys_ipc_recv dstva s =
     (if dstva < UTOP \<and> PGOFF dstva \<noteq> 0 then Some (Ret (serr E_INVAL), s)
      else do {
        c \<leftarrow> curenv s;
        let s = upd_env c (\<lambda>v. v\<lparr>env_ipc_dstva := dstva, env_status := ENV_NOT_RUNNABLE,
              env_ipc_recving := True, env_ipc_from := 0\<rparr>) s;
        (x, s) \<leftarrow> sched_yield s;
        Some (Exit x, s)
      })"

section \<open>Clock and network\<close>

definition sys_time_msec :: "kstate \<Rightarrow> u32" where
  "sys_time_msec s = time_msec (ticks s)"

definition sys_pkt_send :: "u32 \<Rightarrow> u32 \<Rightarrow> kstate \<Rightarrow> (u32 \<times> kstate) option" where
  "sys_pkt_send data len s = e1000_transmit data len s"

definition sys_pkt_recv :: "u32 \<Rightarrow> u32 \<Rightarrow> kstate \<Rightarrow> (u32 \<times> kstate) option" where
  "sys_pkt_recv addr len s = e1000_receive addr len s"

section \<open>Dispatch\<close>

abbreviation (input) SYS_cputs :: u32 where "SYS_cputs \<equiv> 0"
abbreviation (input) SYS_cgetc :: u32 where "SYS_cgetc \<equiv> 1"
abbreviation (input) SYS_getenvid :: u32 where "SYS_getenvid \<equiv> 2"
abbreviation (input) SYS_env_destroy :: u32 where "SYS_env_destroy \<equiv> 3"
abbreviation (input) SYS_page_alloc :: u32 where "SYS_page_alloc \<equiv> 4"
abbreviation (input) SYS_page_map :: u32 where "SYS_page_map \<equiv> 5"
abbreviation (input) SYS_page_unmap :: u32 where "SYS_page_unmap \<equiv> 6"
abbreviation (input) SYS_exofork :: u32 where "SYS_exofork \<equiv> 7"
abbreviation (input) SYS_env_set_status :: u32 where "SYS_env_set_status \<equiv> 8"
abbreviation (input) SYS_env_set_trapframe :: u32 where "SYS_env_set_trapframe \<equiv> 9"
abbreviation (input) SYS_env_set_pgfault_upcall :: u32 where "SYS_env_set_pgfault_upcall \<equiv> 10"
abbreviation (input) SYS_yield :: u32 where "SYS_yield \<equiv> 11"
abbreviation (input) SYS_ipc_try_send :: u32 where "SYS_ipc_try_send \<equiv> 12"
abbreviation (input) SYS_ipc_recv :: u32 where "SYS_ipc_recv \<equiv> 13"
abbreviation (input) SYS_time_msec :: u32 where "SYS_time_msec \<equiv> 14"
abbreviation (input) SYS_pkt_send :: u32 where "SYS_pkt_send \<equiv> 15"
abbreviation (input) SYS_pkt_recv :: u32 where "SYS_pkt_recv \<equiv> 16"
abbreviation (input) NSYSCALLS :: u32 where "NSYSCALLS \<equiv> 17"

definition returns :: "(u32 \<times> kstate) option \<Rightarrow> (u32 ctl \<times> kstate) option" where
  "returns m = map_option (\<lambda>(v, s). (Ret v, s)) m"

text \<open>The case \<open>SYS_cputs\<close> has no \<open>break\<close> and runs on into \<open>SYS_cgetc\<close>.\<close>

definition syscall :: "u32 \<Rightarrow> u32 \<Rightarrow> u32 \<Rightarrow> u32 \<Rightarrow> u32 \<Rightarrow> u32 \<Rightarrow> kstate \<Rightarrow> (u32 ctl \<times> kstate) option" where
  "syscall no a1 a2 a3 a4 a5 s =
     (if no = SYS_cputs then do {
        (r, s) \<leftarrow> sys_cputs a1 a2 s;
        case r of Exit x \<Rightarrow> Some (Exit x, s) | Ret _ \<Rightarrow> returns (sys_cgetc s)
      }
      else if no = SYS_cgetc then returns (sys_cgetc s)
      else if no = SYS_getenvid then map_option (\<lambda>v. (Ret v, s)) (sys_getenvid s)
      else if no = SYS_env_destroy then do { c_assert (curenv s \<noteq> None); sys_env_destroy a1 s }
      else if no = SYS_page_alloc then sys_page_alloc a1 a2 a3 s
      else if no = SYS_page_map then sys_page_map a1 a2 a3 a4 a5 s
      else if no = SYS_page_unmap then sys_page_unmap a1 a2 s
      else if no = SYS_exofork then sys_exofork s
      else if no = SYS_env_set_status then sys_env_set_status a1 a2 s
      else if no = SYS_yield then sys_yield s
      else if no = SYS_env_set_pgfault_upcall then sys_env_set_pgfault_upcall a1 a2 s
      else if no = SYS_ipc_try_send then sys_ipc_try_send a1 a2 a3 a4 s
      else if no = SYS_ipc_recv then sys_ipc_recv a1 s
      else if no = SYS_env_set_trapframe then sys_env_set_trapframe a1 a2 s
      else if no = SYS_time_msec then Some (Ret (sys_time_msec s), s)
      else if no = SYS_pkt_send then returns (sys_pkt_send a1 a2 s)
      else if no = SYS_pkt_recv then returns (sys_pkt_recv a1 a2 s)
      else Some (Ret (serr E_INVAL), s))"

end
