(* ===== verification/Jos_Syscall_Cases.thy ===== *)
theory Jos_Syscall_Cases
  imports Jos_Syscall
begin

text \<open>
  What the memory system calls do, case by case: which errors they return and when, and the one
  mapping they change when they succeed. \<open>kernel_ok\<close> is the invariant in force whenever the kernel is
  entered; \<open>names_env\<close> and \<open>may_control\<close> say what \<open>envid2env\<close> decides.
\<close>

section \<open>Resolving environment ids\<close>

definition kernel_ok :: "kstate \<Rightarrow> bool" where
  "kernel_ok s \<longleftrightarrow> kinv s \<and> cur_ok s"

text \<open>\<open>e\<close> is the environment that \<open>envid\<close> names for the running environment \<open>c\<close>.\<close>

definition names_env :: "kstate \<Rightarrow> nat \<Rightarrow> u32 \<Rightarrow> nat \<Rightarrow> bool" where
  "names_env s c envid e \<longleftrightarrow> e \<in> live_envs s \<and> (if envid = 0 then e = c else env_id (envs s e) = envid)"

definition may_control :: "kstate \<Rightarrow> nat \<Rightarrow> nat \<Rightarrow> bool" where
  "may_control s c e \<longleftrightarrow> e = c \<or> env_parent_id (envs s e) = env_id (envs s c)"

lemma ENVX_lt: "ENVX x < NENV"
proof -
  have "unat (x AND 0x3FF) = unat x mod 1024" by (simp add: mask_3ff unat_and_mask)
  then show ?thesis by (simp add: ENVX_def)
qed

lemma envid2env_cases:
  assumes k: "kernel_ok s" and c: "curenv s = Some c"
  obtains (found) e where "envid2env envid cp s = Some (Inr (Some e))" "names_env s c envid e" "cp \<Longrightarrow> may_control s c e"
  | (bad) "envid2env envid cp s = Some (Inl E_BAD_ENV)" "\<And>e. names_env s c envid e \<Longrightarrow> cp \<and> \<not> may_control s c e"
proof -
  have cl: "c \<in> live_envs s" using k c by (simp add: kernel_ok_def cur_ok_def)
  show ?thesis
  proof (cases "envid = 0")
    case True
    with cl c show ?thesis by (intro that(1) [of c]) (simp_all add: envid2env_def names_env_def may_control_def)
  next
    case False
    define e where "e = ENVX envid"
    have u: "x = e" if "names_env s c envid x" for x
      using that False k kinv_live(4) [of s x] by (auto simp: names_env_def kernel_ok_def e_def)
    have nm: "env_status (envs s e) = ENV_FREE \<or> env_id (envs s e) \<noteq> envid \<longleftrightarrow> \<not> names_env s c envid e"
      using ENVX_lt [of envid] False by (simp add: names_env_def live_envs_def e_def)
    have "envid2env envid cp s = (if names_env s c envid e \<and> (cp \<longrightarrow> may_control s c e)
        then Some (Inr (Some e)) else Some (Inl E_BAD_ENV))"
      unfolding envid2env_def Let_def e_def [symmetric] nm c
      using False by (simp add: may_control_def)
    then show ?thesis using that(1) [of e] that(2) u by (metis (no_types))
  qed
qed

lemma with_env_cases:
  assumes k: "kernel_ok s" and c: "curenv s = Some c"
  obtains (found) e where "\<And>body. with_env envid cp body s = body e s" "names_env s c envid e" "cp \<Longrightarrow> may_control s c e"
  | (bad) "\<And>body. with_env envid cp body s = Some (Ret (serr E_BAD_ENV), s)"
      "\<And>e. names_env s c envid e \<Longrightarrow> cp \<and> \<not> may_control s c e"
  using k c
proof (cases rule: envid2env_cases [where envid = envid and cp = cp])
  case (found e)
  then show ?thesis using that(1) by (simp add: with_env_def)
next
  case bad
  then show ?thesis using that(2) by (simp add: with_env_def)
qed

lemma kernel_ok_same: "\<lbrakk>kernel_ok s; same_space s s'; curenv s' = curenv s\<rbrakk> \<Longrightarrow> kernel_ok s'"
  using same_space_inv(1) cur_ok_same by (simp add: kernel_ok_def)

section \<open>Allocating and mapping pages\<close>

lemma good_perm:
  assumes "perm AND NOT PTE_SYSCALL = 0"
  shows "unat perm < 4096"
proof -
  have "perm = (perm AND PTE_SYSCALL) OR (perm AND NOT PTE_SYSCALL)"
    by (simp only: bit.conj_disj_distrib [symmetric] bit.disj_cancel_right bit.conj_one_right)
  then have p: "perm AND PTE_SYSCALL = perm" using assms by simp
  have "perm AND PTE_SYSCALL \<le> PTE_SYSCALL" by (rule word_and_le1)
  then have "perm \<le> PTE_SYSCALL" unfolding p .
  then have "unat perm \<le> unat PTE_SYSCALL" by (simp add: word_le_nat_alt)
  then show ?thesis by (simp add: PTE_SYSCALL_def)
qed

lemma good_va:
  assumes "\<not> bad_va va"
  shows "unat (PDX va) < UPDE"
  using assms by (simp add: bad_va_def word_le_nat_alt unat_PDX layout_defs div_less_iff_less_mult)

text \<open>Only the directories and page tables matter for the mappings.\<close>

lemma tables_cong:
  assumes inv: "vm_inv S s"
    and ph: "\<And>p i. \<lbrakk>p < 1048576; i < 1024; p \<in> S \<or> p \<in> ran (ptab S s)\<rbrakk> \<Longrightarrow> phys s' (cell p i) = phys s (cell p i)"
  shows "ptab S s' = ptab S s" "vmap S s' = vmap S s"
proof -
  have lt: "\<And>p. p < npages s \<Longrightarrow> p < 1048576" using vm_inv_basic(2) [OF inv] by simp
  have e: "phys s' (cell pd d) = phys s (cell pd d)" if "pd \<in> S" "d < UPDE" for pd d
    using that vm_inv_root [OF inv that(1)] lt by (intro ph) auto
  show pt: "ptab S s' = ptab S s"
  proof (rule ext, clarify)
    fix pd d
    show "ptab S s' (pd, d) = ptab S s (pd, d)"
      by (cases "pd \<in> S \<and> d < UPDE") (auto simp: ptab_def e)
  qed
  have e2: "phys s' (cell q t) = phys s (cell q t)" if "ptab S s k = Some q" "t < 1024" for k q t
    using that vm_inv_ptab [OF inv that(1)] lt by (intro ph) (auto intro: ranI)
  show "vmap S s' = vmap S s"
    by (auto simp: fun_eq_iff vmap_def pt e2 split: option.split)
qed

text \<open>Taking a page off the free list.\<close>

lemma alloc_vm:
  assumes inv: "vm_inv S s" and fp: "free_pages s = f # fs"
  defines "s1 \<equiv> cleared f (unlinked f s)"
  shows "vm_inv S s1" "vmap S s1 = vmap S s" "ptab S s1 = ptab S s" "slack S s1 = slack S s"
    "free_pages s1 = fs" "env_part s1 = env_part s" "mappable S s1 f"
    "\<And>p i. \<lbrakk>p < 1048576; i < 1024; p \<noteq> f\<rbrakk> \<Longrightarrow> phys s1 (cell p i) = phys s (cell p i)"
    "\<And>p. pp_ref (pages s1 p) = pp_ref (pages s p)"
proof -
  note pm = vm_inv_basic(1) [OF inv]
  have ff: "f \<in> set (free_pages s)" by (simp add: fp)
  note fu = free_unused [OF inv ff]
  show ph: "phys s1 (cell p i) = phys s (cell p i)" if "p < 1048576" "i < 1024" "p \<noteq> f" for p i
    using that by (simp add: s1_def cleared_def unlinked_def PGNUM_cell)
  have "phys s1 (cell p i) = phys s (cell p i)" if "p < 1048576" "i < 1024" "p \<in> S \<or> p \<in> ran (ptab S s)" for p i
    using that fu(2,3) by (intro ph) auto
  note tc = tables_cong [OF inv this]
  show pt: "ptab S s1 = ptab S s" and vm: "vmap S s1 = vmap S s" by (rule tc; assumption)+
  note vp = vpage_cong [OF vm]
  show rf: "pp_ref (pages s1 p) = pp_ref (pages s p)" for p by (simp add: s1_def cleared_def unlinked_def)
  show sl: "slack S s1 = slack S s" by (intro ext) (simp add: slack_def uses_def pt vp rf)
  have pm1: "pm_inv s1" and fs1: "free_pages s1 = fs" using unlinked_inv [OF pm fp] by (simp_all add: s1_def)
  show "free_pages s1 = fs" by (rule fs1)
  show ep: "env_part s1 = env_part s" by (simp add: s1_def)
  show "vm_inv S s1" using inv pm1 env_partD [OF ep] by (simp add: vm_inv_def pt vp sl)
  have "f < npages s" "pp_ref (pages s f) = 0" using pm ff by (auto simp: pm_inv_def)
  then show "mappable S s1 f"
    using fu env_partD [OF ep] fs1 pm_inv_distinct [OF pm] fp by (simp add: mappable_def pt rf)
qed

lemma kinv_alloc:
  assumes k: "kinv s" and fp: "free_pages s = f # fs"
  shows "kinv (cleared f (unlinked f s))" "f \<noteq> kern_page s"
proof -
  let ?s = "cleared f (unlinked f s)"
  have vm: "vm_inv (roots s) s" and kd: "kern_dir s" using k by (simp_all add: kinv_def)
  note al = alloc_vm [OF vm fp]
  note r = env_part_roots [OF al(6)]
  have np: "npages ?s = npages s" using al(6) by (rule env_partD [THEN conjunct1])
  show kf: "f \<noteq> kern_page s" using kd fp by (auto simp: kern_dir_def)
  have us: "used (roots s) ?s = used (roots s) s" by (simp add: used_def al(2,3) vpage_cong [OF al(2)])
  have kl: "kern_page s < 1048576" using kinv_dirs(1) [OF k, of "kern_page s"] by (simp add: dirs_def)
  have "\<forall>d < UPDE. phys ?s (cell (kern_page s) d) AND PTE_P = 0"
    using kd al(8) [OF kl] kf by (simp add: kern_dir_def)
  then have "kern_dir ?s"
    using kd fp unfolding kern_dir_def r np us al(5) by simp
  moreover have "upper_ok ?s x" if x: "x \<in> dirs s" for x
  proof -
    note d = kinv_dirs [OF k x]
    have "x \<noteq> f" using d(3) fp by auto
    then have "upper_ok ?s x = upper_ok s x" using d(1) al(8) by (intro upper_ok_cong [OF np]) auto
    then show ?thesis using k x by (simp add: kinv_def)
  qed
  ultimately show "kinv ?s" using k al(1) by (simp add: kinv_def r dirs_def)
qed

section \<open>Mapping pages for an environment\<close>

lemma insert_for_env:
  assumes k: "kinv s" and c: "cur_ok s" and e: "e \<in> live_envs s" and va: "unat (PDX va) < UPDE"
    and pp: "mappable (roots s) s pp" "pp \<noteq> kern_page s" and perm: "unat perm < 4096"
  obtains (no_mem) "page_insert (env_pgdir (envs s e)) pp va perm s = Some (Inl E_NO_MEM, s)"
      "free_pages s = []" "ptab (roots s) s (pd_page s e, unat (PDX va)) = None"
  | (inserted) s' where "page_insert (env_pgdir (envs s e)) pp va perm s = Some (Inr (), s')"
      "mapped_at (roots s) (pd_page s e) va pp perm s s'" "kinv s'" "cur_ok s'" "env_part s' = env_part s"
proof -
  note l = kinv_live [OF k e]
  have vm: "vm_inv (roots s) s" using k by (simp add: kinv_def)
  show ?thesis
    using vm l(1) va pp(1) perm
  proof (cases rule: page_insert_vm)
    case no_mem
    then show ?thesis using that(1) l(2) by simp
  next
    case (inserted s')
    have "pp < 1048576" using pp(1) kinv_page_lt [OF k, of pp] by (simp add: mappable_def)
    then have "entry_page (page2pa pp OR perm OR PTE_P) = pp" using perm by (rule PGNUM_entry(1))
    then have ks: "kinv s'" using kinv_mapped [OF k inserted(2) pp(2)] by simp
    have ep: "env_part s' = env_part s" using inserted(2) by (simp add: mapped_at_def)
    have "cur_ok s'" using c env_part_roots(7) [OF ep] by simp
    with inserted ks ep that(2) l(2) show ?thesis by simp
  qed
qed

lemma sys_page_alloc_cases:
  assumes k: "kernel_ok s" and c: "curenv s = Some c"
  obtains (bad_env) "sys_page_alloc envid va perm s = Some (Ret (serr E_BAD_ENV), s)"
      "\<And>e. names_env s c envid e \<Longrightarrow> \<not> may_control s c e"
  | (inval) "sys_page_alloc envid va perm s = Some (Ret (serr E_INVAL), s)" "bad_va va \<or> bad_perm perm"
  | (no_mem) "sys_page_alloc envid va perm s = Some (Ret (serr E_NO_MEM), s)" "free_pages s = []"
  | (leak) e f where "sys_page_alloc envid va perm s = Some (Ret (serr E_NO_MEM), cleared f (unlinked f s))"
      "free_pages s = [f]" "names_env s c envid e" "may_control s c e" "\<not> bad_va va" "\<not> bad_perm perm"
      "ptab (roots s) s (pd_page s e, unat (PDX va)) = None"
  | (mapped) e f fs s' where "sys_page_alloc envid va perm s = Some (Ret 0, s')" "free_pages s = f # fs"
      "names_env s c envid e" "may_control s c e" "\<not> bad_va va" "\<not> bad_perm perm"
      "mapped_at (roots s) (pd_page s e) va f perm (cleared f (unlinked f s)) s'"
      "kernel_ok s'" "env_part s' = env_part s"
  using k c
proof (cases rule: with_env_cases [where envid = envid and cp = True])
  case bad
  then show ?thesis using that(1) by (simp add: sys_page_alloc_def)
next
  case (found e)
  show ?thesis
  proof (cases "bad_va va \<or> bad_perm perm")
    case True
    then show ?thesis using found(1) by (intro that(2)) (auto simp: sys_page_alloc_def)
  next
    case False
    have ks: "kinv s" "cur_ok s" using k by (simp_all add: kernel_ok_def)
    have vm: "vm_inv (roots s) s" using ks by (simp add: kinv_def)
    note pm = vm_inv_basic(1) [OF vm]
    show ?thesis
    proof (cases "free_pages s")
      case Nil
      then show ?thesis using found(1) False page_alloc_empty [OF pm Nil]
        by (intro that(3)) (simp_all add: sys_page_alloc_def)
    next
      case (Cons p fs)
      define s1 where "s1 = cleared p (unlinked p s)"
      have pa: "page_alloc ALLOC_ZERO s = Some (Some p, s1)"
        using page_alloc_frame [OF pm Cons, of ALLOC_ZERO] by (simp add: s1_def)
      note al = alloc_vm [OF vm Cons, folded s1_def]
      note r = env_part_roots [OF al(6)]
      have el: "e \<in> live_envs s1" using found(2) by (simp add: names_env_def r)
      have perm: "unat perm < 4096" using False by (intro good_perm) (simp add: bad_perm_def)
      have k1: "kinv s1" "cur_ok s1" "p \<noteq> kern_page s1"
        using kinv_alloc [OF ks(1) Cons] ks(2) by (simp_all add: s1_def [symmetric] r)
      have mp: "mappable (roots s1) s1 p" using al(7) by (simp add: r)
      have va: "unat (PDX va) < UPDE" using False good_va by simp
      from k1(1,2) el va mp k1(3) perm show ?thesis
      proof (cases rule: insert_for_env)
        case no_mem
        then show ?thesis
          using found False pa al(3,5) Cons
          by (intro that(4) [of p e]) (simp_all add: sys_page_alloc_def s1_def [symmetric] r)
      next
        case (inserted s')
        then have "env_part s' = env_part s" "kernel_ok s'" using al(6) by (simp_all add: kernel_ok_def)
        then show ?thesis
          using found False pa Cons inserted
          by (intro that(5) [of s' p fs e]) (simp_all add: sys_page_alloc_def s1_def [symmetric] r)
      qed
    qed
  qed
qed

lemma vmap_pte: "vmap S s (va_key pd va) = Some w \<Longrightarrow>
    kload s (cell (the (ptab S s (pd, unat (PDX va)))) (unat (PTX va)) + KERNBASE) = w"
  by (auto simp: vmap_def kload_cell split: option.splits if_splits)

text \<open>A page some environment has mapped can be mapped again while its count does not overflow.\<close>

lemma mapped_mappable:
  assumes k: "kinv s" and w: "vmap (roots s) s key = Some w" and rf: "pp_ref (pages s (entry_page w)) \<noteq> 65535"
  shows "mappable (roots s) s (entry_page w)" "entry_page w \<noteq> kern_page s"
proof -
  have vm: "vm_inv (roots s) s" and kd: "kern_dir s" using k by (simp_all add: kinv_def)
  have v: "vpage (roots s) s key = Some (entry_page w)" using w by (simp add: vpage_def)
  then have r: "entry_page w \<in> ran (vpage (roots s) s)" by (rule ranI)
  then have "entry_page w \<notin> set (free_pages s)" using free_unused(4) [OF vm, of "entry_page w"] by auto
  with r vm rf show "mappable (roots s) s (entry_page w)" by (auto simp: mappable_def vm_inv_def)
  show "entry_page w \<noteq> kern_page s" using r kd by (auto simp: kern_dir_def used_def)
qed

lemma lookup_for_env:
  assumes k: "kinv s" and e: "e \<in> live_envs s" and va: "unat (PDX va) < UPDE"
  obtains (none) "page_lookup (env_pgdir (envs s e)) va s = Some None" "vmap (roots s) s (va_key (pd_page s e) va) = None"
  | (some) w pte where "page_lookup (env_pgdir (envs s e)) va s = Some (Some (entry_page w, pte))"
      "vmap (roots s) s (va_key (pd_page s e) va) = Some w" "kload s pte = w"
proof -
  note l = kinv_live [OF k e]
  have vm: "vm_inv (roots s) s" using k by (simp add: kinv_def)
  note pl = page_lookup_vm [OF vm l(1) va]
  show ?thesis
  proof (cases "vmap (roots s) s (va_key (pd_page s e) va)")
    case None
    then show ?thesis using pl that(1) l(2) by simp
  next
    case (Some w)
    then show ?thesis using pl that(2) vmap_pte [OF Some] l(2) by simp
  qed
qed

lemma sys_page_map_cases:
  assumes k: "kernel_ok s" and c: "curenv s = Some c"
    and rf: "\<forall>p \<in> ran (vpage (roots s) s). pp_ref (pages s p) \<noteq> 65535"
  obtains (bad_env) "sys_page_map srcenvid srcva dstenvid dstva perm s = Some (Ret (serr E_BAD_ENV), s)"
      "\<And>e e'. \<lbrakk>names_env s c srcenvid e; names_env s c dstenvid e'\<rbrakk> \<Longrightarrow> \<not> (may_control s c e \<and> may_control s c e')"
  | (inval) "sys_page_map srcenvid srcva dstenvid dstva perm s = Some (Ret (serr E_INVAL), s)"
  | (no_mem) "sys_page_map srcenvid srcva dstenvid dstva perm s = Some (Ret (serr E_NO_MEM), s)" "free_pages s = []"
  | (mapped) se de w s' where "sys_page_map srcenvid srcva dstenvid dstva perm s = Some (Ret 0, s')"
      "names_env s c srcenvid se" "may_control s c se" "names_env s c dstenvid de" "may_control s c de"
      "\<not> bad_va srcva" "\<not> bad_va dstva" "\<not> bad_perm perm" "vmap (roots s) s (va_key (pd_page s se) srcva) = Some w"
      "perm AND PTE_W \<noteq> 0 \<Longrightarrow> w AND PTE_W \<noteq> 0"
      "mapped_at (roots s) (pd_page s de) dstva (entry_page w) perm s s'" "kernel_ok s'" "env_part s' = env_part s"
  using k c
proof (cases rule: with_env_cases [where envid = srcenvid and cp = True])
  case bad
  then show ?thesis using that(1) by (simp add: sys_page_map_def)
next
  case (found se)
  note src = found
  have ks: "kinv s" "cur_ok s" using k by (simp_all add: kernel_ok_def)
  from k c show ?thesis
  proof (cases rule: with_env_cases [where envid = dstenvid and cp = True])
    case bad
    then show ?thesis using src by (intro that(1)) (auto simp: sys_page_map_def)
  next
    case (found de)
    note we = src(1) found(1)
    show ?thesis
    proof (cases "bad_va srcva \<or> bad_va dstva \<or> bad_perm perm")
      case True
      then show ?thesis by (intro that(2)) (auto simp: sys_page_map_def we)
    next
      case False
      have va: "unat (PDX srcva) < UPDE" "unat (PDX dstva) < UPDE" using False good_va by simp_all
      have perm: "unat perm < 4096" using False by (intro good_perm) (simp add: bad_perm_def)
      have el: "se \<in> live_envs s" "de \<in> live_envs s" using src(2) found(2) by (simp_all add: names_env_def)
      from ks(1) el(1) va(1) show ?thesis
      proof (cases rule: lookup_for_env)
        case none
        then show ?thesis using False by (intro that(2)) (simp add: sys_page_map_def we)
      next
        case (some w pte)
        have "vpage (roots s) s (va_key (pd_page s se) srcva) = Some (entry_page w)"
          using some(2) by (simp add: vpage_def)
        then have rfw: "pp_ref (pages s (entry_page w)) \<noteq> 65535" using rf ranI by fast
        show ?thesis
        proof (cases "perm AND PTE_W \<noteq> 0 \<and> w AND PTE_W = 0")
          case True
          then show ?thesis using False some by (intro that(2)) (simp add: sys_page_map_def we)
        next
          case w: False
          from ks el(2) va(2) mapped_mappable [OF ks(1) some(2) rfw] perm show ?thesis
          proof (cases rule: insert_for_env)
            case no_mem
            then show ?thesis using False some w by (intro that(3)) (auto simp: sys_page_map_def we)
          next
            case (inserted s')
            then have "sys_page_map srcenvid srcva dstenvid dstva perm s = Some (Ret 0, s')"
              using False some w by (auto simp: sys_page_map_def we)
            moreover have "kernel_ok s'" using inserted by (simp add: kernel_ok_def)
            ultimately show ?thesis
              using False some(2) w inserted(2,5) src(2,3) found(2,3) by (intro that(4) [of s' se de w]) simp_all
          qed
        qed
      qed
    qed
  qed
qed

lemma sys_page_unmap_cases:
  assumes k: "kernel_ok s" and c: "curenv s = Some c"
  obtains (bad_env) "sys_page_unmap envid va s = Some (Ret (serr E_BAD_ENV), s)"
      "\<And>e. names_env s c envid e \<Longrightarrow> \<not> may_control s c e"
  | (inval) "sys_page_unmap envid va s = Some (Ret (serr E_INVAL), s)" "bad_va va"
  | (unmapped) e s' where "sys_page_unmap envid va s = Some (Ret 0, s')" "names_env s c envid e" "may_control s c e"
      "\<not> bad_va va" "unmapped (roots s) (pd_page s e) va s s'" "kernel_ok s'" "env_part s' = env_part s"
  using k c
proof (cases rule: with_env_cases [where envid = envid and cp = True])
  case bad
  then show ?thesis using that(1) by (simp add: sys_page_unmap_def)
next
  case (found e)
  have ks: "kinv s" "cur_ok s" using k by (simp_all add: kernel_ok_def)
  show ?thesis
  proof (cases "bad_va va")
    case True
    then show ?thesis using found(1) by (intro that(2)) (simp_all add: sys_page_unmap_def)
  next
    case False
    have el: "e \<in> live_envs s" using found(2) by (simp add: names_env_def)
    note l = kinv_live [OF ks(1) el]
    have vm: "vm_inv (roots s) s" using ks by (simp add: kinv_def)
    obtain s' where s': "page_remove (kva_of (pd_page s e)) va s = Some s'" "unmapped (roots s) (pd_page s e) va s s'"
      using page_remove_vm [OF vm l(1) good_va [OF False]] by blast
    have ep: "env_part s' = env_part s" using s'(2) by (simp add: unmapped_def)
    have "kinv s'" using kinv_shrink [OF ks(1) unmapped_shrink [OF vm s'(2)]] .
    then have "kernel_ok s'" using ks(2) env_part_roots(7) [OF ep] by (simp add: kernel_ok_def)
    then show ?thesis using False found s' ep l(2) by (intro that(3) [of s' e]) (simp_all add: sys_page_unmap_def)
  qed
qed

end
