(* ===== verification/Jos_Syscall_Safe.thy ===== *)
theory Jos_Syscall_Safe
  imports Jos_Syscall_Cases
begin

text \<open>
  No system call outside \<open>copies_user_memory\<close> panics or breaks the kernel invariant, and none changes
  the registers, the identity or the address space of an environment out of its scope.
\<close>

section \<open>What a call leaves alone\<close>

text \<open>
  The part of an environment that scheduling does not change: everything but its status, its run
  count, the CPU it runs on and its link.
\<close>

definition env_core :: "Env \<Rightarrow> Env" where
  "env_core v = v\<lparr>env_status := 0, env_runs := 0, env_cpunum := 0, env_link := None\<rparr>"

definition untouched :: "kstate \<Rightarrow> kstate \<Rightarrow> nat \<Rightarrow> bool" where
  "untouched s s' x \<longleftrightarrow> x \<in> live_envs s' \<and> env_core (envs s' x) = env_core (envs s x) \<and>
     (\<forall>d t. vmap (roots s') s' (pd_page s x, d, t) = vmap (roots s) s (pd_page s x, d, t))"

lemma env_coreD: "env_core v = env_core w \<Longrightarrow> env_pgdir v = env_pgdir w \<and> env_tf v = env_tf w \<and>
    env_id v = env_id w \<and> env_parent_id v = env_parent_id w"
  by (cases v, cases w) (simp add: env_core_def)

lemma env_core_upd [simp]: "env_core (v\<lparr>env_status := a\<rparr>) = env_core v" "env_core (v\<lparr>env_runs := b\<rparr>) = env_core v"
  "env_core (v\<lparr>env_cpunum := b\<rparr>) = env_core v" "env_core (v\<lparr>env_link := l\<rparr>) = env_core v"
  by (simp_all add: env_core_def)

lemma untouched_refl [simp]: "x \<in> live_envs s \<Longrightarrow> untouched s s x"
  by (simp add: untouched_def)

lemma untouched_trans: "untouched s s1 x \<Longrightarrow> untouched s1 s2 x \<Longrightarrow> untouched s s2 x"
  using env_coreD [of "envs s1 x" "envs s x"] by (auto simp: untouched_def pd_page_def)

lemma untouched_same:
  "\<lbrakk>same_space s s'; x \<in> live_envs s; env_core (envs s' x) = env_core (envs s x)\<rbrakk> \<Longrightarrow> untouched s s' x"
  using same_space_inv [of s s'] by (simp add: untouched_def)

lemma untouched_part:
  assumes "env_part s' = env_part s" "x \<in> live_envs s"
    "\<And>d t. vmap (roots s) s' (pd_page s x, d, t) = vmap (roots s) s (pd_page s x, d, t)"
  shows "untouched s s' x"
  using assms env_part_roots [OF assms(1)] env_partD [OF assms(1)] by (simp add: untouched_def)

lemma untouched_mapped:
  assumes k: "kinv s" and m: "mapped_at (roots s) (pd_page s e) va p perm s s'"
    and x: "x \<in> live_envs s" "x \<noteq> e" and e: "e \<in> live_envs s"
  shows "untouched s s' x"
proof -
  have "pd_page s x \<noteq> pd_page s e" using k x e by (auto simp: kinv_def env_inv_def inj_on_def)
  then show ?thesis using m x(1) by (intro untouched_part) (auto simp: mapped_at_def)
qed

section \<open>Scheduling keeps the core\<close>

lemma env_run_core: "env_run e s = Some s' \<Longrightarrow> env_core (envs s' x) = env_core (envs s x)"
  by (auto simp: env_run_def Let_def upd_env_def split: option.splits bind_splits)

lemma sched_yield_core:
  assumes "sched_yield s = Some (r, s')"
  shows "env_core (envs s' x) = env_core (envs s x)"
proof -
  have h: "sched_halt s = Some (r, s') \<Longrightarrow> ?thesis"
    by (auto simp: sched_halt_def Let_def split: bind_splits if_splits)
  show ?thesis
    using assms h env_run_core by (auto simp: sched_yield_def Let_def split: option.splits bind_splits if_splits)
qed

lemma yield_untouched:
  assumes k: "kernel_ok s"
  obtains r s' where "sched_yield s = Some (r, s')" "kernel_ok s'" "\<And>x. x \<in> live_envs s \<Longrightarrow> untouched s s' x"
    "same_space s s'"
proof -
  obtain r s' where s': "sched_yield s = Some (r, s')" "same_space s s'" "cur_ok s'"
    using k sched_yield_ok [of s] by (metis kernel_ok_def)
  moreover have "kernel_ok s'" using k s' same_space_inv(1) by (simp add: kernel_ok_def)
  ultimately show thesis using that sched_yield_core untouched_same by metis
qed

lemma env_free_untouched:
  assumes k: "kinv s" and e: "e \<in> live_envs s"
  obtains s' where "env_free e s = Some s'" "kinv s'" "live_envs s' = live_envs s - {e}" "curenv s' = curenv s"
    "\<And>x. \<lbrakk>x \<in> live_envs s; x \<noteq> e\<rbrakk> \<Longrightarrow> untouched s s' x"
proof -
  obtain s' where s': "env_free e s = Some s'" "kinv s'" "live_envs s' = live_envs s - {e}"
    "\<forall>x. x \<noteq> e \<longrightarrow> envs s' x = envs s x" "vmap (roots s') s' = vmap (roots s) s |` {k. fst k \<noteq> pd_page s e}"
    "cpus s' = cpus s" "this_cpu s' = this_cpu s"
    using env_free_ok [OF k e] by metis
  have "untouched s s' x" if x: "x \<in> live_envs s" "x \<noteq> e" for x
  proof -
    have "pd_page s x \<noteq> pd_page s e" using k x e by (auto simp: kinv_def env_inv_def inj_on_def)
    then show ?thesis using x s' by (simp add: untouched_def)
  qed
  with s' show thesis using that by (simp add: curenv_def)
qed

lemma destroy_untouched:
  assumes k: "kernel_ok s" and e: "e \<in> live_envs s"
  obtains r s' where "env_destroy e s = Some (r, s')" "kernel_ok s'" "\<And>x. \<lbrakk>x \<in> live_envs s; x \<noteq> e\<rbrakk> \<Longrightarrow> untouched s s' x"
proof (cases "env_status (envs s e) = ENV_RUNNING \<and> curenv s \<noteq> Some e")
  case True
  let ?s = "upd_env e (\<lambda>v. v\<lparr>env_status := ENV_DYING\<rparr>) s"
  have ss: "same_space s ?s" using True by (intro same_space_upd_env) simp_all
  have "kernel_ok ?s" using k ss by (rule kernel_ok_same) simp
  moreover have "untouched s ?s x" if "x \<in> live_envs s" for x using that by (intro untouched_same [OF ss]) simp_all
  ultimately show ?thesis using True by (intro that [of "Ret ()" ?s]) (simp_all add: env_destroy_def)
next
  case False
  have ks: "kinv s" "cur_ok s" using k by (simp_all add: kernel_ok_def)
  obtain s1 where s1: "env_free e s = Some s1" "kinv s1" "live_envs s1 = live_envs s - {e}" "curenv s1 = curenv s"
    "\<And>x. \<lbrakk>x \<in> live_envs s; x \<noteq> e\<rbrakk> \<Longrightarrow> untouched s s1 x"
    using env_free_untouched [OF ks(1) e] by metis
  show ?thesis
  proof (cases "curenv s = Some e")
    case True
    let ?s = "set_curenv None s1"
    have ss: "same_space s1 ?s" by (rule same_space_set_curenv)
    have k2: "kernel_ok ?s" using s1(2) same_space_inv(1) [OF ss] by (simp add: kernel_ok_def cur_ok_def)
    obtain r s' where s': "sched_yield ?s = Some (r, s')" "kernel_ok s'" "\<And>x. x \<in> live_envs ?s \<Longrightarrow> untouched ?s s' x"
      using yield_untouched [OF k2] by metis
    have "untouched s s' x" if x: "x \<in> live_envs s" "x \<noteq> e" for x
    proof -
      have "x \<in> live_envs s1" using x s1(3) by simp
      then have "untouched s1 ?s x" "x \<in> live_envs ?s" using same_space_inv(3) [OF ss] by (auto intro: untouched_same [OF ss])
      with s1(5) [OF x] s'(3) show ?thesis by (blast intro: untouched_trans)
    qed
    with s' True s1(1,4) False show ?thesis by (intro that [of "Exit r" s']) (simp_all add: env_destroy_def)
  next
    case ne: False
    have "kernel_ok s1" using s1 ks ne by (auto simp: kernel_ok_def cur_ok_def)
    with s1 ne False show ?thesis by (intro that [of "Ret ()" s1]) (auto simp: env_destroy_def)
  qed
qed

section \<open>The calls\<close>

text \<open>
  The outcome of a call made by \<open>c\<close>: it does not panic, the kernel invariant holds again, and
  every environment outside \<open>T\<close> keeps its registers, identity and address space.
\<close>

definition call_ok :: "nat set \<Rightarrow> kstate \<Rightarrow> (u32 ctl \<times> kstate) option \<Rightarrow> bool" where
  "call_ok T s m \<longleftrightarrow> (\<exists>r s'. m = Some (r, s') \<and> kernel_ok s' \<and> (\<forall>x \<in> live_envs s - T. untouched s s' x))"

lemma call_okI: "\<lbrakk>m = Some (r, s'); kernel_ok s'; \<And>x. \<lbrakk>x \<in> live_envs s; x \<notin> T\<rbrakk> \<Longrightarrow> untouched s s' x\<rbrakk> \<Longrightarrow> call_ok T s m"
  by (auto simp: call_ok_def)

lemma call_ok_unchanged: "kernel_ok s \<Longrightarrow> m = Some (r, s) \<Longrightarrow> call_ok T s m"
  by (rule call_okI [of m r s]) simp_all

lemma call_ok_same:
  assumes "kernel_ok s" "m = Some (r, s')" "same_space s s'" "curenv s' = curenv s"
    "\<And>x. x \<notin> T \<Longrightarrow> env_core (envs s' x) = env_core (envs s x)"
  shows "call_ok T s m"
  using assms by (auto intro!: call_okI untouched_same intro: kernel_ok_same)

definition controlled :: "kstate \<Rightarrow> nat \<Rightarrow> nat set" where
  "controlled s c = {e \<in> live_envs s. may_control s c e}"

lemma with_env_ok:
  assumes k: "kernel_ok s" and c: "curenv s = Some c"
    and b: "\<And>e. e \<in> controlled s c \<Longrightarrow> call_ok (controlled s c) s (body e s)"
  shows "call_ok (controlled s c) s (with_env envid True body s)"
  using k c
proof (cases rule: with_env_cases [where envid = envid and cp = True])
  case (found e)
  then show ?thesis using b [of e] by (simp add: controlled_def names_env_def)
next
  case bad
  then show ?thesis using call_ok_unchanged [OF k] by simp
qed

lemma upd_env_ok:
  assumes k: "kernel_ok s" and e: "e \<in> T"
    and f: "\<And>v. env_pgdir (f v) = env_pgdir v" "\<And>v. env_id (f v) = env_id v" "\<And>v. env_link (f v) = env_link v"
      "env_status (f (envs s e)) = ENV_FREE \<longleftrightarrow> env_status (envs s e) = ENV_FREE"
  shows "call_ok T s (Some (r, upd_env e f s))"
  by (rule call_ok_same [OF k refl same_space_upd_env [OF f]]) (use e in auto)

lemma sys_page_alloc_ok:
  assumes k: "kernel_ok s" and c: "curenv s = Some c"
  shows "call_ok (controlled s c) s (sys_page_alloc envid va perm s)"
  using k c
proof (cases rule: sys_page_alloc_cases [where envid = envid and va = va and perm = perm])
  case (leak e f)
  have ks: "kinv s" "cur_ok s" using k by (simp_all add: kernel_ok_def)
  have vm: "vm_inv (roots s) s" using ks by (simp add: kinv_def)
  note al = alloc_vm [OF vm leak(2)]
  have "kernel_ok (cleared f (unlinked f s))"
    using kinv_alloc(1) [OF ks(1) leak(2)] ks(2) env_part_roots(7) [OF al(6)] by (simp add: kernel_ok_def)
  then show ?thesis using leak(1) al(2,6) by (intro call_okI [of _ _ "cleared f (unlinked f s)"] untouched_part) simp_all
next
  case (mapped e f fs s')
  have ks: "kinv s" using k by (simp add: kernel_ok_def)
  have vm: "vm_inv (roots s) s" using ks by (simp add: kinv_def)
  note al = alloc_vm [OF vm mapped(2)]
  have el: "e \<in> live_envs s" using mapped(3) by (simp add: names_env_def)
  have "untouched s s' x" if x: "x \<in> live_envs s" "x \<notin> controlled s c" for x
  proof -
    have "x \<noteq> e" using x mapped(4) el by (auto simp: controlled_def)
    then have "pd_page s x \<noteq> pd_page s e" using ks x(1) el by (auto simp: kinv_def env_inv_def inj_on_def)
    then show ?thesis using mapped(7,9) al(2) x(1) by (intro untouched_part) (auto simp: mapped_at_def)
  qed
  then show ?thesis using mapped(1,8) by (rule call_okI [rotated 2]) auto
qed (use call_ok_unchanged [OF k] in auto)

abbreviation (input) no_overflow :: "kstate \<Rightarrow> bool" where
  "no_overflow s \<equiv> \<forall>p \<in> ran (vpage (roots s) s). pp_ref (pages s p) \<noteq> 65535"

lemma sys_page_map_ok:
  assumes k: "kernel_ok s" and c: "curenv s = Some c" and rf: "no_overflow s"
  shows "call_ok (controlled s c) s (sys_page_map srcenvid srcva dstenvid dstva perm s)"
  using k c rf
proof (cases rule: sys_page_map_cases [where srcenvid = srcenvid and srcva = srcva and dstenvid = dstenvid
      and dstva = dstva and perm = perm])
  case (mapped se de w s')
  have ks: "kinv s" using k by (simp add: kernel_ok_def)
  have el: "de \<in> live_envs s" using mapped(4) by (simp add: names_env_def)
  have "untouched s s' x" if x: "x \<in> live_envs s" "x \<notin> controlled s c" for x
    using x mapped(5) el by (intro untouched_mapped [OF ks mapped(11)]) (auto simp: controlled_def)
  then show ?thesis using mapped(1,12) by (rule call_okI [rotated 2]) auto
qed (use call_ok_unchanged [OF k] in auto)

lemma sys_page_unmap_ok:
  assumes k: "kernel_ok s" and c: "curenv s = Some c"
  shows "call_ok (controlled s c) s (sys_page_unmap envid va s)"
  using k c
proof (cases rule: sys_page_unmap_cases [where envid = envid and va = va])
  case (unmapped e s')
  have ks: "kinv s" using k by (simp add: kernel_ok_def)
  have el: "e \<in> live_envs s" using unmapped(2) by (simp add: names_env_def)
  have "untouched s s' x" if x: "x \<in> live_envs s" "x \<notin> controlled s c" for x
  proof -
    have "x \<noteq> e" using x unmapped(3) el by (auto simp: controlled_def)
    then have "pd_page s x \<noteq> pd_page s e" using ks x(1) el by (auto simp: kinv_def env_inv_def inj_on_def)
    then show ?thesis using unmapped(5,7) x(1) by (intro untouched_part) (auto simp: unmapped_def)
  qed
  then show ?thesis using unmapped(1,6) by (rule call_okI [rotated 2]) auto
qed (use call_ok_unchanged [OF k] in auto)

lemma sys_env_destroy_ok:
  assumes k: "kernel_ok s" and c: "curenv s = Some c"
  shows "call_ok (controlled s c) s (sys_env_destroy envid s)"
  unfolding sys_env_destroy_def
proof (rule with_env_ok [OF k c])
  fix e assume e: "e \<in> controlled s c"
  then have el: "e \<in> live_envs s" by (simp add: controlled_def)
  obtain r s' where "env_destroy e s = Some (r, s')" "kernel_ok s'" "\<And>x. \<lbrakk>x \<in> live_envs s; x \<noteq> e\<rbrakk> \<Longrightarrow> untouched s s' x"
    using destroy_untouched [OF k el] by metis
  with e show "call_ok (controlled s c) s (env_destroy e s \<bind>
      (\<lambda>(r, s). Some (case r of Ret x \<Rightarrow> Ret 0 | Exit x \<Rightarrow> Exit x, s)))"
    by (intro call_okI [of _ "case r of Exit x \<Rightarrow> Exit x | Ret _ \<Rightarrow> Ret 0" s']) auto
qed

text \<open>A successful \<open>sys_exofork\<close>: a stopped child with the caller's registers and no memory.\<close>

lemma sys_exofork_cases:
  assumes k: "kernel_ok s" and c: "curenv s = Some c"
  obtains (no_env) "sys_exofork s = Some (Ret (serr E_NO_FREE_ENV), s)" "free_envs s = []"
  | (no_mem) "sys_exofork s = Some (Ret (serr E_NO_MEM), s)" "free_pages s = []"
  | (forked) e s' where "sys_exofork s = Some (Ret (env_id (envs s' e)), s')" "kernel_ok s'" "e \<notin> live_envs s"
      "live_envs s' = insert e (live_envs s)" "curenv s' = Some c" "vmap (roots s') s' = vmap (roots s) s"
      "pd_page s' e \<notin> roots s" "\<forall>x. x \<noteq> e \<longrightarrow> envs s' x = envs s x"
      "env_status (envs s' e) = ENV_NOT_RUNNABLE" "env_parent_id (envs s' e) = env_id (envs s c)"
      "env_tf (envs s' e) = (env_tf (envs s c))\<lparr>tf_regs := (tf_regs (env_tf (envs s c)))\<lparr>reg_eax := 0\<rparr>\<rparr>"
      "env_ipc_recving (envs s' e) = False" "env_pgfault_upcall (envs s' e) = 0"
proof -
  have ks: "kinv s" "cur_ok s" using k by (simp_all add: kernel_ok_def)
  have cl: "c \<in> live_envs s" using ks(2) c by (simp add: cur_ok_def)
  show ?thesis
  proof (cases "free_envs s")
    case Nil
    then show ?thesis using env_alloc_errors(1) [OF ks(1) Nil] c by (intro that(1)) (simp_all add: sys_exofork_def)
  next
    case fe: (Cons e es)
    show ?thesis
    proof (cases "free_pages s")
      case Nil
      then show ?thesis using env_alloc_errors(2) [OF ks(1) _ Nil] fe c by (intro that(2)) (simp_all add: sys_exofork_def)
    next
      case fp: (Cons f fs)
      obtain s1 where s1: "env_alloc (env_id (envs s c)) s = Some (Inr e, s1)" "kinv s1" "e \<notin> live_envs s"
        "live_envs s1 = insert e (live_envs s)" "f \<notin> roots s" "pd_page s1 e = f"
        "envs s1 = (envs s)(e := fresh_env (env_id (envs s c)) e f (envs s e))"
        "vmap (roots s1) s1 = vmap (roots s) s" "cpus s1 = cpus s" "this_cpu s1 = this_cpu s"
        using env_alloc_ok [OF ks(1) fe fp] by metis
      have ce: "c \<noteq> e" using cl s1(3) by auto
      have cu: "curenv s1 = Some c" using c s1(9,10) by (simp add: curenv_def)
      define tf where "tf = (env_tf (envs s c))\<lparr>tf_regs := (tf_regs (env_tf (envs s c)))\<lparr>reg_eax := 0\<rparr>\<rparr>"
      define s' where "s' = upd_env e (\<lambda>v. v\<lparr>env_status := ENV_NOT_RUNNABLE, env_tf := tf\<rparr>) s1"
      have "sys_exofork s = Some (Ret (env_id (envs s' e)), s')"
        using c s1(1,7) ce unfolding sys_exofork_def s'_def tf_def by (simp add: upd_env_def Let_def)
      moreover have ss: "same_space s1 s'" unfolding s'_def using s1(4,7)
        by (intro same_space_upd_env) (simp_all add: fresh_env_def)
      have cu': "curenv s' = Some c" using cu by (simp add: s'_def)
      have "kernel_ok s'"
        using s1(2,4) cl cu' same_space_inv(1,3) [OF ss] by (simp add: kernel_ok_def cur_ok_def)
      moreover have "vmap (roots s') s' = vmap (roots s) s" "live_envs s' = insert e (live_envs s)" "pd_page s' e \<notin> roots s"
        using s1(4-6,8) same_space_inv(2-5) [OF ss] by simp_all
      ultimately show ?thesis
        using s1(3,7) cu' by (intro that(3) [of s' e]) (simp_all add: s'_def fresh_env_def tf_def)
    qed
  qed
qed

lemma sys_exofork_ok:
  assumes k: "kernel_ok s" and c: "curenv s = Some c"
  shows "call_ok T s (sys_exofork s)"
  using k c
proof (cases rule: sys_exofork_cases)
  case (forked e s')
  have "untouched s s' x" if x: "x \<in> live_envs s" for x
    using x forked(3,4,6,8) by (auto simp: untouched_def)
  then show ?thesis using forked(1,2) by (rule call_okI [rotated 2]) auto
qed (use call_ok_unchanged [OF k] in auto)

section \<open>Messages\<close>

text \<open>
  The page goes to the address the receiver gave to \<open>sys_ipc_recv\<close>, which accepts any address from
  \<open>UTOP\<close> on; a transfer is safe only when it lies below \<open>UTOP\<close>.
\<close>

lemma ipc_page_cases:
  assumes k: "kernel_ok s" and c: "curenv s = Some c" and e: "e \<in> live_envs s" and rf: "no_overflow s"
    and dst: "srcva < UTOP \<longrightarrow> env_ipc_dstva (envs s e) < UTOP"
  obtains (failed) err where "ipc_page c e srcva perm s = Some (Inl err, s)" "srcva < UTOP"
      "err = E_INVAL \<or> err = E_NO_MEM \<and> free_pages s = []"
  | (no_page) "ipc_page c e srcva perm s = Some (Inr (), s)" "UTOP \<le> srcva \<or> env_ipc_dstva (envs s e) = 0"
  | (page) w s1 where "ipc_page c e srcva perm s = Some (Inr (), upd_env e (\<lambda>v. v\<lparr>env_ipc_perm := perm\<rparr>) s1)"
      "vmap (roots s) s (va_key (pd_page s c) srcva) = Some w" "perm AND PTE_W \<noteq> 0 \<Longrightarrow> w AND PTE_W \<noteq> 0"
      "mapped_at (roots s) (pd_page s e) (env_ipc_dstva (envs s e)) (entry_page w) perm s s1"
      "kernel_ok s1" "env_part s1 = env_part s" "srcva < UTOP" "env_ipc_dstva (envs s e) \<noteq> 0"
      "perm AND PTE_U \<noteq> 0" "perm AND NOT PTE_SYSCALL = 0"
proof (cases "UTOP \<le> srcva")
  case True
  then show ?thesis by (intro that(2)) (simp_all add: ipc_page_def)
next
  case False
  then have lt: "srcva < UTOP" by simp
  have ks: "kinv s" "cur_ok s" using k by (simp_all add: kernel_ok_def)
  have cl: "c \<in> live_envs s" using ks(2) c by (simp add: cur_ok_def)
  show ?thesis
  proof (cases "PGOFF srcva \<noteq> 0 \<or> perm AND PTE_P = 0 \<or> perm AND PTE_U = 0 \<or> perm AND NOT PTE_SYSCALL \<noteq> 0")
    case True
    then show ?thesis using False lt by (intro that(1) [of E_INVAL]) (auto simp: ipc_page_def)
  next
    case args: False
    have va: "unat (PDX srcva) < UPDE" using args False by (intro good_va) (simp add: bad_va_def)
    have perm: "unat perm < 4096" using args by (intro good_perm) simp
    from ks(1) cl va show ?thesis
    proof (cases rule: lookup_for_env)
      case none
      then show ?thesis using False args lt by (intro that(1) [of E_INVAL]) (simp_all add: ipc_page_def)
    next
      case (some w pte)
      have "vpage (roots s) s (va_key (pd_page s c) srcva) = Some (entry_page w)" using some(2) by (simp add: vpage_def)
      then have rfw: "pp_ref (pages s (entry_page w)) \<noteq> 65535" using rf ranI by fast
      show ?thesis
      proof (cases "perm AND PTE_W \<noteq> 0 \<and> w AND PTE_W = 0")
        case True
        then show ?thesis using False args lt some by (intro that(1) [of E_INVAL]) (simp_all add: ipc_page_def)
      next
        case w: False
        show ?thesis
        proof (cases "env_ipc_dstva (envs s e) = 0")
          case True
          then show ?thesis using False args some w by (intro that(2)) (auto simp: ipc_page_def)
        next
          case dv: False
          have dva: "unat (PDX (env_ipc_dstva (envs s e))) < UPDE"
            using dst lt by (simp add: word_less_nat_alt unat_PDX layout_defs div_less_iff_less_mult)
          from ks e dva mapped_mappable [OF ks(1) some(2) rfw] perm show ?thesis
          proof (cases rule: insert_for_env)
            case no_mem
            then show ?thesis using False args lt some w dv by (intro that(1) [of E_NO_MEM]) (auto simp: ipc_page_def)
          next
            case (inserted s1)
            then have "ipc_page c e srcva perm s = Some (Inr (), upd_env e (\<lambda>v. v\<lparr>env_ipc_perm := perm\<rparr>) s1)"
              using False args some w dv by (auto simp: ipc_page_def)
            moreover have "kernel_ok s1" using inserted by (simp add: kernel_ok_def)
            ultimately show ?thesis
              using some(2) w inserted lt dv args by (intro that(3) [of s1 w]) auto
          qed
        qed
      qed
    qed
  qed
qed

lemma ipc_deliver_same:
  assumes "e \<in> live_envs s"
  shows "same_space s (ipc_deliver e i v s)" "curenv (ipc_deliver e i v s) = curenv s"
    "\<And>x. x \<noteq> e \<Longrightarrow> envs (ipc_deliver e i v s) x = envs s x"
  unfolding ipc_deliver_def using assms by (auto intro!: same_space_upd_env simp: live_envs_def)

text \<open>
  A send succeeds exactly on a receiver that waits and has not been served; it delivers the value,
  the sender's id and, when both sides ask for it, one page; it ends the wait.
\<close>

lemma sys_ipc_try_send_cases:
  assumes k: "kernel_ok s" and c: "curenv s = Some c" and rf: "no_overflow s"
    and dst: "\<forall>e. names_env s c envid e \<and> srcva < UTOP \<and> env_ipc_recving (envs s e) \<longrightarrow> env_ipc_dstva (envs s e) < UTOP"
  obtains (bad_env) "sys_ipc_try_send envid val srcva perm s = Some (Ret (serr E_BAD_ENV), s)" "\<And>e. \<not> names_env s c envid e"
  | (not_recv) e where "sys_ipc_try_send envid val srcva perm s = Some (Ret (serr E_IPC_NOT_RECV), s)" "names_env s c envid e"
      "\<not> env_ipc_recving (envs s e) \<or> env_ipc_from (envs s e) \<noteq> 0"
  | (failed) e err where "sys_ipc_try_send envid val srcva perm s = Some (Ret (serr err), s)" "names_env s c envid e"
      "err = E_INVAL \<or> err = E_NO_MEM \<and> free_pages s = []" "srcva < UTOP"
      "env_ipc_recving (envs s e)" "env_ipc_from (envs s e) = 0"
  | (sent) e s1 where "sys_ipc_try_send envid val srcva perm s = Some (Ret 0, ipc_deliver e (env_id (envs s c)) val s1)"
      "names_env s c envid e" "env_ipc_recving (envs s e)" "env_ipc_from (envs s e) = 0"
      "kernel_ok s1" "curenv s1 = curenv s" "live_envs s1 = live_envs s" "\<And>x. x \<noteq> e \<Longrightarrow> envs s1 x = envs s x"
      "\<And>x. \<lbrakk>x \<in> live_envs s; x \<noteq> e\<rbrakk> \<Longrightarrow> untouched s s1 x"
      "s1 = s \<or> (\<exists>w s2. s1 = upd_env e (\<lambda>v. v\<lparr>env_ipc_perm := perm\<rparr>) s2 \<and> srcva < UTOP \<and>
         vmap (roots s) s (va_key (pd_page s c) srcva) = Some w \<and> (perm AND PTE_W \<noteq> 0 \<longrightarrow> w AND PTE_W \<noteq> 0) \<and>
         mapped_at (roots s) (pd_page s e) (env_ipc_dstva (envs s e)) (entry_page w) perm s s2)"
  using k c
proof (cases rule: with_env_cases [where envid = envid and cp = False])
  case bad
  then show ?thesis by (intro that(1)) (auto simp: sys_ipc_try_send_def)
next
  case (found e)
  have el: "e \<in> live_envs s" using found(2) by (simp add: names_env_def)
  show ?thesis
  proof (cases "\<not> env_ipc_recving (envs s e) \<or> env_ipc_from (envs s e) \<noteq> 0")
    case True
    then show ?thesis using found by (intro that(2)) (simp_all add: sys_ipc_try_send_def)
  next
    case rv: False
    have dst': "srcva < UTOP \<longrightarrow> env_ipc_dstva (envs s e) < UTOP" using dst found(2) rv by simp
    from k c el rf dst' show ?thesis
    proof (cases rule: ipc_page_cases [where perm = perm])
      case (failed err)
      then show ?thesis using found rv c by (intro that(3) [of err e]) (simp_all add: sys_ipc_try_send_def)
    next
      case no_page
      then show ?thesis using found rv c k by (intro that(4) [of e s]) (simp_all add: sys_ipc_try_send_def)
    next
      case (page w s2)
      let ?s1 = "upd_env e (\<lambda>v. v\<lparr>env_ipc_perm := perm\<rparr>) s2"
      have ks: "kinv s" using k by (simp add: kernel_ok_def)
      have ss: "same_space s2 ?s1" by (rule same_space_upd_env) simp_all
      have ep: "envs s2 = envs s" "curenv s2 = curenv s" "live_envs s2 = live_envs s"
        using env_partD [OF page(6)] env_part_roots(2) [OF page(6)] by simp_all
      have k1: "kernel_ok ?s1" by (rule kernel_ok_same [OF page(5) ss]) simp
      have "untouched s ?s1 x" if x: "x \<in> live_envs s" "x \<noteq> e" for x
      proof (rule untouched_trans)
        show "untouched s s2 x" using untouched_mapped [OF ks page(4) x el] .
        show "untouched s2 ?s1 x" using x ep by (intro untouched_same [OF ss]) simp_all
      qed
      moreover have "live_envs ?s1 = live_envs s" using same_space_inv(3) [OF ss] ep by simp
      moreover have "sys_ipc_try_send envid val srcva perm s = Some (Ret 0, ipc_deliver e (env_id (envs s c)) val ?s1)"
        using found rv c page(1) ep by (auto simp: sys_ipc_try_send_def ipc_deliver_def upd_env_def)
      ultimately show ?thesis
        using found rv k1 ep page by (intro that(4) [of e ?s1]) auto
    qed
  qed
qed

lemma sys_ipc_try_send_ok:
  assumes k: "kernel_ok s" and c: "curenv s = Some c" and rf: "no_overflow s"
    and dst: "\<forall>e. names_env s c envid e \<and> srcva < UTOP \<and> env_ipc_recving (envs s e) \<longrightarrow> env_ipc_dstva (envs s e) < UTOP"
  shows "call_ok {e. names_env s c envid e \<and> env_ipc_recving (envs s e)} s (sys_ipc_try_send envid val srcva perm s)"
  using k c rf dst
proof (cases rule: sys_ipc_try_send_cases [where val = val and perm = perm])
  case (sent e s1)
  let ?s' = "ipc_deliver e (env_id (envs s c)) val s1"
  have "e \<in> live_envs s1" using sent(2,7) by (simp add: names_env_def)
  note d = ipc_deliver_same [OF this, where i = "env_id (envs s c)" and v = val]
  have "kernel_ok ?s'" by (rule kernel_ok_same [OF sent(5) d(1,2)])
  moreover have "untouched s ?s' x" if x: "x \<in> live_envs s" "x \<noteq> e" for x
  proof (rule untouched_trans)
    show "untouched s s1 x" by (rule sent(9) [OF x])
    show "untouched s1 ?s' x" using x sent(7) d(3) by (intro untouched_same [OF d(1)]) simp_all
  qed
  ultimately show ?thesis using sent(1-3) by (intro call_okI [OF sent(1)]) auto
qed (use call_ok_unchanged [OF k] in auto)

lemma sys_ipc_recv_ok:
  assumes k: "kernel_ok s" and c: "curenv s = Some c" and T: "c \<in> T"
  shows "call_ok T s (sys_ipc_recv dstva s)"
proof (cases "dstva < UTOP \<and> PGOFF dstva \<noteq> 0")
  case True
  then show ?thesis by (intro call_ok_unchanged [OF k]) (simp add: sys_ipc_recv_def)
next
  case False
  let ?s = "upd_env c (\<lambda>v. v\<lparr>env_ipc_dstva := dstva, env_status := ENV_NOT_RUNNABLE,
              env_ipc_recving := True, env_ipc_from := 0\<rparr>) s"
  have cl: "c \<in> live_envs s" using k c by (simp add: kernel_ok_def cur_ok_def)
  have ss: "same_space s ?s" using cl by (intro same_space_upd_env) (simp_all add: live_envs_def)
  have k1: "kernel_ok ?s" by (rule kernel_ok_same [OF k ss]) simp
  obtain r s' where s': "sched_yield ?s = Some (r, s')" "kernel_ok s'" "\<And>x. x \<in> live_envs ?s \<Longrightarrow> untouched ?s s' x"
    using yield_untouched [OF k1] by metis
  have "untouched s s' x" if x: "x \<in> live_envs s" "x \<notin> T" for x
  proof (rule untouched_trans)
    show "untouched s ?s x" using x T by (intro untouched_same [OF ss]) auto
    show "untouched ?s s' x" using x same_space_inv(3) [OF ss] by (intro s'(3)) simp
  qed
  then show ?thesis using s'(1,2) False c by (intro call_okI [of _ "Exit r" s']) (auto simp: sys_ipc_recv_def)
qed

lemma returns_cgetc_ok:
  assumes k: "kernel_ok s"
  shows "call_ok T s (returns (sys_cgetc s))"
proof -
  obtain ch k' where "cons_getc (con s) = Some (ch, k')" using cons_getc_total by blast
  then have "returns (sys_cgetc s) = Some (Ret (ucast ch), s\<lparr>con := k'\<rparr>)" by (simp add: returns_def sys_cgetc_def)
  then show ?thesis by (rule call_ok_same [OF k]) (simp_all add: same_space_def curenv_def)
qed

section \<open>The dispatcher\<close>

text \<open>
  The environments a system call may affect: those the caller controls, and for a message the
  receiver that waits for it.
\<close>

definition call_scope :: "kstate \<Rightarrow> nat \<Rightarrow> u32 \<Rightarrow> u32 \<Rightarrow> nat set" where
  "call_scope s c no a1 = (if no = SYS_ipc_try_send then {e. names_env s c a1 e \<and> env_ipc_recving (envs s e)}
     else controlled s c)"

text \<open>
  Calls that copy data between the kernel and user memory after an insufficient check, or none:
  \<open>sys_cputs\<close>, \<open>sys_env_set_trapframe\<close>, \<open>sys_pkt_send\<close>, \<open>sys_pkt_recv\<close>.
\<close>

definition copies_user_memory :: "u32 \<Rightarrow> bool" where
  "copies_user_memory no \<longleftrightarrow> no = SYS_cputs \<or> no = SYS_env_set_trapframe \<or> no = SYS_pkt_send \<or> no = SYS_pkt_recv"

definition window_ok :: "kstate \<Rightarrow> nat \<Rightarrow> u32 \<Rightarrow> u32 \<Rightarrow> bool" where
  "window_ok s c a1 a3 \<longleftrightarrow> (\<forall>e. names_env s c a1 e \<and> a3 < UTOP \<and> env_ipc_recving (envs s e) \<longrightarrow> env_ipc_dstva (envs s e) < UTOP)"

lemma syscall_ok:
  assumes k: "kernel_ok s" and c: "curenv s = Some c" and rf: "no_overflow s"
    and no: "\<not> copies_user_memory no" and dst: "no = SYS_ipc_try_send \<longrightarrow> window_ok s c a1 a3"
  shows "call_ok (call_scope s c no a1) s (syscall no a1 a2 a3 a4 a5 s)"
proof -
  have cc: "c \<in> controlled s c" using k c by (simp add: controlled_def may_control_def kernel_ok_def cur_ok_def)
  have dw: "\<forall>e. names_env s c a1 e \<and> a3 < UTOP \<and> env_ipc_recving (envs s e) \<longrightarrow> env_ipc_dstva (envs s e) < UTOP"
    if "no = SYS_ipc_try_send" using dst that by (simp add: window_ok_def)
  have y: "call_ok T s (sys_yield s)" for T
  proof -
    obtain r s' where "sched_yield s = Some (r, s')" "kernel_ok s'" "\<And>x. x \<in> live_envs s \<Longrightarrow> untouched s s' x"
      using yield_untouched [OF k] by metis
    then show ?thesis by (intro call_okI [of _ "Exit r" s']) (simp_all add: sys_yield_def)
  qed
  have st: "call_ok (controlled s c) s (sys_env_set_status a1 a2 s)"
  proof (cases "a2 \<noteq> ENV_RUNNABLE \<and> a2 \<noteq> ENV_NOT_RUNNABLE")
    case True
    then show ?thesis by (intro call_ok_unchanged [OF k]) (simp add: sys_env_set_status_def)
  next
    case False
    have "call_ok (controlled s c) s (Some (Ret 0, upd_env e (\<lambda>v. v\<lparr>env_status := a2\<rparr>) s))" if "e \<in> controlled s c" for e
      using that False by (intro upd_env_ok [OF k]) (auto simp: controlled_def live_envs_def)
    then show ?thesis using False with_env_ok [OF k c] by (auto simp: sys_env_set_status_def)
  qed
  have up: "call_ok (controlled s c) s (sys_env_set_pgfault_upcall a1 a2 s)"
    unfolding sys_env_set_pgfault_upcall_def by (intro with_env_ok [OF k c] upd_env_ok [OF k]) simp_all
  consider "no = SYS_cgetc" | "no = SYS_getenvid" | "no = SYS_env_destroy" | "no = SYS_page_alloc" | "no = SYS_page_map"
    | "no = SYS_page_unmap" | "no = SYS_exofork" | "no = SYS_env_set_status" | "no = SYS_yield"
    | "no = SYS_env_set_pgfault_upcall" | "no = SYS_ipc_try_send" | "no = SYS_ipc_recv" | "no = SYS_time_msec"
    | (other) "no \<notin> {1, 2, 3, 4, 5, 6, 7, 8, 10, 11, 12, 13, 14}"
    by blast
  then show ?thesis
  proof cases
    case other
    then have "syscall no a1 a2 a3 a4 a5 s = Some (Ret (serr E_INVAL), s)"
      using no by (simp add: copies_user_memory_def syscall_def)
    then show ?thesis by (rule call_ok_unchanged [OF k])
  qed (use returns_cgetc_ok [OF k] sys_env_destroy_ok [OF k c] sys_page_alloc_ok [OF k c] sys_page_map_ok [OF k c rf]
      sys_page_unmap_ok [OF k c] sys_exofork_ok [OF k c] st y up sys_ipc_try_send_ok [OF k c rf dw]
      sys_ipc_recv_ok [OF k c cc] call_ok_unchanged [OF k] c in
      \<open>simp_all add: syscall_def call_scope_def sys_getenvid_def c_assert_def\<close>)
qed

end
