(* ===== verification/Jos_Trap.thy ===== *)
theory Jos_Trap
  imports Jos_Syscall_Safe
begin

text \<open>
  Traps and interrupts (\<open>kern/trap.c\<close>): \<open>trap\<close>, \<open>trap_dispatch\<close> and the page fault handler, which
  builds the frame for a user-level fault handler. \<open>cr2\<close> is the processor register with the faulting
  address. The acknowledgement \<open>lapic_eoi\<close> and the interactive monitor change no state of the model.
\<close>

abbreviation (input) T_BRKPT :: u32 where "T_BRKPT \<equiv> 3"
abbreviation (input) T_PGFLT :: u32 where "T_PGFLT \<equiv> 14"
abbreviation (input) T_SYSCALL :: u32 where "T_SYSCALL \<equiv> 48"
abbreviation (input) IRQ_OFFSET :: u32 where "IRQ_OFFSET \<equiv> 32"
abbreviation (input) IRQ_TIMER :: u32 where "IRQ_TIMER \<equiv> 0"
abbreviation (input) IRQ_KBD :: u32 where "IRQ_KBD \<equiv> 1"
abbreviation (input) IRQ_SERIAL :: u32 where "IRQ_SERIAL \<equiv> 4"
abbreviation (input) IRQ_SPURIOUS :: u32 where "IRQ_SPURIOUS \<equiv> 7"
abbreviation (input) GD_KT :: u16 where "GD_KT \<equiv> 0x08"

text \<open>\<open>sizeof(struct UTrapframe)\<close> is 52.\<close>

definition utf_addr :: "u32 \<Rightarrow> u32" where
  "utf_addr esp = (if UXSTACKTOP - PGSIZE \<le> esp \<and> esp \<le> UXSTACKTOP - 1 then esp - 4 - 52 else UXSTACKTOP - 52)"

definition store_utf :: "u32 \<Rightarrow> u32 \<Rightarrow> Trapframe \<Rightarrow> kstate \<Rightarrow> kstate option" where
  "store_utf utf fault_va tf s = do {
     s \<leftarrow> vstore32 (utf + 48) (tf_esp tf) s;
     s \<leftarrow> vstore32 (utf + 44) (tf_eflags tf) s;
     s \<leftarrow> vstore32 (utf + 40) (tf_eip tf) s;
     s \<leftarrow> store_regs (utf + 8) (tf_regs tf) s;
     s \<leftarrow> vstore32 (utf + 4) (tf_err tf) s;
     vstore32 utf fault_va s
   }"

definition page_fault_handler :: "u32 \<Rightarrow> Trapframe \<Rightarrow> kstate \<Rightarrow> (unit ctl \<times> kstate) option" where
  "page_fault_handler cr2 tf s =
     (if tf_cs tf AND 3 = 0 then None
      else do {
        c \<leftarrow> curenv s;
        if env_pgfault_upcall (envs s c) \<noteq> 0
        then do {
          let utf = utf_addr (tf_esp tf);
          (r, s) \<leftarrow> user_mem_assert c utf 1 PTE_W s;
          case r of
            Exit x \<Rightarrow> Some (Exit x, s)
          | Ret _ \<Rightarrow> do {
              s \<leftarrow> store_utf utf cr2 tf s;
              let s = upd_env c (\<lambda>v. v\<lparr>env_tf := (env_tf v)\<lparr>tf_eip := env_pgfault_upcall v, tf_esp := utf\<rparr>\<rparr>) s;
              s \<leftarrow> env_run c s;
              Some (Exit (Run c), s)
            }
        }
        else env_destroy c s
      })"

text \<open>
  \<open>tf\<close> is the frame dispatched on; \<open>own\<close> is the environment whose \<open>env_tf\<close> it is, if the trap came
  from user mode: the result of a system call is stored there.
\<close>

definition set_eax :: "nat option \<Rightarrow> u32 \<Rightarrow> kstate \<Rightarrow> kstate" where
  "set_eax own r s = (case own of
     None \<Rightarrow> s
   | Some e \<Rightarrow> upd_env e (\<lambda>v. v\<lparr>env_tf := (env_tf v)\<lparr>tf_regs := (tf_regs (env_tf v))\<lparr>reg_eax := r\<rparr>\<rparr>\<rparr>) s)"

definition trap_dispatch :: "u32 \<Rightarrow> nat option \<Rightarrow> Trapframe \<Rightarrow> kstate \<Rightarrow> (unit ctl \<times> kstate) option" where
  "trap_dispatch cr2 own tf s =
     (if tf_trapno tf = T_PGFLT then page_fault_handler cr2 tf s
      else if tf_trapno tf = T_BRKPT then Some (Ret (), s)
      else if tf_trapno tf = T_SYSCALL
      then let r = tf_regs tf in
        if NSYSCALLS \<le> reg_eax r then Some (Ret (), s)
        else do {
          (v, s) \<leftarrow> syscall (reg_eax r) (reg_edx r) (reg_ecx r) (reg_ebx r) (reg_edi r) (reg_esi r) s;
          Some (case v of Exit x \<Rightarrow> (Exit x, s) | Ret v \<Rightarrow> (Ret (), set_eax own v s))
        }
      else if tf_trapno tf = IRQ_OFFSET + IRQ_SPURIOUS then Some (Ret (), s)
      else if tf_trapno tf = IRQ_OFFSET + IRQ_TIMER
      then do {
        t \<leftarrow> time_tick (ticks s);
        (x, s) \<leftarrow> sched_yield (s\<lparr>ticks := t\<rparr>);
        Some (Exit x, s)
      }
      else if tf_trapno tf = IRQ_OFFSET + IRQ_KBD
      then do { k \<leftarrow> kbd_intr (con s); Some (Ret (), s\<lparr>con := k\<rparr>) }
      else if tf_trapno tf = IRQ_OFFSET + IRQ_SERIAL
      then do { k \<leftarrow> serial_intr (con s); Some (Ret (), s\<lparr>con := k\<rparr>) }
      else if tf_cs tf = GD_KT then None
      else do { c \<leftarrow> curenv s; env_destroy c s })"

text \<open>The end of \<open>trap\<close>: back to the current environment if it is still running.\<close>

definition trap_return :: "kstate \<Rightarrow> (kexit \<times> kstate) option" where
  "trap_return s =
     (case curenv s of
        Some c \<Rightarrow> if env_status (envs s c) = ENV_RUNNING
                  then do { s \<leftarrow> env_run c s; Some (Run c, s) } else sched_yield s
      | None \<Rightarrow> sched_yield s)"

definition trap :: "u32 \<Rightarrow> Trapframe \<Rightarrow> kstate \<Rightarrow> (kexit \<times> kstate) option" where
  "trap cr2 tf s = do {
     let halted = (cpu_status (cpus s (this_cpu s)) = CPU_HALTED);
     let c = this_cpu s;
     let s = s\<lparr>cpus := (cpus s)(c := (cpus s c)\<lparr>cpu_status := CPU_STARTED\<rparr>)\<rparr>;
     let s = (if halted then s\<lparr>kernel_locked := True\<rparr> else s);
     if tf_cs tf AND 3 = 3
     then do {
       let s = s\<lparr>kernel_locked := True\<rparr>;
       e \<leftarrow> curenv s;
       if env_status (envs s e) = ENV_DYING
       then do { s \<leftarrow> env_free e s; sched_yield (set_curenv None s) }
       else do {
         let s = upd_env e (\<lambda>v. v\<lparr>env_tf := tf\<rparr>) s;
         (r, s) \<leftarrow> trap_dispatch cr2 (Some e) tf s;
         case r of Exit x \<Rightarrow> Some (x, s) | Ret _ \<Rightarrow> trap_return s
       }
     }
     else do {
       (r, s) \<leftarrow> trap_dispatch cr2 None tf s;
       case r of Exit x \<Rightarrow> Some (x, s) | Ret _ \<Rightarrow> trap_return s
     }
   }"

end
