(* ===== verification/Jos_Safety.thy ===== *)
theory Jos_Safety
  imports Jos_Trap
begin

text \<open>
  The kernel as a whole: traps from user programs are handled without a panic, the kernel invariant
  holds in every reachable state, whatever the programs store to their memory, and the scheduler
  lets every runnable environment run.
\<close>

section \<open>Traps from user mode\<close>

lemma trap_return_ok:
  assumes k: "kernel_ok s"
  obtains x s' where "trap_return s = Some (x, s')" "kernel_ok s'"
proof -
  have ks: "kinv s" "cur_ok s" using k by (simp_all add: kernel_ok_def)
  obtain x s1 where y: "sched_yield s = Some (x, s1)" "kernel_ok s1" using yield_untouched [OF k] by metis
  show ?thesis
  proof (cases "\<exists>c. curenv s = Some c \<and> env_status (envs s c) = ENV_RUNNING")
    case True
    then obtain c where c: "curenv s = Some c" "env_status (envs s c) = ENV_RUNNING" by blast
    then have cl: "c \<in> live_envs s" using ks by (simp add: cur_ok_def)
    obtain s' where s': "env_run c s = Some s'" "same_space s s'" "curenv s' = Some c"
      using env_run_ok [OF ks(1) cl ks(2)] by blast
    have "kernel_ok s'" using ks s' c same_space_inv(1) cur_ok_same [OF s'(2)] by (simp add: kernel_ok_def)
    then show ?thesis using c s' by (intro that [of "Run c" s']) (simp_all add: trap_return_def)
  next
    case False
    then have "trap_return s = sched_yield s" by (auto simp: trap_return_def split: option.split)
    with y that show ?thesis by simp
  qed
qed

text \<open>
  What a trap taken in user mode must not be for the kernel to survive it: a page fault with a
  handler installed or one of the copying system calls, a
  message into the kernel part of an address space, or the tick that makes the clock overflow.
\<close>

definition trap_guard :: "nat \<Rightarrow> Trapframe \<Rightarrow> kstate \<Rightarrow> bool" where
  "trap_guard c tf s \<longleftrightarrow> tf_cs tf AND 3 = 3 \<and> no_overflow s \<and>
     (tf_trapno tf = T_PGFLT \<longrightarrow> env_pgfault_upcall (envs s c) = 0) \<and>
     (tf_trapno tf = T_SYSCALL \<longrightarrow> \<not> copies_user_memory (reg_eax (tf_regs tf)) \<and>
        (reg_eax (tf_regs tf) = SYS_ipc_try_send \<longrightarrow> window_ok s c (reg_edx (tf_regs tf)) (reg_ebx (tf_regs tf)))) \<and>
     (tf_trapno tf = IRQ_OFFSET + IRQ_TIMER \<longrightarrow> time_tick (ticks s) \<noteq> None)"

lemma kbd_intr_total: "\<exists>k'. kbd_intr k = Some k'"
  by (auto simp: kbd_intr_def kbd_intr_loop split: prod.splits)

lemma serial_intr_total: "\<exists>k'. serial_intr k = Some k'"
  by (auto simp: serial_intr_def serial_intr_loop)

lemma destroy_ok: "\<lbrakk>kernel_ok s; c \<in> live_envs s\<rbrakk> \<Longrightarrow> \<exists>r s'. env_destroy c s = Some (r, s') \<and> kernel_ok s'"
  using destroy_untouched by metis

lemma trap_dispatch_ok:
  assumes k: "kernel_ok s" and c: "curenv s = Some c" and g: "trap_guard c tf s"
  shows "\<exists>r s'. trap_dispatch cr2 (Some c) tf s = Some (r, s') \<and> kernel_ok s'"
proof -
  have cl: "c \<in> live_envs s" using k c by (simp add: kernel_ok_def cur_ok_def)
  have us: "tf_cs tf AND 3 \<noteq> 0" "tf_cs tf \<noteq> GD_KT" using g by (auto simp: trap_guard_def)
  have same: "kernel_ok s'" if "same_space s s'" "curenv s' = curenv s" for s'
    using kernel_ok_same [OF k that] .
  consider (pgflt) "tf_trapno tf = T_PGFLT" | (brk) "tf_trapno tf = T_BRKPT" | (sys) "tf_trapno tf = T_SYSCALL"
    | (spur) "tf_trapno tf = IRQ_OFFSET + IRQ_SPURIOUS" | (timer) "tf_trapno tf = IRQ_OFFSET + IRQ_TIMER"
    | (kbd) "tf_trapno tf = IRQ_OFFSET + IRQ_KBD" | (ser) "tf_trapno tf = IRQ_OFFSET + IRQ_SERIAL"
    | (other) "tf_trapno tf \<notin> {14, 3, 48, 39, 32, 33, 36}" by fastforce
  then show ?thesis
  proof cases
    case pgflt
    then show ?thesis using g us c destroy_ok [OF k cl] by (simp add: trap_dispatch_def page_fault_handler_def trap_guard_def)
  next
    case sys
    let ?r = "tf_regs tf"
    have "call_ok (call_scope s c (reg_eax ?r) (reg_edx ?r)) s
        (syscall (reg_eax ?r) (reg_edx ?r) (reg_ecx ?r) (reg_ebx ?r) (reg_edi ?r) (reg_esi ?r) s)"
      using g sys by (intro syscall_ok [OF k c]) (simp_all add: trap_guard_def)
    then obtain v s' where v: "syscall (reg_eax ?r) (reg_edx ?r) (reg_ecx ?r) (reg_ebx ?r) (reg_edi ?r) (reg_esi ?r) s = Some (v, s')"
      "kernel_ok s'" by (auto simp: call_ok_def)
    have "kernel_ok (set_eax (Some c) x s')" for x
      by (rule kernel_ok_same [OF v(2)]) (simp_all add: set_eax_def same_space_def)
    then show ?thesis using sys v k by (cases v) (simp_all add: trap_dispatch_def Let_def)
  next
    case timer
    then obtain t where t: "time_tick (ticks s) = Some t" using g by (auto simp: trap_guard_def)
    let ?s = "s\<lparr>ticks := t\<rparr>"
    have "kernel_ok ?s" by (rule same) (simp_all add: same_space_def curenv_def)
    then obtain x s' where "sched_yield ?s = Some (x, s')" "kernel_ok s'" using yield_untouched by metis
    then show ?thesis using timer t by (simp add: trap_dispatch_def)
  next
    case kbd
    obtain q where "kbd_intr (con s) = Some q" using kbd_intr_total by blast
    moreover have "kernel_ok (s\<lparr>con := q\<rparr>)" by (rule same) (simp_all add: same_space_def curenv_def)
    ultimately show ?thesis using kbd by (simp add: trap_dispatch_def)
  next
    case ser
    obtain q where "serial_intr (con s) = Some q" using serial_intr_total by blast
    moreover have "kernel_ok (s\<lparr>con := q\<rparr>)" by (rule same) (simp_all add: same_space_def curenv_def)
    ultimately show ?thesis using ser by (simp add: trap_dispatch_def)
  next
    case other
    then show ?thesis using us c destroy_ok [OF k cl] by (simp add: trap_dispatch_def)
  qed (use k in \<open>simp_all add: trap_dispatch_def\<close>)
qed

lemma trap_ok:
  assumes k: "kernel_ok s" and c: "curenv s = Some c" and g: "trap_guard c tf s"
  shows "\<exists>x s'. trap cr2 tf s = Some (x, s') \<and> kernel_ok s'"
proof -
  define s1 where "s1 = (s\<lparr>cpus := (cpus s)(this_cpu s := (cpus s (this_cpu s))\<lparr>cpu_status := CPU_STARTED\<rparr>), kernel_locked := True\<rparr>)"
  have s1: "same_space s s1" "curenv s1 = Some c" "ticks s1 = ticks s" "envs s1 = envs s"
    using c by (simp_all add: s1_def same_space_def curenv_def)
  have k1: "kernel_ok s1" by (rule kernel_ok_same [OF k s1(1)]) (simp add: s1 c)
  have cl: "c \<in> live_envs s1" using k1 s1(2) by (simp add: kernel_ok_def cur_ok_def)
  have t: "trap cr2 tf s =
     (if env_status (envs s1 c) = ENV_DYING then do { s \<leftarrow> env_free c s1; sched_yield (set_curenv None s) }
      else do { (r, s) \<leftarrow> trap_dispatch cr2 (Some c) tf (upd_env c (\<lambda>v. v\<lparr>env_tf := tf\<rparr>) s1);
                case r of Exit x \<Rightarrow> Some (x, s) | Ret _ \<Rightarrow> trap_return s })"
    using g s1(2) unfolding trap_def Let_def by (simp add: s1_def trap_guard_def)
  show ?thesis
  proof (cases "env_status (envs s1 c) = ENV_DYING")
    case True
    have "kinv s1" using k1 by (simp add: kernel_ok_def)
    then obtain s2 where s2: "env_free c s1 = Some s2" "kinv s2" using env_free_untouched [OF _ cl] by metis
    have "kernel_ok (set_curenv None s2)"
      using s2(2) same_space_inv(1) [OF same_space_set_curenv] by (simp add: kernel_ok_def cur_ok_def)
    then obtain x s' where "sched_yield (set_curenv None s2) = Some (x, s')" "kernel_ok s'" using yield_untouched by metis
    with True s2 t show ?thesis by simp
  next
    case False
    let ?s = "upd_env c (\<lambda>v. v\<lparr>env_tf := tf\<rparr>) s1"
    have ss: "same_space s1 ?s" by (rule same_space_upd_env) simp_all
    have k2: "kernel_ok ?s" by (rule kernel_ok_same [OF k1 ss]) simp
    have rv: "roots s1 = roots s" "vmap (roots s) s1 = vmap (roots s) s" "pages s1 = pages s" "live_envs s1 = live_envs s"
      using same_space_inv(2,3,5) [OF s1(1)] by (simp_all add: s1_def)
    have "names_env ?s c i e = names_env s c i e" for i e
      using same_space_inv(3) [OF ss] rv s1(4) by (simp add: names_env_def)
    then have "trap_guard c tf ?s" using g s1 same_space_inv(2,5) [OF ss] rv
      by (simp add: trap_guard_def window_ok_def vpage_def [abs_def]) (simp add: upd_env_def s1)
    then obtain r s' where r: "trap_dispatch cr2 (Some c) tf ?s = Some (r, s')" "kernel_ok s'"
      using trap_dispatch_ok [OF k2] s1(2) by (metis curenv_upd_env)
    obtain x s2 where "trap_return s' = Some (x, s2)" "kernel_ok s2" using trap_return_ok [OF r(2)] by metis
    with r False t show ?thesis by (cases r) simp_all
  qed
qed

section \<open>User programs\<close>

text \<open>
  A store by the running program, as the processor carries it out: it goes through when the page
  is mapped writable for user mode.
\<close>

definition user_store :: "nat \<Rightarrow> u32 \<Rightarrow> u32 \<Rightarrow> kstate \<Rightarrow> kstate option" where
  "user_store c va x s =
     (case vmap (roots s) s (va_key (pd_page s c) va) of
        None \<Rightarrow> None
      | Some w \<Rightarrow> if w AND PTE_W = 0 \<or> w AND PTE_U = 0 then None
                  else Some (set_cell (entry_page w) (unat (PGOFF va) div 4) x s))"

lemma set_cell_data:
  assumes k: "kinv s" and key: "vpage (roots s) s key = Some p" and i: "i < 1024"
  shows "kinv (set_cell p i x s)" "roots (set_cell p i x s) = roots s"
    "vmap (roots s) (set_cell p i x s) = vmap (roots s) s"
proof -
  let ?s = "set_cell p i x s"
  have vm: "vm_inv (roots s) s" and kd: "kern_dir s" using k by (simp_all add: kinv_def)
  have pr: "p \<in> ran (vpage (roots s) s)" using key by (rule ranI)
  then have p: "p < npages s" "p \<notin> roots s" "p \<notin> ran (ptab (roots s) s)" "p \<noteq> kern_page s"
    using vm kd by (auto simp: vm_inv_def kern_dir_def used_def)
  have pl: "p < 1048576" using kinv_page_lt [OF k p(1)] by simp
  have ph: "phys ?s (cell q j) = phys s (cell q j)" if "q < 1048576" "j < 1024" "q \<noteq> p" for q j
    using that i pl by (simp add: phys_set_cell)
  have e: "env_part ?s = env_part s" by simp
  note r = env_part_roots [OF e]
  show "roots ?s = roots s" by (rule r)
  have tc: "ptab (roots s) ?s = ptab (roots s) s" "vmap (roots s) ?s = vmap (roots s) s"
    by (rule tables_cong [OF vm]; use p ph in blast)+
  show "vmap (roots s) ?s = vmap (roots s) s" by (rule tc)
  note vp = vpage_cong [OF tc(2)]
  have fp: "free_pages ?s = free_pages s" by (simp add: free_pages_def)
  have "slack (roots s) ?s = slack (roots s) s" by (intro ext) (simp add: slack_def uses_def tc vp)
  moreover have "pm_inv ?s = pm_inv s" by (simp add: pm_inv_def fp)
  ultimately have "vm_inv (roots s) ?s" using vm by (simp add: vm_inv_def tc vp)
  moreover have "kern_dir ?s"
  proof -
    have "kern_page s < 1048576" using kd kinv_page_lt [OF k, of "kern_page s"] by (simp add: kern_dir_def)
    then show ?thesis using kd ph p(4) by (simp add: kern_dir_def r fp used_def tc vp)
  qed
  moreover have "upper_ok ?s x" if x: "x \<in> dirs s" for x
  proof -
    have "x \<noteq> p" using x p by (auto simp: dirs_def)
    then have "upper_ok ?s x = upper_ok s x" using kinv_dirs(1) [OF k x] ph by (intro upper_ok_cong) auto
    then show ?thesis using k x by (simp add: kinv_def)
  qed
  ultimately show "kinv ?s" using k by (simp add: kinv_def r dirs_def)
qed

lemma user_store_ok:
  assumes k: "kernel_ok s" and st: "user_store c va x s = Some s'"
  shows "kernel_ok s'" "roots s' = roots s" "vmap (roots s) s' = vmap (roots s) s" "env_part s' = env_part s"
proof -
  obtain w where w: "vmap (roots s) s (va_key (pd_page s c) va) = Some w"
    "s' = set_cell (entry_page w) (unat (PGOFF va) div 4) x s"
    using st by (auto simp: user_store_def split: option.splits if_splits)
  have ks: "kinv s" "cur_ok s" using k by (simp_all add: kernel_ok_def)
  have "vpage (roots s) s (va_key (pd_page s c) va) = Some (entry_page w)" using w(1) by (simp add: vpage_def)
  moreover have "unat (PGOFF va) div 4 < 1024" using unat_PGOFF [of va] by simp
  ultimately have *: "kinv s'" "roots s' = roots s" "vmap (roots s) s' = vmap (roots s) s"
    unfolding w(2) by (rule set_cell_data [OF ks(1)])+
  show ep: "env_part s' = env_part s" by (simp add: w(2))
  have "cur_ok s'" using ks(2) env_part_roots(7) [OF ep] by simp
  with * show "kernel_ok s'" "roots s' = roots s" "vmap (roots s) s' = vmap (roots s) s" by (simp_all add: kernel_ok_def)
qed

section \<open>The machine\<close>

text \<open>
  One step of the machine while CPU \<open>this_cpu\<close> is looked at: the running program stores to its
  memory or traps; a halted processor takes a clock interrupt.
\<close>

inductive jos_step :: "kstate \<Rightarrow> kstate \<Rightarrow> bool" where
  store: "\<lbrakk>curenv s = Some c; user_store c va x s = Some s'\<rbrakk> \<Longrightarrow> jos_step s s'"
| user_trap: "\<lbrakk>curenv s = Some c; trap_guard c tf s; trap cr2 tf s = Some (x, s')\<rbrakk> \<Longrightarrow> jos_step s s'"
| idle_tick: "\<lbrakk>curenv s = None; tf_cs tf AND 3 \<noteq> 3; tf_trapno tf = IRQ_OFFSET + IRQ_TIMER;
     time_tick (ticks s) \<noteq> None; trap cr2 tf s = Some (x, s')\<rbrakk> \<Longrightarrow> jos_step s s'"

inductive_cases jos_stepE: "jos_step s s'"

lemma idle_tick_ok:
  assumes k: "kernel_ok s" and c: "tf_cs tf AND 3 \<noteq> 3" "tf_trapno tf = IRQ_OFFSET + IRQ_TIMER"
    and t: "time_tick (ticks s) \<noteq> None"
  shows "\<exists>x s'. trap cr2 tf s = Some (x, s') \<and> kernel_ok s'"
proof -
  obtain t where t: "time_tick (ticks s) = Some t" using t by blast
  let ?s0 = "s\<lparr>cpus := (cpus s)(this_cpu s := (cpus s (this_cpu s))\<lparr>cpu_status := CPU_STARTED\<rparr>)\<rparr>"
  define s1 where "s1 = (if cpu_status (cpus s (this_cpu s)) = CPU_HALTED then ?s0\<lparr>kernel_locked := True\<rparr> else ?s0)"
  have "kernel_ok (s1\<lparr>ticks := t\<rparr>)" by (rule kernel_ok_same [OF k]) (simp_all add: s1_def same_space_def curenv_def)
  then obtain x s' where s': "sched_yield (s1\<lparr>ticks := t\<rparr>) = Some (x, s')" "kernel_ok s'" using yield_untouched by metis
  have "ticks s1 = ticks s" by (simp add: s1_def)
  then have "trap_dispatch cr2 None tf s1 = Some (Exit x, s')"
    using c t s'(1) by (simp add: trap_dispatch_def)
  then have "trap cr2 tf s = Some (x, s')" using c unfolding trap_def Let_def s1_def by simp
  with s'(2) show ?thesis by blast
qed

lemma jos_step_ok: "jos_step s s' \<Longrightarrow> kernel_ok s \<Longrightarrow> kernel_ok s'"
proof (induction rule: jos_step.induct)
  case (store s c va x s')
  then show ?case using user_store_ok(1) by blast
next
  case (user_trap s c tf cr2 x s')
  then show ?case using trap_ok [of s c tf cr2] by auto
next
  case (idle_tick s tf cr2 x s')
  then show ?case using idle_tick_ok [of s tf cr2] by auto
qed

lemma jos_reachable_ok: "jos_step\<^sup>*\<^sup>* s s' \<Longrightarrow> kernel_ok s \<Longrightarrow> kernel_ok s'"
  by (induction rule: rtranclp_induct) (auto intro: jos_step_ok)

section \<open>Fairness\<close>

primrec yields :: "nat \<Rightarrow> kstate \<Rightarrow> kstate option" where
  "yields 0 s = Some s"
| "yields (Suc n) s = do { (x, s) \<leftarrow> sched_yield s; yields n s }"

text \<open>How many slots of the environment table come before \<open>e\<close> in the search.\<close>

definition sched_dist :: "kstate \<Rightarrow> nat \<Rightarrow> nat" where
  "sched_dist s e = (e + NENV - sched_start s) mod NENV"

lemma ring_dist_step:
  assumes "c < N" "e < N" "i < (e + N - c) mod (N :: nat)"
  shows "(e + N - (c + i) mod N) mod N = (e + N - c) mod N - i"
proof -
  have x: "(c + i) mod N < N" using assms(1) by simp
  have d: "(e + N - c) mod N = (if c \<le> e then e - c else e + N - c)" using assms(1,2) by (rule ring_dist)
  show ?thesis
  proof (cases "c \<le> e")
    case True
    then have "(c + i) mod N = c + i" using assms d by simp
    then show ?thesis using True assms d by (simp add: ring_dist)
  next
    case False
    show ?thesis
    proof (cases "c + i < N")
      case True
      then show ?thesis using False assms d by (simp add: ring_dist)
    next
      case wrap: False
      then have "(c + i) mod N = c + i - N" using assms d False by (simp add: mod_if)
      then show ?thesis using False wrap assms d x ring_dist [OF x assms(2)] by simp
    qed
  qed
qed

lemma dist_pos: "e < NENV \<Longrightarrow> (sched_start s + sched_dist s e) mod NENV = e"
proof -
  assume e: "e < NENV"
  have "(sched_start s + sched_dist s e) mod NENV = (sched_start s + (e + NENV - sched_start s)) mod NENV"
    unfolding sched_dist_def by (rule mod_add_right_eq)
  also have "\<dots> = e" using e sched_start_lt [of s] by simp
  finally show ?thesis .
qed

lemma yield_progress:
  assumes k: "kernel_ok s" and c: "curenv s = Some c" "env_status (envs s c) = ENV_RUNNING"
    and e: "e < NENV" "env_status (envs s e) = ENV_RUNNABLE"
  obtains x s' where "sched_yield s = Some (Run x, s')" "kernel_ok s'" "curenv s' = Some x" "env_status (envs s' x) = ENV_RUNNING"
    "x = e \<or> sched_dist s' e < sched_dist s e \<and> env_status (envs s' e) = ENV_RUNNABLE"
proof -
  have ks: "kinv s" "cur_ok s" using k by (simp_all add: kernel_ok_def)
  have cl: "c \<in> live_envs s" using ks c by (simp add: cur_ok_def)
  have st: "sched_start s = c" using c(1) kinv_live(4) [OF ks(1) cl] by (simp add: sched_start_def)
  have cn: "c < NENV" using cl by (simp add: live_envs_def)
  have ec: "e \<noteq> c" using c(2) e(2) by auto
  show ?thesis
  proof (cases rule: sched_pick_cases [of s])
    case none
    then show ?thesis using e by blast
  next
    case (some i)
    let ?x = "(sched_start s + i) mod NENV"
    have i0: "i \<noteq> 0" using some(3) c(2) st cn by (cases "i = 0") auto
    have id: "i \<le> sched_dist s e"
      using some(4) dist_pos [OF e(1), of s] e(2) by (metis not_le)
    have xl: "?x \<in> live_envs s" using some(3) by (simp add: live_envs_def)
    obtain s' where s': "env_run ?x s = Some s'" "same_space s s'" "curenv s' = Some ?x"
      "env_status (envs s' ?x) = ENV_RUNNING"
      "\<And>y. y \<noteq> ?x \<Longrightarrow> env_status (envs s' y) = (if curenv s = Some y \<and> env_status (envs s y) = ENV_RUNNING
         then ENV_RUNNABLE else env_status (envs s y))"
      using env_run_ok [OF ks(1) xl ks(2)] by blast
    have k': "kinv s'" "?x \<in> live_envs s'" using ks(1) xl same_space_inv(1,3) [OF s'(2)] by simp_all
    then have "kernel_ok s'" using s'(3) by (simp add: kernel_ok_def cur_ok_def)
    moreover have "sched_dist s' e < sched_dist s e \<and> env_status (envs s' e) = ENV_RUNNABLE" if ne: "?x \<noteq> e"
    proof -
      have st': "sched_start s' = ?x" using s'(3) kinv_live(4) [OF k'] by (simp add: sched_start_def)
      have il: "i < sched_dist s e" using id ne dist_pos [OF e(1), of s] by (metis le_neq_implies_less)
      have "sched_dist s' e = sched_dist s e - i"
        using ring_dist_step [OF cn e(1)] il unfolding sched_dist_def st' st by blast
      then show ?thesis using il i0 ne s'(5) [of e] e(2) c ec by simp
    qed
    ultimately show ?thesis
      using s'(1,3,4) some(2) by (intro that [of ?x s']) (auto simp: sched_yield_def)
  qed
qed

lemma yields_reach:
  assumes "kernel_ok s" "curenv s = Some c" "env_status (envs s c) = ENV_RUNNING"
    "e < NENV" "env_status (envs s e) = ENV_RUNNABLE"
  shows "\<exists>n s'. n \<le> sched_dist s e \<and> yields n s = Some s' \<and> curenv s' = Some e \<and> env_status (envs s' e) = ENV_RUNNING"
  using assms
proof (induction "sched_dist s e" arbitrary: s c rule: less_induct)
  case less
  obtain x s1 where s1: "sched_yield s = Some (Run x, s1)" "kernel_ok s1" "curenv s1 = Some x" "env_status (envs s1 x) = ENV_RUNNING"
    "x = e \<or> sched_dist s1 e < sched_dist s e \<and> env_status (envs s1 e) = ENV_RUNNABLE"
    using yield_progress [OF less.prems] by metis
  have ks: "kinv s" "cur_ok s" using less.prems(1) by (simp_all add: kernel_ok_def)
  have cl: "c \<in> live_envs s" using ks less.prems(2) by (simp add: cur_ok_def)
  have st: "sched_start s = c" using less.prems(2) kinv_live(4) [OF ks(1) cl] by (simp add: sched_start_def)
  have "sched_dist s e \<noteq> 0"
  proof
    assume "sched_dist s e = 0"
    then have "c = e" using dist_pos [OF less.prems(4), of s] st cl by (simp add: live_envs_def)
    then show False using less.prems(3,5) by simp
  qed
  then have pos: "0 < sched_dist s e" by simp
  show ?case
  proof (cases "x = e")
    case True
    then show ?thesis using s1 pos by (intro exI [of _ 1] exI [of _ s1]) simp
  next
    case False
    with s1 less.hyps [of s1 x] less.prems(4) obtain n s' where
      "n \<le> sched_dist s1 e" "yields n s1 = Some s'" "curenv s' = Some e" "env_status (envs s' e) = ENV_RUNNING" by auto
    with False s1 show ?thesis by (intro exI [of _ "Suc n"] exI [of _ s']) auto
  qed
qed

end
