(* ===== verification/Jos_Kernel_Properties.thy ===== *)
theory Jos_Kernel_Properties
  imports Jos_Example Jos_Safety
begin

text \<open>
  What the system calls, traps and the scheduler of JOS guarantee, over the definitions that model
  \<open>kern/syscall.c\<close>, \<open>kern/trap.c\<close>, \<open>kern/sched.c\<close> and \<open>kern/env.c\<close>; the instances are at the example
  state and small variations of it.
\<close>

section \<open>The example state\<close>

lemma ex_kernel_ok: "kernel_ok ex_state"
  using ex_kinv by (simp add: kernel_ok_def cur_ok_def ex_simps ex_live)

lemma ex_no_overflow: "no_overflow ex_state"
  by (simp add: ex_roots_state ex_vpage) (simp add: ex_state_def)





section \<open>Safety\<close>







section \<open>Memory calls\<close>

lemma names_env_unique: "\<lbrakk>kernel_ok s; names_env s c i e; names_env s c i e'\<rbrakk> \<Longrightarrow> e = e'"
  using kinv_live(4) [of s e] kinv_live(4) [of s e'] by (auto simp: names_env_def kernel_ok_def split: if_splits)


lemma ex_alloc_args: "names_env ex_state 0 0 0" "may_control ex_state 0 0" "\<not> bad_va 0x1000" "\<not> bad_perm 7"
  by (simp_all add: names_env_def may_control_def ex_live bad_va_def bad_perm_def layout_defs PTE_SYSCALL_def PGOFF_def)


text \<open>
  C29. The page is lost. When one page is free and a page table is needed, \<open>sys_page_alloc\<close> takes the
  page, fails to insert it and returns without giving it back: it is on no free list, has no
  reference and is mapped nowhere.
\<close>

theorem sys_page_alloc_leaks:
  assumes "kernel_ok s" "curenv s = Some c" "names_env s c envid e" "may_control s c e"
    "\<not> bad_va va" "\<not> bad_perm perm" "free_pages s = [f]" "ptab (roots s) s (pd_page s e, unat (PDX va)) = None"
  shows "\<exists>s'. sys_page_alloc envid va perm s = Some (Ret (serr E_NO_MEM), s') \<and> free_pages s' = [] \<and>
    pp_ref (pages s' f) = 0 \<and> uses (roots s') s' f = 0"
proof -
  have ks: "kinv s" "cur_ok s" using assms(1) by (simp_all add: kernel_ok_def)
  have vm: "vm_inv (roots s) s" using ks by (simp add: kinv_def)
  have f: "f \<in> set (free_pages s)" by (simp add: assms(7))
  note al = alloc_vm [OF vm assms(7)]
  have u: "uses (roots s) (cleared f (unlinked f s)) f = 0" "pp_ref (pages s f) = 0"
    using free_unused(1) [OF vm f] free_pages_ref [OF vm_inv_basic(1) [OF vm] f]
    by (simp_all add: uses_def al(3) vpage_cong [OF al(2)])
  define s1 where "s1 = cleared f (unlinked f s)"
  have el: "e \<in> live_envs s" using assms(3) by (simp add: names_env_def)
  note l = kinv_live [OF ks(1) el]
  have pa: "page_alloc ALLOC_ZERO s = Some (Some f, s1)"
    using page_alloc_frame [OF vm_inv_basic(1) [OF vm] assms(7), of ALLOC_ZERO] by (simp add: s1_def)
  have "page_insert (env_pgdir (envs s1 e)) f va perm s1 = Some (Inl E_NO_MEM, s1)"
    using walk_create_no_mem [OF al(1) l(1) good_va [OF assms(5)]] al(3,5) assms(8) l(2) env_partD [OF al(6)]
    by (simp add: s1_def page_insert_def)
  moreover have "sys_page_alloc envid va perm s = do {
       (pp, s) \<leftarrow> page_alloc ALLOC_ZERO s;
       case pp of None \<Rightarrow> Some (Ret (serr E_NO_MEM), s)
       | Some pp \<Rightarrow> do { (r, s) \<leftarrow> page_insert (env_pgdir (envs s e)) pp va perm s;
           Some (case r of Inl _ \<Rightarrow> Ret (serr E_NO_MEM) | Inr _ \<Rightarrow> Ret 0, s) } }"
    using assms(1,2)
  proof (cases rule: with_env_cases [where envid = envid and cp = True])
    case (found e')
    have "e' = e" by (rule names_env_unique [OF assms(1) found(2) assms(3)])
    then show ?thesis using found(1) assms(5,6) by (simp add: sys_page_alloc_def)
  qed (use assms in blast)
  ultimately show ?thesis using pa al(5,9) u env_part_roots(1) [OF al(6)] by (simp add: s1_def)
qed

text \<open>The example with one free page.\<close>

definition ex_full :: kstate where
  "ex_full = cleared 6 (unlinked 6 (cleared 5 (unlinked 5 ex_state)))"

lemma ex_full_ok:
  shows "kernel_ok ex_full" "curenv ex_full = Some 0" "free_pages ex_full = [7]"
    "ptab (roots ex_full) ex_full = ptab ex_roots ex_state" "pd_page ex_full = pd_page ex_state" "live_envs ex_full = {0, 1}"
proof -
  let ?s = "cleared 5 (unlinked 5 ex_state)"
  have vm: "vm_inv (roots ex_state) ex_state" using ex_kinv by (simp add: kinv_def)
  note a1 = alloc_vm [OF vm ex_free_pages] and r1 = env_part_roots [OF alloc_vm(6) [OF vm ex_free_pages]]
  have k1: "kinv ?s" using kinv_alloc(1) [OF ex_kinv ex_free_pages] .
  then have vm1: "vm_inv (roots ?s) ?s" by (simp add: kinv_def)
  note a2 = alloc_vm [OF vm1 a1(5), folded ex_full_def] and r2 = env_part_roots [OF alloc_vm(6) [OF vm1 a1(5)], folded ex_full_def]
  have c: "curenv ex_full = Some 0" using env_partD [OF a1(6)] env_partD [OF a2(6)] by (simp add: ex_simps)
  then show "curenv ex_full = Some 0" .
  have "kinv ex_full" using kinv_alloc(1) [OF k1 a1(5)] by (simp add: ex_full_def)
  then show "kernel_ok ex_full" using c by (simp add: kernel_ok_def cur_ok_def r1 r2 ex_live)
  show "free_pages ex_full = [7]" by (rule a2(5))
  show "ptab (roots ex_full) ex_full = ptab ex_roots ex_state" using a1(3) a2(3) by (simp add: r1 r2 ex_roots_state)
  show "pd_page ex_full = pd_page ex_state" "live_envs ex_full = {0, 1}" by (simp_all add: r1 r2 ex_live)
qed

theorem sys_page_alloc_leaks_witness:
  "\<exists>s'. sys_page_alloc 0 0x1000 7 ex_full = Some (Ret (serr E_NO_MEM), s') \<and> free_pages s' = [] \<and>
     pp_ref (pages s' 7) = 0 \<and> uses (roots s') s' 7 = 0"
  by (rule sys_page_alloc_leaks [OF ex_full_ok(1,2), of 0 0])
    (use ex_alloc_args ex_full_ok(3-6) in \<open>simp_all add: names_env_def may_control_def ex_ptab ex_pd unat_PDX\<close>)

text \<open>
  C21. \<open>sys_page_map\<close> gives no rights away. When it succeeds, the caller controls both environments,
  the source has the page mapped, the destination's one new mapping names that page and is writable
  only if the source's is, and no other mapping changes.
\<close>

theorem sys_page_map_no_escalation:
  assumes "kernel_ok s" "curenv s = Some c" "no_overflow s"
    "sys_page_map srcenvid srcva dstenvid dstva perm s = Some (Ret 0, s')"
  shows "\<exists>se de w. names_env s c srcenvid se \<and> may_control s c se \<and> names_env s c dstenvid de \<and> may_control s c de \<and>
    vmap (roots s) s (va_key (pd_page s se) srcva) = Some w \<and> (perm AND PTE_W \<noteq> 0 \<longrightarrow> w AND PTE_W \<noteq> 0) \<and>
    vmap (roots s') s' = (vmap (roots s) s)(va_key (pd_page s de) dstva \<mapsto> page2pa (entry_page w) OR perm OR PTE_P)"
  using assms(1-3)
proof (cases rule: sys_page_map_cases [where srcenvid = srcenvid and srcva = srcva and dstenvid = dstenvid
      and dstva = dstva and perm = perm])
  case (mapped se de w t)
  then have "t = s'" using assms(4) by simp
  then show ?thesis using mapped env_part_roots(1) [OF mapped(13)] by (auto simp: mapped_at_def)
qed (use assms(4) in \<open>auto simp: serr_def\<close>)

lemma ex_map_call: "\<exists>s'. sys_page_map 0 0x800000 0x1001 0x3000 7 ex_state = Some (Ret 0, s')"
  using ex_kernel_ok ex_simps(7) ex_no_overflow
proof (cases rule: sys_page_map_cases [where srcenvid = 0 and srcva = "0x800000" and dstenvid = "0x1001"
      and dstva = "0x3000" and perm = 7])
  case bad_env
  have "names_env ex_state 0 0 0" "names_env ex_state 0 0x1001 1" "may_control ex_state 0 0" "may_control ex_state 0 1"
    by (simp_all add: names_env_def may_control_def ex_live ex_simps ex_env_def)
  with bad_env show ?thesis by blast
next
  case inval
  have "envid2env 0 True ex_state = Some (Inr (Some 0))" "envid2env 0x1001 True ex_state = Some (Inr (Some 1))"
    by (simp_all add: envid2env_def ENVX_def ex_simps ex_env_def)
  moreover have "page_lookup (env_pgdir (envs ex_state 0)) 0x800000 ex_state = Some (Some (2, cell 3 0 + KERNBASE))"
    using page_lookup_vm [OF ex_vm_inv, of 0 "0x800000"]
    by (simp add: ex_simps ex_env_def ex_vmap ex_ptab unat_PDX unat_PTX PGNUM_def drop_bit_eq_div)
  moreover have "kload ex_state (cell 3 0 + KERNBASE) = 0x2007" by (simp add: kload_cell ex_phys)
  moreover have "\<not> bad_va 0x800000" "\<not> bad_va 0x3000" by (simp_all add: bad_va_def layout_defs PGOFF_def)
  ultimately show ?thesis
    using inval ex_alloc_args(4)
    by (auto simp: sys_page_map_def with_env_def serr_def split: bind_splits sum.splits)
next
  case no_mem
  then show ?thesis by (simp add: ex_free_pages)
next
  case (mapped se de w s')
  then show ?thesis by blast
qed

theorem sys_page_map_no_escalation_witness:
  "\<exists>s'. sys_page_map 0 0x800000 0x1001 0x3000 7 ex_state = Some (Ret 0, s') \<and>
     vmap (roots s') s' = (vmap ex_roots ex_state)((1, 0, 3) \<mapsto> 0x2007)"
proof -
  obtain s' where s': "sys_page_map 0 0x800000 0x1001 0x3000 7 ex_state = Some (Ret 0, s')" using ex_map_call by blast
  have d: "names_env ex_state 0 0 e \<Longrightarrow> e = 0" "names_env ex_state 0 0x1001 e \<Longrightarrow> e = 1" for e
    by (auto simp: names_env_def ex_live ex_simps ex_env_def)
  obtain se de w where "names_env ex_state 0 0 se" "names_env ex_state 0 0x1001 de"
    "vmap (roots ex_state) ex_state (va_key (pd_page ex_state se) 0x800000) = Some w"
    "vmap (roots s') s' = (vmap (roots ex_state) ex_state)(va_key (pd_page ex_state de) 0x3000 \<mapsto> page2pa (entry_page w) OR 7 OR PTE_P)"
    using sys_page_map_no_escalation [OF ex_kernel_ok _ ex_no_overflow s', of 0] by (auto simp: ex_simps)
  then show ?thesis
    using s' d [of se] d [of de]
    by (auto simp: ex_roots_state ex_vmap ex_pd unat_PDX unat_PTX PGNUM_def drop_bit_eq_div page2pa_of_nat)
qed

section \<open>Creating environments\<close>

text \<open>
  C22. \<open>sys_exofork\<close> fails without a change when the environment table or memory is exhausted;
  otherwise the new environment is a child of the caller, stopped, with a copy of the caller's
  registers except for the result 0, no mapping below \<open>UTOP\<close>, and an id that names exactly it.
\<close>

theorem sys_exofork_spec:
  assumes "kernel_ok s" "curenv s = Some c"
  shows "(sys_exofork s = Some (Ret (serr E_NO_FREE_ENV), s) \<and> free_envs s = []) \<or>
    (sys_exofork s = Some (Ret (serr E_NO_MEM), s) \<and> free_pages s = []) \<or>
    (\<exists>e s'. sys_exofork s = Some (Ret (env_id (envs s' e)), s') \<and> kernel_ok s' \<and>
       e \<notin> live_envs s \<and> live_envs s' = insert e (live_envs s) \<and> (\<forall>x. x \<noteq> e \<longrightarrow> envs s' x = envs s x) \<and>
       env_status (envs s' e) = ENV_NOT_RUNNABLE \<and> env_parent_id (envs s' e) = env_id (envs s c) \<and>
       env_tf (envs s' e) = (env_tf (envs s c))\<lparr>tf_regs := (tf_regs (env_tf (envs s c)))\<lparr>reg_eax := 0\<rparr>\<rparr> \<and>
       (\<forall>d t. vmap (roots s') s' (pd_page s' e, d, t) = None) \<and> vmap (roots s') s' = vmap (roots s) s \<and>
       envid2env (env_id (envs s' e)) True s' = Some (Inr (Some e)))"
  using assms
proof (cases rule: sys_exofork_cases)
  case (forked e s')
  have "e \<in> live_envs s'" "kinv s'" using forked by (simp_all add: kernel_ok_def)
  note l = kinv_live [OF this(2,1)]
  have ec: "e \<noteq> c" using assms forked(3) by (auto simp: kernel_ok_def cur_ok_def)
  have "vmap (roots s') s' (pd_page s' e, d, t) = None" for d t
    using forked(6,7) by (simp add: vmap_def ptab_def)
  moreover have "envid2env (env_id (envs s' e)) True s' = Some (Inr (Some e))"
    using l(4,5) \<open>e \<in> live_envs s'\<close> forked(5,8,10) ec by (simp add: envid2env_def live_envs_def)
  ultimately show ?thesis using forked by blast
qed auto

theorem sys_exofork_spec_witness:
  "\<exists>e s'. sys_exofork ex_state = Some (Ret (env_id (envs s' e)), s') \<and> env_parent_id (envs s' e) = 0x1000 \<and>
     e \<notin> live_envs ex_state \<and> live_envs s' = insert e {0, 1} \<and> env_status (envs s' e) = ENV_NOT_RUNNABLE"
proof -
  have "env_id (envs ex_state 0) = 0x1000" by (simp add: ex_simps ex_env_def)
  then show ?thesis
    using sys_exofork_spec [OF ex_kernel_ok ex_simps(7)] by (auto simp: ex_free_envs ex_free_pages ex_live)
qed



section \<open>Messages\<close>

text \<open>
  C23. \<open>sys_ipc_try_send\<close>. A send to an environment that is not waiting, or already served, fails with
  \<open>E_IPC_NOT_RECV\<close>; a send without a page to one that waits succeeds; a send that fails changes
  nothing; one that succeeds finds the receiver waiting,
  stores the value and the sender's id, ends the wait and makes it runnable with result 0. A page
  goes along only from the sender's own mapping, never with more rights than that.
\<close>

theorem sys_ipc_try_send_spec:
  assumes "kernel_ok s" "curenv s = Some c" "no_overflow s" "window_ok s c envid srcva" "names_env s c envid e"
  shows "\<exists>r s'. sys_ipc_try_send envid val srcva perm s = Some (Ret r, s') \<and>
    (\<not> env_ipc_recving (envs s e) \<or> env_ipc_from (envs s e) \<noteq> 0 \<longrightarrow> r = serr E_IPC_NOT_RECV) \<and>
    (env_ipc_recving (envs s e) \<and> env_ipc_from (envs s e) = 0 \<and> UTOP \<le> srcva \<longrightarrow> r = 0) \<and>
    (r \<noteq> 0 \<longrightarrow> s' = s) \<and>
    (r = 0 \<longrightarrow> env_ipc_value (envs s' e) = val \<and> env_ipc_from (envs s' e) = env_id (envs s c) \<and>
       \<not> env_ipc_recving (envs s' e) \<and> env_status (envs s' e) = ENV_RUNNABLE \<and>
       reg_eax (tf_regs (env_tf (envs s' e))) = 0 \<and>
       (vmap (roots s') s' = vmap (roots s) s \<or>
        (\<exists>w. vmap (roots s) s (va_key (pd_page s c) srcva) = Some w \<and> (perm AND PTE_W \<noteq> 0 \<longrightarrow> w AND PTE_W \<noteq> 0) \<and>
          vmap (roots s') s' = (vmap (roots s) s)(va_key (pd_page s e) (env_ipc_dstva (envs s e)) \<mapsto>
            page2pa (entry_page w) OR perm OR PTE_P))))"
  using assms(1-3) assms(4) [unfolded window_ok_def]
proof (cases rule: sys_ipc_try_send_cases [where val = val and perm = perm])
  case bad_env
  then show ?thesis using assms(5) by blast
next
  case (not_recv e')
  then show ?thesis using names_env_unique [OF assms(1) not_recv(2) assms(5)] by (auto simp: serr_def)
next
  case (failed e' err)
  have "serr err \<noteq> 0" using failed(3) by (auto simp: serr_def)
  moreover have "e' = e" by (rule names_env_unique [OF assms(1) failed(2) assms(5)])
  ultimately show ?thesis using failed by simp
next
  case (sent e' s1)
  have e: "e' = e" by (rule names_env_unique [OF assms(1) sent(2) assms(5)])
  have "e \<in> live_envs s1" using sent(7) assms(5) by (simp add: names_env_def)
  note d = ipc_deliver_same [OF this, where i = "env_id (envs s c)" and v = val]
  have "vmap (roots s1) s1 = vmap (roots s) s \<or>
        (\<exists>w. vmap (roots s) s (va_key (pd_page s c) srcva) = Some w \<and> (perm AND PTE_W \<noteq> 0 \<longrightarrow> w AND PTE_W \<noteq> 0) \<and>
          vmap (roots s1) s1 = (vmap (roots s) s)(va_key (pd_page s e) (env_ipc_dstva (envs s e)) \<mapsto>
            page2pa (entry_page w) OR perm OR PTE_P))"
    using sent(10)
  proof
    assume "\<exists>w s2. s1 = upd_env e' (\<lambda>v. v\<lparr>env_ipc_perm := perm\<rparr>) s2 \<and> srcva < UTOP \<and>
         vmap (roots s) s (va_key (pd_page s c) srcva) = Some w \<and> (perm AND PTE_W \<noteq> 0 \<longrightarrow> w AND PTE_W \<noteq> 0) \<and>
         mapped_at (roots s) (pd_page s e') (env_ipc_dstva (envs s e')) (entry_page w) perm s s2"
    then obtain w s2 where s2: "s1 = upd_env e (\<lambda>v. v\<lparr>env_ipc_perm := perm\<rparr>) s2"
      "vmap (roots s) s (va_key (pd_page s c) srcva) = Some w" "perm AND PTE_W \<noteq> 0 \<longrightarrow> w AND PTE_W \<noteq> 0"
      "mapped_at (roots s) (pd_page s e) (env_ipc_dstva (envs s e)) (entry_page w) perm s s2" using e by blast
    have "env_part s2 = env_part s" using s2(4) by (simp add: mapped_at_def)
    moreover have "same_space s2 s1" unfolding s2(1) by (rule same_space_upd_env) simp_all
    ultimately have "roots s1 = roots s" "vmap (roots s) s1 = vmap (roots s) s2"
      using env_part_roots(1) same_space_inv(2,5) by metis+
    then show ?thesis using s2 by (auto simp: mapped_at_def)
  qed simp
  then show ?thesis
    using sent(1,3,4) e same_space_inv(2,5) [OF d(1)] by (auto simp: ipc_deliver_def)
qed

theorem sys_ipc_try_send_spec_witness:
  "\<exists>s'. sys_ipc_try_send 0x1001 42 UTOP 0 ex_state = Some (Ret 0, s') \<and>
     env_ipc_value (envs s' 1) = 42 \<and> env_ipc_from (envs s' 1) = 0x1000 \<and> env_status (envs s' 1) = ENV_RUNNABLE"
proof -
  have "names_env ex_state 0 0x1001 1" by (simp add: names_env_def ex_live ex_simps ex_env_def)
  moreover have "window_ok ex_state 0 0x1001 UTOP" by (simp add: window_ok_def)
  moreover have "env_ipc_recving (envs ex_state 1)" "env_ipc_from (envs ex_state 1) = 0" "env_id (envs ex_state 0) = 0x1000"
    by (simp_all add: ex_simps ex_env_def)
  ultimately show ?thesis
    using sys_ipc_try_send_spec [OF ex_kernel_ok ex_simps(7) ex_no_overflow, of "0x1001" UTOP 1 42 0] by auto
qed

section \<open>Scheduling\<close>

text \<open>
  C11. No starvation. Under repeated \<open>sched_yield\<close>, an environment that is runnable is running after
  at most as many rounds as there are slots of the table between the running one and it.
\<close>

theorem sched_fair:
  assumes "kernel_ok s" "curenv s = Some c" "env_status (envs s c) = ENV_RUNNING"
    "e < NENV" "env_status (envs s e) = ENV_RUNNABLE"
  shows "\<exists>n s'. n \<le> sched_dist s e \<and> sched_dist s e < NENV \<and> yields n s = Some s' \<and>
    curenv s' = Some e \<and> env_status (envs s' e) = ENV_RUNNING"
  using yields_reach [OF assms] by (auto simp: sched_dist_def)

text \<open>The example with environment 1 runnable.\<close>

definition ex_two :: kstate where
  "ex_two = upd_env 1 (\<lambda>v. v\<lparr>env_status := ENV_RUNNABLE\<rparr>) ex_state"

lemma ex_two_ok: "kernel_ok ex_two" "curenv ex_two = Some 0"
proof -
  have ss: "same_space ex_state ex_two"
    unfolding ex_two_def by (rule same_space_upd_env) (simp_all add: ex_simps ex_env_def)
  show c: "curenv ex_two = Some 0" by (simp add: ex_two_def ex_simps)
  show "kernel_ok ex_two" using kernel_ok_same [OF ex_kernel_ok ss] c by (simp add: ex_simps)
qed

theorem sched_fair_witness: "\<exists>n s'. n \<le> 1 \<and> yields n ex_two = Some s' \<and> curenv s' = Some 1"
proof -
  have "sched_dist ex_two 1 = 1"
    by (simp add: sched_dist_def sched_start_def ex_two_ok) (simp add: ex_two_def ex_simps ex_env_def ENVX_def)
  then show ?thesis
    using sched_fair [OF ex_two_ok, of 1] by (auto simp: ex_two_def ex_simps ex_env_def)
qed

text \<open>
  The search includes the current environment. One that marks itself runnable (by
  \<open>sys_env_set_status\<close>) before it gives up the processor is chosen again, however many others are
  waiting.
\<close>

theorem sched_yield_picks_self:
  assumes "kernel_ok s" "curenv s = Some c" "env_status (envs s c) = ENV_RUNNABLE"
  shows "\<exists>s'. sched_yield s = Some (Run c, s') \<and> curenv s' = Some c"
proof -
  have ks: "kinv s" "cur_ok s" using assms(1) by (simp_all add: kernel_ok_def)
  have cl: "c \<in> live_envs s" using ks assms(2) by (simp add: cur_ok_def)
  have st: "sched_start s = c" using assms(2) kinv_live(4) [OF ks(1) cl] by (simp add: sched_start_def)
  have "sched_pick s = Some c"
  proof (cases rule: sched_pick_cases [of s])
    case none
    then show ?thesis using assms(3) cl by (simp add: live_envs_def)
  next
    case (some i)
    have "i = 0"
    proof (rule ccontr)
      assume "i \<noteq> 0"
      then have "env_status (envs s ((sched_start s + 0) mod NENV)) \<noteq> ENV_RUNNABLE" using some(4) by blast
      then show False using assms(3) st cl by (simp add: live_envs_def)
    qed
    then show ?thesis using some(2) st cl by (simp add: live_envs_def)
  qed
  moreover obtain s' where "env_run c s = Some s'" "curenv s' = Some c" using env_run_ok [OF ks(1) cl ks(2)] by metis
  ultimately show ?thesis by (simp add: sched_yield_def)
qed

definition ex_greedy :: kstate where
  "ex_greedy = upd_env 0 (\<lambda>v. v\<lparr>env_status := ENV_RUNNABLE\<rparr>) ex_two"

theorem sched_yield_picks_self_witness:
  "env_status (envs ex_greedy 1) = ENV_RUNNABLE \<and> (\<exists>s'. sched_yield ex_greedy = Some (Run 0, s'))"
proof -
  have ss: "same_space ex_two ex_greedy"
    unfolding ex_greedy_def by (rule same_space_upd_env) (simp_all add: ex_two_def ex_simps ex_env_def)
  have c: "curenv ex_greedy = Some 0" by (simp add: ex_greedy_def ex_two_ok)
  have "kernel_ok ex_greedy" using kernel_ok_same [OF ex_two_ok(1) ss] c by (simp add: ex_two_ok)
  then have "\<exists>s'. sched_yield ex_greedy = Some (Run 0, s') \<and> curenv s' = Some 0"
    using c by (rule sched_yield_picks_self) (simp add: ex_greedy_def)
  then show ?thesis by (auto simp: ex_greedy_def ex_two_def)
qed

end
