(* ===== verification/Jos_String.thy ===== *)
theory Jos_String
  imports Prelude
begin

text \<open>
  The string routines of JOS (\<open>lib/string.c\<close>), shared by the kernel and user programs. Memory is a
  function from addresses to bytes; a routine that scans for a terminator runs on until it finds
  one, so such loops are partial. Pointers are 32-bit words and wrap around as the machine's do.
\<close>

type_synonym cmem = "u32 \<Rightarrow> u8"

lemma unat_pred: "0 < x \<Longrightarrow> unat (x - 1) < unat x" for x :: u32
  by (simp add: unat_minus_one word_gt_0) (simp add: word_gt_0 [symmetric] unat_gt_0)

section \<open>Routines\<close>

partial_function (option) strlen_loop :: "cmem \<Rightarrow> u32 \<Rightarrow> u32 \<Rightarrow> u32 option" where
  "strlen_loop m s n = (if m s \<noteq> 0 then strlen_loop m (s + 1) (n + 1) else Some n)"

definition strlen :: "cmem \<Rightarrow> u32 \<Rightarrow> u32 option" where
  "strlen m s = strlen_loop m s 0"

function strnlen_loop :: "cmem \<Rightarrow> u32 \<Rightarrow> u32 \<Rightarrow> u32 \<Rightarrow> u32" where
  "strnlen_loop m s sz n = (if 0 < sz \<and> m s \<noteq> 0 then strnlen_loop m (s + 1) (sz - 1) (n + 1) else n)"
  by auto
termination
  by (relation "measure (\<lambda>(m, s, sz, n). unat sz)") (simp_all add: unat_pred)

definition strnlen :: "cmem \<Rightarrow> u32 \<Rightarrow> u32 \<Rightarrow> u32" where
  "strnlen m s sz = strnlen_loop m s sz 0"

partial_function (option) strcpy_loop :: "u32 \<Rightarrow> u32 \<Rightarrow> cmem \<Rightarrow> cmem option" where
  "strcpy_loop dst src m =
     (let c = m src; m = m(dst := c) in if c \<noteq> 0 then strcpy_loop (dst + 1) (src + 1) m else Some m)"

definition strcpy :: "u32 \<Rightarrow> u32 \<Rightarrow> cmem \<Rightarrow> (u32 \<times> cmem) option" where
  "strcpy dst src m = do { m \<leftarrow> strcpy_loop dst src m; Some (dst, m) }"

definition strcat :: "u32 \<Rightarrow> u32 \<Rightarrow> cmem \<Rightarrow> (u32 \<times> cmem) option" where
  "strcat dst src m = do { len \<leftarrow> strlen m dst; (_, m) \<leftarrow> strcpy (dst + len) src m; Some (dst, m) }"

text \<open>The number of rounds left stands for \<open>size - i\<close>.\<close>

primrec strncpy_loop :: "nat \<Rightarrow> u32 \<Rightarrow> u32 \<Rightarrow> cmem \<Rightarrow> cmem" where
  "strncpy_loop 0 dst src m = m"
| "strncpy_loop (Suc k) dst src m =
     (let m = m(dst := m src) in strncpy_loop k (dst + 1) (if m src \<noteq> 0 then src + 1 else src) m)"

definition strncpy :: "u32 \<Rightarrow> u32 \<Rightarrow> u32 \<Rightarrow> cmem \<Rightarrow> u32 \<times> cmem" where
  "strncpy dst src sz m = (dst, strncpy_loop (unat sz) dst src m)"

text \<open>\<open>size\<close> has been decremented once before the loop condition is looked at.\<close>

primrec strlcpy_loop :: "nat \<Rightarrow> u32 \<Rightarrow> u32 \<Rightarrow> cmem \<Rightarrow> u32 \<times> cmem" where
  "strlcpy_loop 0 dst src m = (dst, m)"
| "strlcpy_loop (Suc k) dst src m =
     (if m src \<noteq> 0 then strlcpy_loop k (dst + 1) (src + 1) (m(dst := m src)) else (dst, m))"

definition strlcpy :: "u32 \<Rightarrow> u32 \<Rightarrow> u32 \<Rightarrow> cmem \<Rightarrow> u32 \<times> cmem" where
  "strlcpy dst src sz m =
     (if 0 < sz
      then let (p, m) = strlcpy_loop (unat sz - 1) dst src m in (p - dst, m(p := 0))
      else (0, m))"

partial_function (option) strcmp :: "cmem \<Rightarrow> u32 \<Rightarrow> u32 \<Rightarrow> int option" where
  "strcmp m p q =
     (if m p \<noteq> 0 \<and> m p = m q then strcmp m (p + 1) (q + 1) else Some (uint (m p) - uint (m q)))"

function strncmp :: "cmem \<Rightarrow> u32 \<Rightarrow> u32 \<Rightarrow> u32 \<Rightarrow> int" where
  "strncmp m p q n =
     (if 0 < n \<and> m p \<noteq> 0 \<and> m p = m q then strncmp m (p + 1) (q + 1) (n - 1)
      else if n = 0 then 0 else uint (m p) - uint (m q))"
  by auto
termination
  by (relation "measure (\<lambda>(m, p, q, n). unat n)") (simp_all add: unat_pred)

partial_function (option) strchr :: "cmem \<Rightarrow> u32 \<Rightarrow> u8 \<Rightarrow> u32 option" where
  "strchr m s c = (if m s \<noteq> 0 then if m s = c then Some s else strchr m (s + 1) c else Some 0)"

partial_function (option) strfind :: "cmem \<Rightarrow> u32 \<Rightarrow> u8 \<Rightarrow> u32 option" where
  "strfind m s c = (if m s \<noteq> 0 \<and> m s \<noteq> c then strfind m (s + 1) c else Some s)"

text \<open>The repeated string instructions, with the direction flag clear and set.\<close>

primrec rep_stosb :: "nat \<Rightarrow> u8 \<Rightarrow> u32 \<Rightarrow> cmem \<Rightarrow> cmem" where
  "rep_stosb 0 c p m = m"
| "rep_stosb (Suc k) c p m = rep_stosb k c (p + 1) (m(p := c))"

definition store32 :: "u32 \<Rightarrow> u32 \<Rightarrow> cmem \<Rightarrow> cmem" where
  "store32 p w m = m(p := ucast w, p + 1 := ucast (drop_bit 8 w), p + 2 := ucast (drop_bit 16 w),
     p + 3 := ucast (drop_bit 24 w))"

primrec rep_stosl :: "nat \<Rightarrow> u32 \<Rightarrow> u32 \<Rightarrow> cmem \<Rightarrow> cmem" where
  "rep_stosl 0 w p m = m"
| "rep_stosl (Suc k) w p m = rep_stosl k w (p + 4) (store32 p w m)"

definition copy32 :: "u32 \<Rightarrow> u32 \<Rightarrow> cmem \<Rightarrow> cmem" where
  "copy32 d s m = m(d := m s, d + 1 := m (s + 1), d + 2 := m (s + 2), d + 3 := m (s + 3))"

primrec rep_movsb :: "nat \<Rightarrow> u32 \<Rightarrow> u32 \<Rightarrow> cmem \<Rightarrow> cmem" where
  "rep_movsb 0 d s m = m"
| "rep_movsb (Suc k) d s m = rep_movsb k (d + 1) (s + 1) (m(d := m s))"

primrec rep_movsl :: "nat \<Rightarrow> u32 \<Rightarrow> u32 \<Rightarrow> cmem \<Rightarrow> cmem" where
  "rep_movsl 0 d s m = m"
| "rep_movsl (Suc k) d s m = rep_movsl k (d + 4) (s + 4) (copy32 d s m)"

primrec rep_movsb_std :: "nat \<Rightarrow> u32 \<Rightarrow> u32 \<Rightarrow> cmem \<Rightarrow> cmem" where
  "rep_movsb_std 0 d s m = m"
| "rep_movsb_std (Suc k) d s m = rep_movsb_std k (d - 1) (s - 1) (m(d := m s))"

primrec rep_movsl_std :: "nat \<Rightarrow> u32 \<Rightarrow> u32 \<Rightarrow> cmem \<Rightarrow> cmem" where
  "rep_movsl_std 0 d s m = m"
| "rep_movsl_std (Suc k) d s m = rep_movsl_std k (d - 4) (s - 4) (copy32 d s m)"

definition memset :: "u32 \<Rightarrow> u32 \<Rightarrow> u32 \<Rightarrow> cmem \<Rightarrow> u32 \<times> cmem" where
  "memset v c n m =
     (if n = 0 then (v, m)
      else if v mod 4 = 0 \<and> n mod 4 = 0
      then let c = c AND 0xFF; c = push_bit 24 c OR push_bit 16 c OR push_bit 8 c OR c
           in (v, rep_stosl (unat (n div 4)) c v m)
      else (v, rep_stosb (unat n) (ucast c) v m))"

definition memmove :: "u32 \<Rightarrow> u32 \<Rightarrow> u32 \<Rightarrow> cmem \<Rightarrow> u32 \<times> cmem" where
  "memmove dst src n m =
     (if src < dst \<and> dst < src + n
      then let s = src + n; d = dst + n
           in if s mod 4 = 0 \<and> d mod 4 = 0 \<and> n mod 4 = 0
              then (dst, rep_movsl_std (unat (n div 4)) (d - 4) (s - 4) m)
              else (dst, rep_movsb_std (unat n) (d - 1) (s - 1) m)
      else if src mod 4 = 0 \<and> dst mod 4 = 0 \<and> n mod 4 = 0
      then (dst, rep_movsl (unat (n div 4)) dst src m)
      else (dst, rep_movsb (unat n) dst src m))"

definition memcpy :: "u32 \<Rightarrow> u32 \<Rightarrow> u32 \<Rightarrow> cmem \<Rightarrow> u32 \<times> cmem" where
  "memcpy dst src n m = memmove dst src n m"

primrec memcmp_loop :: "nat \<Rightarrow> cmem \<Rightarrow> u32 \<Rightarrow> u32 \<Rightarrow> int" where
  "memcmp_loop 0 m s1 s2 = 0"
| "memcmp_loop (Suc k) m s1 s2 =
     (if m s1 \<noteq> m s2 then uint (m s1) - uint (m s2) else memcmp_loop k m (s1 + 1) (s2 + 1))"

definition memcmp :: "cmem \<Rightarrow> u32 \<Rightarrow> u32 \<Rightarrow> u32 \<Rightarrow> int" where
  "memcmp m v1 v2 n = memcmp_loop (unat n) m v1 v2"

function memfind_loop :: "cmem \<Rightarrow> u32 \<Rightarrow> u32 \<Rightarrow> u8 \<Rightarrow> u32" where
  "memfind_loop m s ends c = (if s < ends \<and> m s \<noteq> c then memfind_loop m (s + 1) ends c else s)"
  by auto
termination
proof (relation "measure (\<lambda>(m, s, ends, c). unat ends - unat s)")
  fix m :: cmem and s ends c
  assume "s < ends \<and> m s \<noteq> c"
  then have l: "unat s < unat ends" by (simp add: word_less_nat_alt)
  moreover have "unat ends < 4294967296" by (rule unat_less_32)
  ultimately have "unat (s + 1) = unat s + 1" by (simp add: unat_add_no_wrap)
  then show "((m, s + 1, ends, c), (m, s, ends, c)) \<in> measure (\<lambda>(m, s, ends, c). unat ends - unat s)"
    using l by simp
qed simp

definition memfind :: "cmem \<Rightarrow> u32 \<Rightarrow> u32 \<Rightarrow> u32 \<Rightarrow> u32" where
  "memfind m s c n = memfind_loop m s (s + n) (ucast c)"

text \<open>
  \<open>strtol\<close>: \<open>long\<close> has 32 bits and the arithmetic on it wraps. \<open>digit\<close> is the inner \<open>if\<close>, \<^const>\<open>None\<close> the
  first \<open>break\<close>.
\<close>

definition digit :: "u8 \<Rightarrow> u32 option" where
  "digit c = (if 48 \<le> c \<and> c \<le> 57 then Some (ucast c - 48)
     else if 97 \<le> c \<and> c \<le> 122 then Some (ucast c - 97 + 10)
     else if 65 \<le> c \<and> c \<le> 90 then Some (ucast c - 65 + 10) else None)"

partial_function (option) strtol_blanks :: "cmem \<Rightarrow> u32 \<Rightarrow> u32 option" where
  "strtol_blanks m s = (if m s = 32 \<or> m s = 9 then strtol_blanks m (s + 1) else Some s)"

partial_function (option) strtol_digits :: "cmem \<Rightarrow> u32 \<Rightarrow> u32 \<Rightarrow> u32 \<Rightarrow> (u32 \<times> u32) option" where
  "strtol_digits m s base val =
     (case digit (m s) of
        None \<Rightarrow> Some (s, val)
      | Some dig \<Rightarrow> if sint base \<le> sint dig then Some (s, val) else strtol_digits m (s + 1) base (val * base + dig))"

definition strtol :: "cmem \<Rightarrow> u32 \<Rightarrow> u32 \<Rightarrow> (u32 \<times> u32) option" where
  "strtol m s base = do {
     s \<leftarrow> strtol_blanks m s;
     let (s, neg) = (if m s = 43 then (s + 1, False) else if m s = 45 then (s + 1, True) else (s, False));
     let (s, base) = (if (base = 0 \<or> base = 16) \<and> m s = 48 \<and> m (s + 1) = 120 then (s + 2, 16)
                      else if base = 0 \<and> m s = 48 then (s + 1, 8)
                      else if base = 0 then (s, 10) else (s, base));
     (s, val) \<leftarrow> strtol_digits m s base 0;
     Some (if neg then - val else val, s)
   }"

end
