(* ===== verification/Jos_String_Spec.thy ===== *)
theory Jos_String_Spec
  imports Jos_String
begin

text \<open>
  What the string routines compute: the word-at-a-time \<open>memset\<close> and \<open>memmove\<close> agree with their
  byte-wise specifications, \<open>memmove\<close> for overlapping blocks as well, and the routines on terminated
  strings return on such strings and do what the C library says.
\<close>

section \<open>Copying and filling memory\<close>

text \<open>The addresses of a block, by their offset.\<close>

abbreviation (input) off :: "u32 \<Rightarrow> nat \<Rightarrow> u32" where "off p i \<equiv> p + of_nat i"

lemma off_inj: "\<lbrakk>i < 4294967296; j < 4294967296\<rbrakk> \<Longrightarrow> off p i = off p j \<longleftrightarrow> i = j"
proof
  assume a: "i < 4294967296" "j < 4294967296" and "off p i = off p j"
  then have "unat (of_nat i :: u32) = unat (of_nat j :: u32)" by simp
  with a show "i = j" by simp
qed simp

lemma off_Suc: "off (p + 1) i = off p (Suc i)"
  by (simp add: algebra_simps)

lemma off_0 [simp]: "off p 0 = p" by simp

lemma off_4: "off (p + 4) i = off p (i + 4)"
  by (simp add: algebra_simps)

lemma in_block: "a - p < n \<longleftrightarrow> (\<exists>i < unat n. a = off p i)" for a p n :: u32
proof
  assume "a - p < n"
  then show "\<exists>i < unat n. a = off p i"
    by (intro exI [of _ "unat (a - p)"]) (simp add: word_less_nat_alt)
next
  assume "\<exists>i < unat n. a = off p i"
  then obtain i where i: "i < unat n" "a = off p i" by blast
  then have "unat (a - p) = i" using unat_less_32 [of n] by simp
  then show "a - p < n" using i by (simp add: word_less_nat_alt)
qed

lemma rep_stosb_spec:
  "k \<le> 4294967296 \<Longrightarrow> rep_stosb k c p m = (\<lambda>a. if \<exists>i < k. a = off p i then c else m a)"
proof (induction k arbitrary: p m)
  case 0
  then show ?case by simp
next
  case (Suc k)
  then have "rep_stosb (Suc k) c p m = (\<lambda>a. if \<exists>i < k. a = off p (Suc i) then c else (m(p := c)) a)"
    unfolding rep_stosb.simps off_Suc [symmetric] by simp
  moreover have "(\<exists>i < Suc k. a = off p i) \<longleftrightarrow> a = p \<or> (\<exists>i < k. a = off p (Suc i))" for a
    unfolding Ex_less_Suc2 by simp
  ultimately show ?case by (auto simp: fun_eq_iff)
qed

lemma rep_stosb_add: "rep_stosb (j + k) c p m = rep_stosb k c (off p j) (rep_stosb j c p m)"
  by (induction j arbitrary: p m) (simp_all add: algebra_simps)

lemma fill_bytes:
  fixes c :: u32
  defines "w \<equiv> push_bit 24 (c AND 0xFF) OR push_bit 16 (c AND 0xFF) OR push_bit 8 (c AND 0xFF) OR (c AND 0xFF)"
  shows "ucast w = (ucast c :: u8)" "ucast (drop_bit 8 w) = (ucast c :: u8)"
    "ucast (drop_bit 16 w) = (ucast c :: u8)" "ucast (drop_bit 24 w) = (ucast c :: u8)"
proof -
  have b: "bit w n = (n < 32 \<and> bit c (n mod 8))" for n
  proof -
    have ff: "(0xFF :: u32) = mask 8" by (simp add: mask_eq_decr_exp)
    have n: "n < 8 \<or> (8 \<le> n \<and> n < 16) \<or> (16 \<le> n \<and> n < 24) \<or> (24 \<le> n \<and> n < 32) \<or> 32 \<le> n" by linarith
    then show ?thesis
      by (auto simp: w_def ff bit_or_iff bit_and_iff bit_push_bit_iff bit_mask_iff mod_if bit_imp_possible_bit
          dest: bit_imp_le_length)
  qed
  have m: "(16 + n) mod 8 = n" "(24 + n) mod 8 = n" if "n < 8" for n :: nat using that by presburger+
  show "ucast w = (ucast c :: u8)" "ucast (drop_bit 8 w) = (ucast c :: u8)"
    "ucast (drop_bit 16 w) = (ucast c :: u8)" "ucast (drop_bit 24 w) = (ucast c :: u8)"
    by (auto intro!: bit_eqI simp: bit_ucast_iff bit_drop_bit_eq b m)
qed

lemma rep_stosl_bytes:
  assumes "ucast w = (c :: u8)" "ucast (drop_bit 8 w) = c" "ucast (drop_bit 16 w) = c" "ucast (drop_bit 24 w) = c"
  shows "rep_stosl k w p m = rep_stosb (4 * k) c p m"
proof (induction k arbitrary: p m)
  case 0
  then show ?case by simp
next
  case (Suc k)
  have "store32 p w m = rep_stosb 4 c p m"
  proof -
    have "(4 :: nat) = Suc (Suc (Suc (Suc 0)))" by simp
    then show ?thesis by (simp only: rep_stosb.simps) (simp add: store32_def assms add.assoc)
  qed
  then show ?case using Suc rep_stosb_add [of 4 "4 * k" c p m] by simp
qed

lemma memset_spec: "memset v c n m = (v, \<lambda>a. if a - v < n then ucast c else m a)"
proof -
  have b: "rep_stosb (unat n) (ucast c) v m = (\<lambda>a. if a - v < n then ucast c else m a)"
    using unat_less_32 [of n] by (simp add: rep_stosb_spec in_block)
  show ?thesis
  proof (cases "n mod 4 = 0")
    case True
    then have "unat n mod 4 = 0" by (simp add: word_eq_unat unat_mod)
    then have "4 * unat (n div 4) = unat n" by (auto simp: unat_div)
    then show ?thesis unfolding memset_def Let_def rep_stosl_bytes [OF fill_bytes] using b by auto
  next
    case False
    then show ?thesis using b by (simp add: memset_def)
  qed
qed

text \<open>Copying upwards is right when no byte is overwritten before it is read.\<close>

lemma rep_movsb_spec:
  assumes "k \<le> 4294967296" "\<And>i j. \<lbrakk>i < j; j < k\<rbrakk> \<Longrightarrow> off d i \<noteq> off s j"
  shows "(\<forall>i < k. rep_movsb k d s m (off d i) = m (off s i)) \<and> (\<forall>a. (\<forall>i < k. a \<noteq> off d i) \<longrightarrow> rep_movsb k d s m a = m a)"
  using assms
proof (induction k arbitrary: d s m)
  case 0
  then show ?case by simp
next
  case (Suc k)
  define m1 where "m1 = m(d := m s)"
  have h: "off (d + 1) i \<noteq> off (s + 1) j" if "i < j" "j < k" for i j
    using Suc.prems(2) [of "Suc i" "Suc j"] that by (simp only: off_Suc) simp
  have d: "off d (Suc i) \<noteq> d" if "i < k" for i
    using off_inj [of "Suc i" 0 d] that Suc.prems(1) by simp
  have "m1 (off s (Suc i)) = m (off s (Suc i))" if "i < k" for i
    using Suc.prems(2) [of 0 "Suc i"] that by (simp add: m1_def)
  moreover have "k \<le> 4294967296" using Suc.prems(1) by simp
  note ih = Suc.IH [OF this h, of m1, unfolded off_Suc]
  have e: "rep_movsb (Suc k) d s m = rep_movsb k (d + 1) (s + 1) m1" by (simp add: m1_def)
  have "rep_movsb (Suc k) d s m d = m s"
    using ih d unfolding e by (metis fun_upd_same m1_def)
  moreover have "\<And>a. a \<noteq> d \<Longrightarrow> m1 a = m a" by (simp add: m1_def)
  ultimately show ?case
    using ih d unfolding e All_less_Suc2 by auto
qed

lemma rep_movsb_add: "rep_movsb (j + k) d s m = rep_movsb k (off d j) (off s j) (rep_movsb j d s m)"
  by (induction j arbitrary: d s m) (simp_all add: algebra_simps)

lemma four: "(4 :: nat) = Suc (Suc (Suc (Suc 0)))"
  by simp

lemma copy32_up:
  assumes "\<And>i j. \<lbrakk>i < j; j < 4\<rbrakk> \<Longrightarrow> off d i \<noteq> off s j"
  shows "copy32 d s m = rep_movsb 4 d s m"
proof -
  have "d \<noteq> s + 1" "d \<noteq> s + 2" "d \<noteq> s + 3" "d + 1 \<noteq> s + 2" "d + 1 \<noteq> s + 3" "d + 2 \<noteq> s + 3"
    using assms [of 0 1] assms [of 0 2] assms [of 0 3] assms [of 1 2] assms [of 1 3] assms [of 2 3] by simp_all
  then show ?thesis unfolding four rep_movsb.simps copy32_def by (simp add: add.assoc)
qed

lemma rep_movsl_bytes:
  assumes "\<And>i j. \<lbrakk>i < j; j < 4 * k\<rbrakk> \<Longrightarrow> off d i \<noteq> off s j"
  shows "rep_movsl k d s m = rep_movsb (4 * k) d s m"
  using assms
proof (induction k arbitrary: d s m)
  case 0
  then show ?case by simp
next
  case (Suc k)
  have "copy32 d s m = rep_movsb 4 d s m" using Suc.prems by (intro copy32_up) simp
  moreover have "off (d + 4) i \<noteq> off (s + 4) j" if "i < j" "j < 4 * k" for i j
    using Suc.prems [of "i + 4" "j + 4"] that by (simp only: off_4) simp
  ultimately show ?case using Suc.IH [of "d + 4" "s + 4"] rep_movsb_add [of 4 "4 * k" d s m] by simp
qed

text \<open>Downwards, with the pointers at the last byte.\<close>

lemma off_last: "off p (Suc k) - 1 = off p k"
  by simp

lemma rep_movsb_std_spec:
  assumes "k \<le> 4294967296" "\<And>i j. \<lbrakk>i < j; j < k\<rbrakk> \<Longrightarrow> off d j \<noteq> off s i"
  shows "(\<forall>i < k. rep_movsb_std k (off d k - 1) (off s k - 1) m (off d i) = m (off s i)) \<and>
    (\<forall>a. (\<forall>i < k. a \<noteq> off d i) \<longrightarrow> rep_movsb_std k (off d k - 1) (off s k - 1) m a = m a)"
  using assms
proof (induction k arbitrary: m)
  case 0
  then show ?case by simp
next
  case (Suc k)
  define m1 where "m1 = m(off d k := m (off s k))"
  have e: "rep_movsb_std (Suc k) (off d (Suc k) - 1) (off s (Suc k) - 1) m = rep_movsb_std k (off d k - 1) (off s k - 1) m1"
    unfolding off_last by (simp add: m1_def)
  have d: "off d i \<noteq> off d k" if "i < k" for i using off_inj [of i k d] that Suc.prems(1) by simp
  have s: "m1 (off s i) = m (off s i)" if "i < k" for i using Suc.prems(2) [of i k] that by (simp add: m1_def)
  have "k \<le> 4294967296" using Suc.prems(1) by simp
  from Suc.IH [OF this, of m1] Suc.prems(2)
  have ih: "\<forall>i < k. rep_movsb_std k (off d k - 1) (off s k - 1) m1 (off d i) = m1 (off s i)"
    "\<forall>a. (\<forall>i < k. a \<noteq> off d i) \<longrightarrow> rep_movsb_std k (off d k - 1) (off s k - 1) m1 a = m1 a" by simp_all
  have "rep_movsb_std k (off d k - 1) (off s k - 1) m1 (off d k) = m (off s k)"
    using ih(2) d by (metis fun_upd_same m1_def)
  then show ?case using ih d s unfolding e All_less_Suc by (simp add: m1_def)
qed

lemma copy32_down:
  assumes "\<And>i j. \<lbrakk>i < j; j < 4\<rbrakk> \<Longrightarrow> off d j \<noteq> off s i"
  shows "rep_movsb_std (4 + k) (d + 3) (s + 3) m = rep_movsb_std k (d - 1) (s - 1) (copy32 d s m)"
proof -
  have ne: "s \<noteq> d + 1" "s \<noteq> d + 2" "s \<noteq> d + 3" "s + 1 \<noteq> d + 2" "s + 1 \<noteq> d + 3" "s + 2 \<noteq> d + 3"
    using assms [of 0 1] assms [of 0 2] assms [of 0 3] assms [of 1 2] assms [of 1 3] assms [of 2 3] by auto
  have p: "x + 3 - 1 = x + 2" "x + 2 - 1 = x + 1" "x + 1 - 1 = x" for x :: u32 by simp_all
  have "rep_movsb_std (4 + k) (d + 3) (s + 3) m =
      rep_movsb_std k (d - 1) (s - 1) (m(d + 3 := m (s + 3), d + 2 := m (s + 2), d + 1 := m (s + 1), d := m s))"
    unfolding four add_Suc add_0 rep_movsb_std.simps p using ne by (simp only: fun_upd_apply if_False)
  also have "m(d + 3 := m (s + 3), d + 2 := m (s + 2), d + 1 := m (s + 1), d := m s) = copy32 d s m"
    unfolding copy32_def by (rule ext) simp
  finally show ?thesis .
qed

lemma rep_movsl_std_bytes:
  assumes "\<And>i j. \<lbrakk>i < j; j < 4 * k\<rbrakk> \<Longrightarrow> off d j \<noteq> off s i"
  shows "rep_movsl_std k (off d (4 * k) - 4) (off s (4 * k) - 4) m = rep_movsb_std (4 * k) (off d (4 * k) - 1) (off s (4 * k) - 1) m"
  using assms
proof (induction k arbitrary: m)
  case 0
  then show ?case by simp
next
  case (Suc k)
  let ?d = "off d (4 * k)" and ?s = "off s (4 * k)"
  have p: "off p (4 * Suc k) - 4 = off p (4 * k)" "off p (4 * Suc k) - 1 = off p (4 * k) + 3" for p by simp_all
  have "off ?d j \<noteq> off ?s i" if "i < j" "j < 4" for i j
    using Suc.prems [of "4 * k + i" "4 * k + j"] that by (simp add: add.assoc)
  note c = copy32_down [of ?d ?s, OF this, of "4 * k" m]
  have "4 * Suc k = 4 + 4 * k" by simp
  then show ?case
    unfolding p rep_movsl_std.simps using Suc.IH [of "copy32 ?d ?s m"] Suc.prems c by simp
qed

lemma memmove_spec:
  assumes s: "unat src + unat n < 4294967296" and d: "unat dst + unat n \<le> 4294967296"
  shows "memmove dst src n m = (dst, \<lambda>a. if a - dst < n then m (src + (a - dst)) else m a)"
proof -
  have offs: "off src i = off dst j \<longleftrightarrow> unat src + i = unat dst + j" if "i < unat n" "j < unat n" for i j
    using that s d by (simp add: word_eq_unat unat_add_no_wrap)
  have sn: "unat (src + n) = unat src + unat n" using s by (simp add: unat_add_no_wrap)
  let ?r = "\<lambda>a. if a - dst < n then m (src + (a - dst)) else m a"
  have fin: "m' = ?r" if "\<forall>i < unat n. m' (off dst i) = m (off src i)" "\<forall>a. (\<forall>i < unat n. a \<noteq> off dst i) \<longrightarrow> m' a = m a" for m'
  proof
    fix a
    show "m' a = ?r a"
    proof (cases "a - dst < n")
      case True
      then obtain i where i: "i < unat n" "a = off dst i" unfolding in_block by blast
      then have "a - dst = of_nat i" by simp
      with True i that(1) show ?thesis by simp
    next
      case False
      then show ?thesis using that(2) unfolding in_block by auto
    qed
  qed
  have n4: "4 * unat (n div 4) = unat n" if "n mod 4 = 0"
  proof -
    have "unat n mod 4 = 0" using that by (simp add: word_eq_unat unat_mod)
    then show ?thesis by (auto simp: unat_div)
  qed
  have nl: "unat n \<le> 4294967296" using unat_less_32 [of n] by simp
  have nn: "of_nat (unat n) = n" by simp
  show ?thesis
  proof (cases "src < dst \<and> dst < src + n")
    case True
    have h: "off dst j \<noteq> off src i" if "i < j" "j < unat n" for i j
      using offs [of i j] that True by (auto simp: word_less_nat_alt)
    have b: "rep_movsb_std (unat n) (dst + n - 1) (src + n - 1) m = ?r"
      using fin rep_movsb_std_spec [OF nl h, where m = m] unfolding nn by blast
    show ?thesis
    proof (cases "n mod 4 = 0")
      case nm: True
      have "rep_movsl_std (unat (n div 4)) (dst + n - 4) (src + n - 4) m = ?r"
        using rep_movsl_std_bytes [of "unat (n div 4)" dst src m] h b unfolding n4 [OF nm] nn by simp
      with b True show ?thesis by (simp add: memmove_def Let_def)
    qed (use True b in \<open>simp add: memmove_def Let_def\<close>)
  next
    case False
    have h: "off dst i \<noteq> off src j" if "i < j" "j < unat n" for i j
      using offs [of j i] that False sn by (auto simp: word_less_nat_alt)
    have b: "rep_movsb (unat n) dst src m = ?r"
      using fin rep_movsb_spec [OF nl h, where m = m] by blast
    show ?thesis
    proof (cases "n mod 4 = 0")
      case nm: True
      have "rep_movsl (unat (n div 4)) dst src m = ?r"
        using rep_movsl_bytes [of "unat (n div 4)" dst src m] h b unfolding n4 [OF nm] by simp
      with b False show ?thesis by (auto simp: memmove_def)
    qed (use False b in \<open>auto simp: memmove_def\<close>)
  qed
qed

section \<open>Strings in memory\<close>

text \<open>\<open>cstr m p xs\<close>: the bytes \<open>xs\<close>, none of them 0, lie at \<open>p\<close>, followed by a 0.\<close>

primrec cstr :: "cmem \<Rightarrow> u32 \<Rightarrow> u8 list \<Rightarrow> bool" where
  "cstr m p [] = (m p = 0)"
| "cstr m p (x # xs) = (m p = x \<and> x \<noteq> 0 \<and> cstr m (p + 1) xs)"

lemma cstr_nth: "cstr m p xs \<Longrightarrow> i < length xs \<Longrightarrow> m (off p i) = xs ! i \<and> xs ! i \<noteq> 0"
proof (induction xs arbitrary: p i)
  case (Cons x xs)
  then show ?case by (cases i) (auto simp: off_Suc [symmetric] simp del: of_nat_Suc)
qed simp

lemma cstr_end: "cstr m p xs \<Longrightarrow> m (off p (length xs)) = 0"
  by (induction xs arbitrary: p) (auto simp: off_Suc [symmetric] simp del: of_nat_Suc)

lemma cstrI: "\<lbrakk>\<And>i. i < length xs \<Longrightarrow> m (off p i) = xs ! i \<and> xs ! i \<noteq> 0; m (off p (length xs)) = 0\<rbrakk> \<Longrightarrow> cstr m p xs"
proof (induction xs arbitrary: p)
  case (Cons x xs)
  have "m (off (p + 1) i) = xs ! i \<and> xs ! i \<noteq> 0" if "i < length xs" for i
    using Cons.prems(1) [of "Suc i"] that by (simp add: off_Suc del: of_nat_Suc)
  moreover have "m (off (p + 1) (length xs)) = 0" using Cons.prems(2) by (simp add: off_Suc del: of_nat_Suc)
  ultimately show ?case using Cons.IH [of "p + 1"] Cons.prems(1) [of 0] by simp
qed simp

lemma cstr_unique: "cstr m p xs \<Longrightarrow> cstr m p ys \<Longrightarrow> xs = ys"
  by (induction xs arbitrary: p ys) (case_tac ys; auto)+

lemma strlen_loop_cstr: "cstr m p xs \<Longrightarrow> strlen_loop m p n = Some (n + of_nat (length xs))"
proof (induction xs arbitrary: p n)
  case Nil
  then show ?case by (subst strlen_loop.simps) simp
next
  case (Cons x xs)
  then show ?case by (subst strlen_loop.simps) (simp add: algebra_simps)
qed

lemma strlen_cstr: "cstr m p xs \<Longrightarrow> strlen m p = Some (of_nat (length xs))"
  using strlen_loop_cstr [of m p xs 0] by (simp add: strlen_def)

text \<open>\<open>strcpy\<close> between ranges that do not overlap makes the target a copy and changes nothing else.\<close>

lemma strcpy_loop_cstr:
  assumes "cstr m src xs" "length xs < 4294967295"
    "\<And>i j. \<lbrakk>i \<le> length xs; j \<le> length xs\<rbrakk> \<Longrightarrow> off dst i \<noteq> off src j"
  shows "\<exists>m'. strcpy_loop dst src m = Some m' \<and> cstr m' dst xs \<and> (\<forall>a. (\<forall>i \<le> length xs. a \<noteq> off dst i) \<longrightarrow> m' a = m a)"
  using assms
proof (induction xs arbitrary: dst src m)
  case Nil
  then show ?case by (subst strcpy_loop.simps) (auto simp: Let_def)
next
  case (Cons x xs)
  let ?m = "m(dst := x)"
  have sh: "off (dst + 1) i \<noteq> off (src + 1) j" if "i \<le> length xs" "j \<le> length xs" for i j
    using Cons.prems(3) [of "Suc i" "Suc j"] that by (simp add: off_Suc del: of_nat_Suc)
  have src: "off (src + 1) j \<noteq> dst" if "j \<le> length xs" for j
    using Cons.prems(3) [of 0 "Suc j"] that by (simp add: off_Suc del: of_nat_Suc)
  have c: "cstr ?m (src + 1) xs"
    using cstr_nth [of m "src + 1" xs] cstr_end [of m "src + 1" xs] Cons.prems(1) src by (intro cstrI) auto
  have len: "length xs < 4294967295" using Cons.prems(2) by simp
  obtain m' where m': "strcpy_loop (dst + 1) (src + 1) ?m = Some m'" "cstr m' (dst + 1) xs"
    "\<forall>a. (\<forall>i \<le> length xs. a \<noteq> off (dst + 1) i) \<longrightarrow> m' a = ?m a"
    using Cons.IH [OF c len sh] by blast
  have "dst \<noteq> off (dst + 1) i" if "i \<le> length xs" for i
    using off_inj [of 0 "Suc i" dst] that Cons.prems(2) by (simp add: off_Suc del: of_nat_Suc)
  then have "m' dst = x" using m'(3) by (metis fun_upd_same)
  moreover have "m' a = m a" if "\<forall>i \<le> length (x # xs). a \<noteq> off dst i" for a
  proof -
    have "a \<noteq> dst" using that by (metis off_0 le0)
    moreover have "a \<noteq> off (dst + 1) i" if "i \<le> length xs" for i
      using \<open>\<forall>i \<le> length (x # xs). a \<noteq> off dst i\<close> that unfolding off_Suc by (metis Suc_le_mono length_Cons)
    ultimately show ?thesis using m'(3) by simp
  qed
  ultimately show ?case
    using m' Cons.prems(1) by (intro exI [of _ m']) (subst strcpy_loop.simps, auto simp: Let_def)
qed

lemma uint_pos: "x \<noteq> 0 \<Longrightarrow> 0 < uint x" for x :: u8
  using uint_ge_0 [of x] by (simp add: less_le uint_0_iff)

lemma strcmp_cstr:
  assumes "cstr m p xs" "cstr m q ys"
  shows "\<exists>d. strcmp m p q = Some d \<and> (d = 0 \<longleftrightarrow> xs = ys) \<and>
    (d < 0 \<longleftrightarrow> (xs, ys) \<in> lexord {(a, b). a < b})"
  using assms
proof (induction xs arbitrary: p q ys)
  case Nil
  then show ?case by (cases ys) (subst strcmp.simps, auto simp: word_less_def dest: uint_pos)+
next
  case (Cons x xs)
  show ?case
  proof (cases ys)
    case Nil
    then show ?thesis using Cons.prems by (subst strcmp.simps) (auto simp: word_less_def uint_0_iff not_less)
  next
    case (Cons y ys')
    show ?thesis
    proof (cases "x = y")
      case True
      then show ?thesis using Cons.prems Cons.IH [of "p + 1" "q + 1" ys'] Cons \<open>ys = y # ys'\<close>
        by (subst strcmp.simps) auto
    next
      case False
      then have "uint x \<noteq> uint y" by (simp add: word_uint_eq_iff)
      then show ?thesis using Cons.prems \<open>ys = y # ys'\<close> False
        by (subst strcmp.simps) (auto simp: word_less_def)
    qed
  qed
qed

section \<open>Bounded copies\<close>

lemma strlcpy_loop_spec:
  assumes "cstr m src xs" "k < 4294967296"
    "\<And>i j. \<lbrakk>i \<le> k; j \<le> length xs\<rbrakk> \<Longrightarrow> off dst i \<noteq> off src j"
  defines "l \<equiv> min k (length xs)"
  shows "\<exists>m'. strlcpy_loop k dst src m = (off dst l, m') \<and> (\<forall>i < l. m' (off dst i) = xs ! i) \<and>
    (\<forall>a. (\<forall>i < l. a \<noteq> off dst i) \<longrightarrow> m' a = m a)"
  using assms(1-3) unfolding l_def
proof (induction k arbitrary: dst src m xs)
  case 0
  then show ?case by simp
next
  case (Suc k)
  show ?case
  proof (cases xs)
    case Nil
    then show ?thesis using Suc.prems(1) by simp
  next
    case (Cons x ys)
    define m1 where "m1 = m(dst := x)"
    have xs: "m src = x" "x \<noteq> 0" "cstr m (src + 1) ys" using Suc.prems(1) Cons by simp_all
    have sh: "off (dst + 1) i \<noteq> off (src + 1) j" if "i \<le> k" "j \<le> length ys" for i j
      using Suc.prems(3) [of "Suc i" "Suc j"] that Cons by (simp add: off_Suc del: of_nat_Suc)
    have "off (src + 1) j \<noteq> dst" if "j \<le> length ys" for j
      using Suc.prems(3) [of 0 "Suc j"] that Cons by (simp add: off_Suc del: of_nat_Suc)
    then have c: "cstr m1 (src + 1) ys"
      using cstr_nth [OF xs(3)] cstr_end [OF xs(3)] by (intro cstrI) (auto simp: m1_def)
    have "k < 4294967296" using Suc.prems(2) by simp
    from Suc.IH [OF c this sh] obtain m' where m': "strlcpy_loop k (dst + 1) (src + 1) m1 = (off (dst + 1) (min k (length ys)), m')"
      "\<forall>i < min k (length ys). m' (off (dst + 1) i) = ys ! i"
      "\<forall>a. (\<forall>i < min k (length ys). a \<noteq> off (dst + 1) i) \<longrightarrow> m' a = m1 a" by blast
    have "dst \<noteq> off (dst + 1) i" if "i < k" for i
      using off_inj [of 0 "Suc i" dst] that Suc.prems(2) by (simp add: off_Suc del: of_nat_Suc)
    then have "m' dst = x" using m'(3) by (metis fun_upd_same m1_def min_less_iff_conj)
    moreover have "m' a = m a" if "\<forall>i < min (Suc k) (length xs). a \<noteq> off dst i" for a
    proof -
      have "a \<noteq> dst" using that Cons by (metis off_0 length_greater_0_conv list.distinct(1) min_less_iff_conj zero_less_Suc)
      moreover have "a \<noteq> off (dst + 1) i" if "i < min k (length ys)" for i
        using \<open>\<forall>i < min (Suc k) (length xs). a \<noteq> off dst i\<close> that Cons
        by (auto simp: off_Suc dest: spec [of _ "Suc i"] simp del: of_nat_Suc)
      ultimately show ?thesis using m'(3) by (simp add: m1_def)
    qed
    moreover have "m' (off dst i) = xs ! i" if "i < min (Suc k) (length xs)" for i
      using that m'(2) \<open>m' dst = x\<close> Cons by (cases i) (auto simp: off_Suc simp del: of_nat_Suc)
    ultimately show ?thesis
      using m'(1) xs Cons by (auto simp: m1_def off_Suc simp del: of_nat_Suc)
  qed
qed

text \<open>
  \<open>strlcpy\<close> writes at most \<open>sz\<close> bytes, leaves a terminated prefix of the source and returns its length.
\<close>

lemma strlcpy_spec:
  assumes c: "cstr m src xs" and n: "0 < sz"
    and d: "\<And>i j. \<lbrakk>i < unat sz; j \<le> length xs\<rbrakk> \<Longrightarrow> off dst i \<noteq> off src j"
  shows "\<exists>m'. strlcpy dst src sz m = (of_nat (min (unat sz - 1) (length xs)), m') \<and>
    cstr m' dst (take (unat sz - 1) xs) \<and> (\<forall>a. \<not> a - dst < sz \<longrightarrow> m' a = m a)"
proof -
  let ?k = "unat sz - 1" and ?l = "min (unat sz - 1) (length xs)"
  have k: "?k < 4294967296" "?k < unat sz" using n unat_less_32 [of sz] by (simp_all add: word_gt_0 unat_gt_0)
  have "off dst i \<noteq> off src j" if "i \<le> ?k" "j \<le> length xs" for i j using d [of i j] that k(2) by simp
  then obtain m1 where m1: "strlcpy_loop ?k dst src m = (off dst ?l, m1)" "\<forall>i < ?l. m1 (off dst i) = xs ! i"
    "\<forall>a. (\<forall>i < ?l. a \<noteq> off dst i) \<longrightarrow> m1 a = m a"
    using strlcpy_loop_spec [OF c k(1)] by blast
  have len: "length (take ?k xs) = ?l" by simp
  have "cstr (m1(off dst ?l := 0)) dst (take ?k xs)"
  proof (rule cstrI)
    fix i assume i: "i < length (take ?k xs)"
    then have "off dst i \<noteq> off dst ?l" using k by (subst off_inj) auto
    then show "(m1(off dst ?l := 0)) (off dst i) = take ?k xs ! i \<and> take ?k xs ! i \<noteq> 0"
      using i m1(2) cstr_nth [OF c, of i] by simp
  qed (simp add: min.commute)
  moreover have "m1 a = m a \<and> a \<noteq> off dst ?l" if "\<not> a - dst < sz" for a
    using that m1(3) k(2) unfolding in_block by auto
  ultimately show ?thesis using n m1(1) by (simp add: strlcpy_def)
qed

section \<open>Parsing numbers\<close>

text \<open>The value of a list of digit characters, modulo \<open>2^32\<close>.\<close>

definition digits_value :: "u32 \<Rightarrow> u8 list \<Rightarrow> u32 \<Rightarrow> u32" where
  "digits_value base ds v = fold (\<lambda>c v. v * base + the (digit c)) ds v"

lemma strtol_digits_run:
  assumes "\<And>i. i < length ds \<Longrightarrow> m (off s i) = ds ! i \<and> (\<exists>d. digit (ds ! i) = Some d \<and> sint d < sint base)"
    "case digit (m (off s (length ds))) of None \<Rightarrow> True | Some d \<Rightarrow> sint base \<le> sint d"
  shows "strtol_digits m s base v = Some (off s (length ds), digits_value base ds v)"
  using assms
proof (induction ds arbitrary: s v)
  case Nil
  then show ?case by (subst strtol_digits.simps) (auto simp: digits_value_def split: option.splits)
next
  case (Cons c ds)
  obtain d where d: "m s = c" "digit c = Some d" "sint d < sint base" using Cons.prems(1) [of 0] by auto
  have "m (off (s + 1) i) = ds ! i \<and> (\<exists>d. digit (ds ! i) = Some d \<and> sint d < sint base)" if "i < length ds" for i
    using Cons.prems(1) [of "Suc i"] that by (simp add: off_Suc del: of_nat_Suc)
  moreover have "case digit (m (off (s + 1) (length ds))) of None \<Rightarrow> True | Some d \<Rightarrow> sint base \<le> sint d"
    using Cons.prems(2) by (simp add: off_Suc del: of_nat_Suc)
  ultimately have "strtol_digits m (s + 1) base (v * base + d) = Some (off (s + 1) (length ds), digits_value base ds (v * base + d))"
    by (rule Cons.IH)
  then show ?case using d
    by (subst strtol_digits.simps) (simp add: off_Suc digits_value_def flip: not_less del: of_nat_Suc)
qed

end
