(* ===== verification/Jos_Printf.thy ===== *)
theory Jos_Printf
  imports Jos_String_Spec Jos_State Jos_Console
begin

text \<open>
  Formatted output of JOS (\<open>lib/printfmt.c\<close>, \<open>lib/printf.c\<close>, \<open>lib/fprintf.c\<close>, \<open>kern/printf.c\<close>). The
  formatter works on the state of its output routine \<open>putch\<close>; \<open>rd\<close> is the readable memory in that state,
  which holds the format and the strings to print, and an access outside of it is a fault. The variable arguments are the list of the 32-bit words on
  the stack; taking more of them than were passed is undefined and gives \<^const>\<open>None\<close>. Field widths
  and precisions are integers, so formats with a width beyond the C type \<open>int\<close> are not covered.
\<close>

section \<open>The formatter\<close>

type_synonym rmem = "u32 \<Rightarrow> u8 option"

text \<open>A pointer to characters in memory, or to what is left of a string literal of the program.\<close>

datatype cptr = Ptr u32 | Lit "u8 list"

definition lit :: "string \<Rightarrow> cptr" where
  "lit cs = Lit (map of_char cs)"

fun fetch :: "rmem \<Rightarrow> cptr \<Rightarrow> u8 option" where
  "fetch m (Ptr a) = m a"
| "fetch m (Lit []) = Some 0"
| "fetch m (Lit (c # cs)) = Some c"

fun advance :: "cptr \<Rightarrow> cptr" where
  "advance (Ptr a) = Ptr (a + 1)"
| "advance (Lit cs) = Lit (tl cs)"

text \<open>\<open>strnlen\<close> on such a pointer, with the number of characters seen so far.\<close>

function strnlen_at :: "rmem \<Rightarrow> cptr \<Rightarrow> u32 \<Rightarrow> u32 \<Rightarrow> u32 option" where
  "strnlen_at m p sz n =
     (if 0 < sz
      then case fetch m p of
          None \<Rightarrow> None
        | Some c \<Rightarrow> if c \<noteq> 0 then strnlen_at m (advance p) (sz - 1) (n + 1) else Some n
      else Some n)"
  by auto
termination
  by (relation "measure (\<lambda>(m, p, sz, n). unat sz)") (simp_all add: unat_pred)

declare strnlen_at.simps [simp del]

fun va_arg :: "u32 list \<Rightarrow> (u32 \<times> u32 list) option" where
  "va_arg [] = None"
| "va_arg (w # ws) = Some (w, ws)"

fun va_arg64 :: "u32 list \<Rightarrow> (64 word \<times> u32 list) option" where
  "va_arg64 (lo # hi # ws) = Some (push_bit 32 (ucast hi) OR ucast lo, ws)"
| "va_arg64 _ = None"

text \<open>\<open>error_string\<close>; the entry of code 0 is NULL, and an index outside the table is a stray access.\<close>

definition error_strings :: "string option list" where
  "error_strings = [None, Some ''unspecified error'', Some ''bad environment'', Some ''invalid parameter'',
     Some ''out of memory'', Some ''out of environments'', Some ''segmentation fault'',
     Some ''env is not recving'', Some ''unexpected end of file'', Some ''no free space on disk'',
     Some ''too many files are open'', Some ''file or block not found'', Some ''invalid path'',
     Some ''file already exists'', Some ''file is not a valid executable'', Some ''operation not supported'']"

definition error_string :: "int \<Rightarrow> string option option" where
  "error_string err =
     (if 0 \<le> err \<and> err < int (length error_strings) then Some (error_strings ! nat err) else None)"

definition MAXERROR :: int where "MAXERROR = 16"

text \<open>\<open>pad k c\<close> calls \<open>putch\<close> once for each round of a loop that counts a width down to 0.\<close>

definition pad :: "(u32 \<Rightarrow> 's \<Rightarrow> 's) \<Rightarrow> int \<Rightarrow> u32 \<Rightarrow> 's \<Rightarrow> 's" where
  "pad putch k c = putch c ^^ nat k"

definition digit_char :: "64 word \<Rightarrow> u32" where
  "digit_char d = of_char (''0123456789abcdef'' ! unat d)"

partial_function (option) printnum ::
  "(u32 \<Rightarrow> 's \<Rightarrow> 's) \<Rightarrow> 64 word \<Rightarrow> u32 \<Rightarrow> int \<Rightarrow> u32 \<Rightarrow> 's \<Rightarrow> 's option" where
  "printnum putch num base width padc s = do {
     s \<leftarrow> (if ucast base \<le> num
           then if base = 0 then None
             else printnum putch (num div ucast base) base (width - 1) padc s
           else Some (pad putch (width - 1) padc s));
     Some (putch (digit_char (num mod ucast base)) s)
   }"

definition getuint :: "u32 list \<Rightarrow> nat \<Rightarrow> (64 word \<times> u32 list) option" where
  "getuint ap lflag =
     (if 2 \<le> lflag then va_arg64 ap else do { (w, ap) \<leftarrow> va_arg ap; Some (ucast w, ap) })"

definition getint :: "u32 list \<Rightarrow> nat \<Rightarrow> (64 word \<times> u32 list) option" where
  "getint ap lflag =
     (if 2 \<le> lflag then va_arg64 ap else do { (w, ap) \<leftarrow> va_arg ap; Some (scast w, ap) })"

record esc =
  padc :: u32
  width :: int
  precision :: int
  lflag :: nat
  altflag :: bool

definition esc0 :: esc where
  "esc0 = \<lparr>padc = 32, width = -1, precision = -1, lflag = 0, altflag = False\<rparr>"

text \<open>The inner loop over a decimal number; \<open>fmt\<close> points at the character after \<open>ch\<close>.\<close>

partial_function (option) read_width :: "rmem \<Rightarrow> int \<Rightarrow> u8 \<Rightarrow> cptr \<Rightarrow> (int \<times> cptr) option" where
  "read_width m prec ch fmt = do {
     let prec = prec * 10 + uint ch - 48;
     ch \<leftarrow> fetch m fmt;
     if ch < 48 \<or> 57 < ch then Some (prec, fmt) else read_width m prec ch (advance fmt)
   }"

definition process_precision :: "esc \<Rightarrow> esc" where
  "process_precision e = (if width e < 0 then e\<lparr>width := precision e, precision := -1\<rparr> else e)"

text \<open>
  From \<open>reswitch\<close> to the conversion character: flags, width and precision. Nothing is printed on the
  way, so the memory is fixed. The result is the conversion character and the format behind it.
\<close>

partial_function (option) reswitch ::
  "rmem \<Rightarrow> cptr \<Rightarrow> esc \<Rightarrow> u32 list \<Rightarrow> (u8 \<times> cptr \<times> esc \<times> u32 list) option" where
  "reswitch m fmt e ap = do {
      ch \<leftarrow> fetch m fmt;
      let fmt = advance fmt;
      if ch = 45 then reswitch m fmt (e\<lparr>padc := 45\<rparr>) ap
      else if ch = 48 then reswitch m fmt (e\<lparr>padc := 48\<rparr>) ap
      else if 49 \<le> ch \<and> ch \<le> 57 then do {
        (prec, fmt) \<leftarrow> read_width m 0 ch fmt;
        reswitch m fmt (process_precision (e\<lparr>precision := prec\<rparr>)) ap
      }
      else if ch = 42 then do {
        (w, ap) \<leftarrow> va_arg ap;
        reswitch m fmt (process_precision (e\<lparr>precision := sint w\<rparr>)) ap
      }
      else if ch = 46 then reswitch m fmt (if width e < 0 then e\<lparr>width := 0\<rparr> else e) ap
      else if ch = 35 then reswitch m fmt (e\<lparr>altflag := True\<rparr>) ap
      else if ch = 108 then reswitch m fmt (e\<lparr>lflag := lflag e + 1\<rparr>) ap
      else Some (ch, fmt, e, ap)
   }"

text \<open>The characters of \<open>%s\<close>; the next one is fetched before the precision is looked at.\<close>

partial_function (option) print_chars ::
  "('s \<Rightarrow> rmem) \<Rightarrow> (u32 \<Rightarrow> 's \<Rightarrow> 's) \<Rightarrow> bool \<Rightarrow> int \<Rightarrow> int \<Rightarrow> cptr \<Rightarrow> 's \<Rightarrow> (int \<times> 's) option" where
  "print_chars rd putch alt prec w p s =
     do {
      ch \<leftarrow> fetch (rd s) p;
      if ch \<noteq> 0 \<and> (prec < 0 \<or> 0 \<le> prec - 1)
      then print_chars rd putch alt (if prec < 0 then prec else prec - 1) (w - 1) (advance p)
             (putch (if alt \<and> (sint ch < 32 \<or> 126 < sint ch) then 63 else scast ch) s)
      else Some (w, s)
     }"

definition print_string :: "('s \<Rightarrow> rmem) \<Rightarrow> (u32 \<Rightarrow> 's \<Rightarrow> 's) \<Rightarrow> esc \<Rightarrow> cptr \<Rightarrow> 's \<Rightarrow> 's option" where
  "print_string rd putch e p s = do {
     let left = 0 < width e \<and> padc e \<noteq> 45;
     len \<leftarrow> (if left then strnlen_at (rd s) p (word_of_int (precision e)) 0 else Some 0);
     let k = width e - sint len;
     let s = (if left then pad putch k (padc e) s else s);
     let w = (if left then min k 0 else width e);
     (w, s) \<leftarrow> print_chars rd putch (altflag e) (precision e) w p s;
     Some (pad putch w 32 s)
   }"

definition print_signed ::
  "(u32 \<Rightarrow> 's \<Rightarrow> 's) \<Rightarrow> u32 \<Rightarrow> esc \<Rightarrow> u32 list \<Rightarrow> 's \<Rightarrow> (u32 list \<times> 's) option" where
  "print_signed putch base e ap s = do {
     (num, ap) \<leftarrow> getint ap (lflag e);
     let (num, s) = (if sint num < 0 then (- num, putch 45 s) else (num, s));
     s \<leftarrow> printnum putch num base (width e) (padc e) s;
     Some (ap, s)
   }"

definition print_unsigned ::
  "(u32 \<Rightarrow> 's \<Rightarrow> 's) \<Rightarrow> u32 \<Rightarrow> esc \<Rightarrow> u32 list \<Rightarrow> 's \<Rightarrow> (u32 list \<times> 's) option" where
  "print_unsigned putch base e ap s = do {
     (num, ap) \<leftarrow> getuint ap (lflag e);
     s \<leftarrow> printnum putch num base (width e) (padc e) s;
     Some (ap, s)
   }"

text \<open>
  The conversions other than \<open>%e\<close>. An unknown one prints \<open>%\<close> and goes back to the character after
  the last \<open>%\<close> read, which is \<open>start\<close>: none of the characters in between can be one.
\<close>

definition convert ::
  "('s \<Rightarrow> rmem) \<Rightarrow> (u32 \<Rightarrow> 's \<Rightarrow> 's) \<Rightarrow> cptr \<Rightarrow> u8 \<Rightarrow> cptr \<Rightarrow> esc \<Rightarrow> u32 list \<Rightarrow> 's \<Rightarrow> (cptr \<times> u32 list \<times> 's) option" where
  "convert rd putch start ch fmt e ap s =
     (if ch = 99 then do { (w, ap) \<leftarrow> va_arg ap; Some (fmt, ap, putch w s) }
      else if ch = 115 then do {
        (w, ap) \<leftarrow> va_arg ap;
        s \<leftarrow> print_string rd putch e (if w = 0 then lit ''(null)'' else Ptr w) s;
        Some (fmt, ap, s)
      }
      else if ch = 100 then do { (ap, s) \<leftarrow> print_signed putch 10 e ap s; Some (fmt, ap, s) }
      else if ch = 117 then do { (ap, s) \<leftarrow> print_unsigned putch 10 e ap s; Some (fmt, ap, s) }
      else if ch = 111 then do { (ap, s) \<leftarrow> print_signed putch 8 e ap s; Some (fmt, ap, s) }
      else if ch = 112 then do {
        let s = putch 120 (putch 48 s);
        (w, ap) \<leftarrow> va_arg ap;
        s \<leftarrow> printnum putch (ucast w) 16 (width e) (padc e) s;
        Some (fmt, ap, s)
      }
      else if ch = 120 then do { (ap, s) \<leftarrow> print_unsigned putch 16 e ap s; Some (fmt, ap, s) }
      else if ch = 37 then Some (fmt, ap, putch (ucast ch) s)
      else Some (start, ap, putch 37 s))"

text \<open>The characters up to the next \<open>%\<close>; the result is the format behind it, or none at the end.\<close>

partial_function (option) print_plain ::
  "('s \<Rightarrow> rmem) \<Rightarrow> (u32 \<Rightarrow> 's \<Rightarrow> 's) \<Rightarrow> cptr \<Rightarrow> 's \<Rightarrow> (cptr option \<times> 's) option" where
  "print_plain rd putch fmt s =
     do {
      ch \<leftarrow> fetch (rd s) fmt;
      let fmt = advance fmt;
      if ch = 37 then Some (Some fmt, s)
      else if ch = 0 then Some (None, s)
      else print_plain rd putch fmt (putch (ucast ch) s)
     }"

text \<open>
  \<open>%e\<close> calls the formatter again, with a literal format. The string of an error code is passed as the
  argument of \<open>"%s"\<close>; as it is a literal too, \<^const>\<open>print_string\<close> prints it directly.
\<close>

definition c_abs :: "u32 \<Rightarrow> u32" where
  "c_abs err = (if sint err < 0 then - err else err)"

partial_function (option) vprintfmt ::
  "('s \<Rightarrow> rmem) \<Rightarrow> (u32 \<Rightarrow> 's \<Rightarrow> 's) \<Rightarrow> cptr \<Rightarrow> u32 list \<Rightarrow> 's \<Rightarrow> 's option" where
  "vprintfmt rd putch fmt ap s = do {
     (start, s) \<leftarrow> print_plain rd putch fmt s;
     case start of
       None \<Rightarrow> Some s
     | Some start \<Rightarrow> do {
         (ch, fmt, e, ap) \<leftarrow> reswitch (rd s) start esc0 ap;
         (fmt, ap, s) \<leftarrow>
           (if ch = 101 then do {
              (w, ap) \<leftarrow> va_arg ap;
              let err = c_abs w;
              p \<leftarrow> (if MAXERROR \<le> sint err then Some None else error_string (sint err));
              s \<leftarrow> (case p of
                     None \<Rightarrow> vprintfmt rd putch (lit ''error %d'') [err] s
                   | Some p \<Rightarrow> print_string rd putch esc0 (lit p) s);
              Some (fmt, ap, s)
            }
            else convert rd putch start ch fmt e ap s);
         vprintfmt rd putch fmt ap s
       }
   }"

definition printfmt :: "('s \<Rightarrow> rmem) \<Rightarrow> (u32 \<Rightarrow> 's \<Rightarrow> 's) \<Rightarrow> u32 \<Rightarrow> u32 list \<Rightarrow> 's \<Rightarrow> 's option" where
  "printfmt rd putch fmt = vprintfmt rd putch (Ptr fmt)"

section \<open>Output to a buffer\<close>

record sprintbuf =
  sp_buf :: u32
  sp_ebuf :: u32
  sp_cnt :: u32
  sp_mem :: cmem

definition sprintputch :: "u32 \<Rightarrow> sprintbuf \<Rightarrow> sprintbuf" where
  "sprintputch ch b =
     (let b = b\<lparr>sp_cnt := sp_cnt b + 1\<rparr> in
      if sp_buf b < sp_ebuf b
      then b\<lparr>sp_mem := (sp_mem b)(sp_buf b := ucast ch), sp_buf := sp_buf b + 1\<rparr> else b)"

definition vsnprintf :: "u32 \<Rightarrow> u32 \<Rightarrow> u32 \<Rightarrow> u32 list \<Rightarrow> cmem \<Rightarrow> (u32 \<times> cmem) option" where
  "vsnprintf buf n fmt ap m =
     (let b = \<lparr>sp_buf = buf, sp_ebuf = buf + n - 1, sp_cnt = 0, sp_mem = m\<rparr> in
      if buf = 0 \<or> sint n < 1 then Some (- errno E_INVAL, m)
      else do {
        b \<leftarrow> vprintfmt (\<lambda>b a. Some (sp_mem b a)) sprintputch (Ptr fmt) ap b;
        let m = (sp_mem b)(sp_buf b := 0);
        Some (sp_cnt b, m)
      })"

definition snprintf :: "u32 \<Rightarrow> u32 \<Rightarrow> u32 \<Rightarrow> u32 list \<Rightarrow> cmem \<Rightarrow> (u32 \<times> cmem) option" where
  "snprintf buf n fmt args m = vsnprintf buf n fmt args m"

section \<open>Output to the console\<close>

text \<open>
  The kernel's \<open>putch\<close> is meant to count characters, but \<open>*cnt++\<close> increments its own copy of the
  pointer and leaves the counter alone.
\<close>

definition kputch :: "u32 \<Rightarrow> display \<times> u32 \<Rightarrow> display \<times> u32" where
  "kputch ch b = (let (d, cnt) = b in (cons_putc ch d, cnt))"

definition kvcprintf :: "rmem \<Rightarrow> cptr \<Rightarrow> u32 list \<Rightarrow> display \<Rightarrow> (u32 \<times> display) option" where
  "kvcprintf m fmt ap d = do {
     (d, cnt) \<leftarrow> vprintfmt (\<lambda>_. m) kputch fmt ap (d, 0);
     Some (cnt, d)
   }"

text \<open>
  A user program collects the characters in a buffer of 256 bytes and prints it with the system call
  \<open>sys_cputs\<close>, here a function \<open>cputs\<close> on the rest of the system.
\<close>

record 'w printbuf =
  pb_idx :: nat
  pb_cnt :: u32
  pb_buf :: "nat \<Rightarrow> u8"
  pb_sys :: 'w

definition pb_chars :: "'w printbuf \<Rightarrow> u8 list" where
  "pb_chars b = map (pb_buf b) [0..<pb_idx b]"

definition putch :: "(u8 list \<Rightarrow> 'w \<Rightarrow> 'w) \<Rightarrow> u32 \<Rightarrow> 'w printbuf \<Rightarrow> 'w printbuf" where
  "putch cputs ch b =
     (let b = b\<lparr>pb_buf := (pb_buf b)(pb_idx b := ucast ch), pb_idx := pb_idx b + 1\<rparr>;
          b = (if pb_idx b = 256 - 1 then b\<lparr>pb_sys := cputs (pb_chars b) (pb_sys b), pb_idx := 0\<rparr> else b)
      in b\<lparr>pb_cnt := pb_cnt b + 1\<rparr>)"

definition vcprintf :: "(u8 list \<Rightarrow> 'w \<Rightarrow> 'w) \<Rightarrow> rmem \<Rightarrow> cptr \<Rightarrow> u32 list \<Rightarrow> (nat \<Rightarrow> u8) \<Rightarrow> 'w \<Rightarrow> (u32 \<times> 'w) option" where
  "vcprintf cputs m fmt ap junk w = do {
     let b = \<lparr>pb_idx = 0, pb_cnt = 0, pb_buf = junk, pb_sys = w\<rparr>;
     b \<leftarrow> vprintfmt (\<lambda>_. m) (putch cputs) fmt ap b;
     let w = cputs (pb_chars b) (pb_sys b);
     Some (pb_cnt b, w)
   }"

section \<open>Output to a file descriptor\<close>

text \<open>\<open>wr\<close> is the file interface's \<open>write\<close>, which returns the number of bytes written or an error.\<close>

record 'w fprintbuf =
  fb_fd :: u32
  fb_idx :: nat
  fb_result :: int
  fb_error :: int
  fb_buf :: "nat \<Rightarrow> u8"
  fb_sys :: 'w

definition writebuf :: "(u32 \<Rightarrow> u8 list \<Rightarrow> 'w \<Rightarrow> int \<times> 'w) \<Rightarrow> 'w fprintbuf \<Rightarrow> 'w fprintbuf" where
  "writebuf wr b =
     (if 0 < fb_error b then
        let (result, w) = wr (fb_fd b) (map (fb_buf b) [0..<fb_idx b]) (fb_sys b);
            b = b\<lparr>fb_sys := w\<rparr>;
            b = (if 0 < result then b\<lparr>fb_result := fb_result b + result\<rparr> else b)
        in if result \<noteq> int (fb_idx b) then b\<lparr>fb_error := (if result < 0 then result else 0)\<rparr> else b
      else b)"

definition fputch :: "(u32 \<Rightarrow> u8 list \<Rightarrow> 'w \<Rightarrow> int \<times> 'w) \<Rightarrow> u32 \<Rightarrow> 'w fprintbuf \<Rightarrow> 'w fprintbuf" where
  "fputch wr ch b =
     (let b = b\<lparr>fb_buf := (fb_buf b)(fb_idx b := ucast ch), fb_idx := fb_idx b + 1\<rparr> in
      if fb_idx b = 256 then (writebuf wr b)\<lparr>fb_idx := 0\<rparr> else b)"

definition vfprintf ::
  "(u32 \<Rightarrow> u8 list \<Rightarrow> 'w \<Rightarrow> int \<times> 'w) \<Rightarrow> rmem \<Rightarrow> u32 \<Rightarrow> cptr \<Rightarrow> u32 list \<Rightarrow> (nat \<Rightarrow> u8) \<Rightarrow> 'w \<Rightarrow> (int \<times> 'w) option" where
  "vfprintf wr m fd fmt ap junk w = do {
     let b = \<lparr>fb_fd = fd, fb_idx = 0, fb_result = 0, fb_error = 1, fb_buf = junk, fb_sys = w\<rparr>;
     b \<leftarrow> vprintfmt (\<lambda>_. m) (fputch wr) fmt ap b;
     let b = (if 0 < fb_idx b then writebuf wr b else b);
     Some (if fb_result b \<noteq> 0 then fb_result b else fb_error b, fb_sys b)
   }"

definition fprintf where
  "fprintf wr m fd fmt args junk w = vfprintf wr m fd fmt args junk w"

definition printf where
  "printf wr m fmt args junk w = vfprintf wr m 1 fmt args junk w"

end
