(* ===== verification/Jos_Printf_Spec.thy ===== *)
theory Jos_Printf_Spec
  imports Jos_Printf
begin

text \<open>
  What the formatter does. Its output depends on the format, the arguments and the memory it reads,
  not on the routine the characters go to; a number printed in a base is read back by \<open>strtol\<close>; the
  bounded buffer of \<open>snprintf\<close> is never overrun; and the buffered console and file output passes on
  exactly the characters of the format, in order.
\<close>

lemmas read_width_induct = read_width.raw_induct [rotated, consumes 1, case_names step]
lemmas reswitch_induct = reswitch.raw_induct [rotated, consumes 1, case_names step]
lemmas printnum_induct = printnum.raw_induct [rotated, consumes 1, case_names step]
lemmas print_chars_induct = print_chars.raw_induct [rotated, consumes 1, case_names step]
lemmas print_plain_induct = print_plain.raw_induct [rotated, consumes 1, case_names step]
lemmas vprintfmt_induct = vprintfmt.raw_induct [rotated, consumes 1, case_names step]

section \<open>The formatter and its output routine\<close>

lemma fetch_mono: "\<lbrakk>m \<subseteq>\<^sub>m m'; fetch m p = Some c\<rbrakk> \<Longrightarrow> fetch m' p = Some c"
  by (cases "(m, p)" rule: fetch.cases) (auto simp: map_le_def dom_def)

lemma strnlen_at_mono: "\<lbrakk>m \<subseteq>\<^sub>m m'; strnlen_at m p sz n = Some k\<rbrakk> \<Longrightarrow> strnlen_at m' p sz n = Some k"
proof (induction m p sz n rule: strnlen_at.induct)
  case (1 m p sz n)
  from "1.prems"(2) show ?case
    by (subst strnlen_at.simps, subst (asm) strnlen_at.simps)
      (auto split: if_splits option.splits dest: fetch_mono [OF "1.prems"(1)] intro: "1.IH" "1.prems"(1))
qed

lemma read_width_mono: "read_width m prec ch fmt = Some r \<Longrightarrow> m \<subseteq>\<^sub>m m' \<Longrightarrow> read_width m' prec ch fmt = Some r"
proof (induction m prec ch fmt r rule: read_width_induct)
  case (step f m prec ch fmt r)
  then obtain c where c: "fetch m fmt = Some c" by (auto simp: Option.bind_eq_Some_conv Let_def)
  then have "fetch m' fmt = Some c" using step fetch_mono by blast
  with c step show ?case by (subst read_width.simps) (cases r; auto simp: Let_def split: if_splits)
qed

lemma reswitch_mono: "reswitch m fmt e ap = Some r \<Longrightarrow> m \<subseteq>\<^sub>m m' \<Longrightarrow> reswitch m' fmt e ap = Some r"
proof (induction m fmt e ap r rule: reswitch_induct)
  case (step f m fmt e ap r)
  obtain c where c: "fetch m fmt = Some c" using step(2) by (auto simp: Option.bind_eq_Some_conv)
  then have "fetch m' fmt = Some c" using step fetch_mono by blast
  moreover have "\<And>fmt e ap. f m fmt e ap = Some r \<Longrightarrow> reswitch m' fmt e ap = Some r" using step(1,3) by blast
  ultimately show ?case using c step(2) read_width_mono [OF _ step(3)]
    by (subst reswitch.simps) (auto simp: Option.bind_eq_Some_conv Let_def split: if_splits; blast)
qed

definition follows :: "('s \<Rightarrow> 't \<Rightarrow> bool) \<Rightarrow> ('s \<Rightarrow> rmem) \<Rightarrow> (u32 \<Rightarrow> 's \<Rightarrow> 's) \<Rightarrow> ('t \<Rightarrow> rmem) \<Rightarrow> (u32 \<Rightarrow> 't \<Rightarrow> 't) \<Rightarrow> bool" where
  "follows R rd put rd' put' \<longleftrightarrow> (\<forall>s t. R s t \<longrightarrow> rd s \<subseteq>\<^sub>m rd' t \<and> (\<forall>c. R (put c s) (put' c t)))"

lemma follows_rd: "\<lbrakk>follows R rd put rd' put'; R s t\<rbrakk> \<Longrightarrow> rd s \<subseteq>\<^sub>m rd' t"
  and follows_put: "\<lbrakk>follows R rd put rd' put'; R s t\<rbrakk> \<Longrightarrow> R (put c s) (put' c t)"
  by (simp_all add: follows_def)

lemma follows_fetch: "\<lbrakk>follows R rd put rd' put'; R s t; fetch (rd s) p = Some c\<rbrakk> \<Longrightarrow> fetch (rd' t) p = Some c"
  by (blast dest: follows_rd fetch_mono)

lemma pad_sim: "\<lbrakk>follows R rd put rd' put'; R s t\<rbrakk> \<Longrightarrow> R (pad put k c s) (pad put' k c t)"
proof -
  assume f: "follows R rd put rd' put'" and R: "R s t"
  have "R ((put c ^^ n) s) ((put' c ^^ n) t)" for n by (induction n) (auto simp: R follows_put [OF f])
  then show ?thesis by (simp add: pad_def)
qed

lemma printnum_sim:
  "\<lbrakk>printnum put num base w pc s = Some s'; R s t; follows R rd put rd' put'\<rbrakk> \<Longrightarrow>
     \<exists>t'. printnum put' num base w pc t = Some t' \<and> R s' t'"
proof (induction put num base w pc s s' rule: printnum_induct)
  case (step g put num base w pc s y)
  show ?case
  proof (cases "ucast base \<le> num")
    case True
    then obtain s1 where s1: "base \<noteq> 0" "g put (num div ucast base) base (w - 1) pc s = Some s1"
      "y = put (digit_char (num mod ucast base)) s1"
      using step(2) by (auto simp: Option.bind_eq_Some_conv split: if_splits)
    then obtain t1 where "printnum put' (num div ucast base) base (w - 1) pc t = Some t1" "R s1 t1"
      using step by blast
    with s1 True follows_put [OF step(4)] show ?thesis by (subst printnum.simps) auto
  next
    case False
    with step(2) have "y = put (digit_char (num mod ucast base)) (pad put (w - 1) pc s)" by simp
    with False show ?thesis using follows_put [OF step(4) pad_sim [OF step(4,3)]]
      by (subst printnum.simps) simp
  qed
qed

lemma print_chars_sim:
  "\<lbrakk>print_chars rd put alt prec w p s = Some r; R s t; follows R rd put rd' put'\<rbrakk> \<Longrightarrow>
     \<exists>t'. print_chars rd' put' alt prec w p t = Some (fst r, t') \<and> R (snd r) t'"
proof (induction rd put alt prec w p s r arbitrary: t rule: print_chars_induct)
  case (step g rd put alt prec w p s r)
  then obtain ch where ch: "fetch (rd s) p = Some ch" by (auto simp: Option.bind_eq_Some_conv)
  then have "fetch (rd' t) p = Some ch" using step.prems follows_fetch by fast
  with ch step follows_put [OF step.prems(2,1)] show ?case
    by (subst print_chars.simps) (auto split: if_splits)
qed

lemma print_plain_sim:
  "\<lbrakk>print_plain rd put fmt s = Some r; R s t; follows R rd put rd' put'\<rbrakk> \<Longrightarrow>
     \<exists>t'. print_plain rd' put' fmt t = Some (fst r, t') \<and> R (snd r) t'"
proof (induction rd put fmt s r arbitrary: t rule: print_plain_induct)
  case (step g rd put fmt s r)
  then obtain ch where ch: "fetch (rd s) fmt = Some ch" by (auto simp: Option.bind_eq_Some_conv)
  then have "fetch (rd' t) fmt = Some ch" using step.prems follows_fetch by fast
  with ch step follows_put [OF step.prems(2,1)] show ?case
    by (subst print_plain.simps) (cases r; auto simp: Let_def split: if_splits)
qed

lemma print_string_sim:
  assumes p: "print_string rd put e p s = Some s'" and R: "R s t" and f: "follows R rd put rd' put'"
  shows "\<exists>t'. print_string rd' put' e p t = Some t' \<and> R s' t'"
proof -
  define left where "left \<longleftrightarrow> 0 < width e \<and> padc e \<noteq> 45"
  from p obtain len w s2 where len: "(if left then strnlen_at (rd s) p (word_of_int (precision e)) 0 else Some 0) = Some len"
    and s2: "print_chars rd put (altflag e) (precision e) (if left then min (width e - sint len) 0 else width e) p
      (if left then pad put (width e - sint len) (padc e) s else s) = Some (w, s2)" "s' = pad put w 32 s2"
    by (auto simp: print_string_def Let_def Option.bind_eq_Some_conv left_def [symmetric])
  have "R (if left then pad put (width e - sint len) (padc e) s else s)
      (if left then pad put' (width e - sint len) (padc e) t else t)" using pad_sim [OF f R] R by simp
  from print_chars_sim [OF s2(1) this f] obtain t2 where t2: "print_chars rd' put' (altflag e) (precision e)
      (if left then min (width e - sint len) 0 else width e) p
      (if left then pad put' (width e - sint len) (padc e) t else t) = Some (w, t2)" "R s2 t2" by auto
  moreover have "(if left then strnlen_at (rd' t) p (word_of_int (precision e)) 0 else Some 0) = Some len"
    using len strnlen_at_mono [OF follows_rd [OF f R]] by (auto split: if_splits)
  ultimately show ?thesis using s2(2) pad_sim [OF f t2(2)]
    by (simp add: print_string_def Let_def left_def [symmetric])
qed

lemma print_signed_sim:
  assumes p: "print_signed put base e ap s = Some r" and R: "R s t" and f: "follows R rd put rd' put'"
  shows "\<exists>t'. print_signed put' base e ap t = Some (fst r, t') \<and> R (snd r) t'"
proof -
  obtain num ap' s' where g: "getint ap (lflag e) = Some (num, ap')" "r = (ap', s')"
    "printnum put (if sint num < 0 then - num else num) base (width e) (padc e) (if sint num < 0 then put 45 s else s) = Some s'"
    using p by (fastforce simp: print_signed_def Option.bind_eq_Some_conv split: if_splits)
  have "R (if sint num < 0 then put 45 s else s) (if sint num < 0 then put' 45 t else t)"
    using R follows_put [OF f R] by simp
  from printnum_sim [OF g(3) this f] g show ?thesis by (auto simp: print_signed_def)
qed

lemma print_unsigned_sim:
  assumes p: "print_unsigned put base e ap s = Some r" and R: "R s t" and f: "follows R rd put rd' put'"
  shows "\<exists>t'. print_unsigned put' base e ap t = Some (fst r, t') \<and> R (snd r) t'"
proof -
  obtain num ap' s' where g: "getuint ap (lflag e) = Some (num, ap')" "r = (ap', s')"
    "printnum put num base (width e) (padc e) s = Some s'"
    using p by (fastforce simp: print_unsigned_def Option.bind_eq_Some_conv)
  from printnum_sim [OF g(3) R f] g show ?thesis by (auto simp: print_unsigned_def)
qed

lemma convert_sim:
  assumes c: "convert rd put start ch fmt e ap s = Some (fmt', ap', s')" and R: "R s t" and f: "follows R rd put rd' put'"
  shows "\<exists>t'. convert rd' put' start ch fmt e ap t = Some (fmt', ap', t') \<and> R s' t'"
proof -
  note R1 = follows_put [OF f R]
  show ?thesis
    using c R1 follows_put [OF f R1] unfolding convert_def
    by (auto split: if_splits simp: Option.bind_eq_Some_conv Let_def
      dest!: print_string_sim [OF _ R f] print_signed_sim [OF _ R f] print_unsigned_sim [OF _ R f]
        printnum_sim [OF _ follows_put [OF f R1] f])
qed

lemma vprintfmt_sim:
  "\<lbrakk>vprintfmt rd put fmt ap s = Some s'; R s t; follows R rd put rd' put'\<rbrakk> \<Longrightarrow>
     \<exists>t'. vprintfmt rd' put' fmt ap t = Some t' \<and> R s' t'"
proof (induction rd put fmt ap s s' arbitrary: t rule: vprintfmt_induct)
  case (step g rd put fmt ap s s')
  note f = step.prems(2)
  obtain start s1 where s1: "print_plain rd put fmt s = Some (start, s1)"
    using step(2) by (auto simp: Option.bind_eq_Some_conv)
  from print_plain_sim [OF s1 step.prems] obtain t1 where
    t1: "print_plain rd' put' fmt t = Some (start, t1)" "R s1 t1" by auto
  show ?case
  proof (cases start)
    case None
    with s1 t1 step(2) show ?thesis by (subst vprintfmt.simps) simp
  next
    case (Some start)
    then obtain ch fmt1 e ap1 where r: "reswitch (rd s1) start esc0 ap = Some (ch, fmt1, e, ap1)"
      using step(2) s1 by (auto simp: Option.bind_eq_Some_conv)
    have r': "reswitch (rd' t1) start esc0 ap = Some (ch, fmt1, e, ap1)"
      by (rule reswitch_mono [OF r follows_rd [OF f t1(2)]])
    define body where "body = (if ch = 101 then do {
              (w, ap) \<leftarrow> va_arg ap1;
              let err = c_abs w;
              p \<leftarrow> (if MAXERROR \<le> sint err then Some None else error_string (sint err));
              s \<leftarrow> (case p of
                     None \<Rightarrow> g rd put (lit ''error %d'') [err] s1
                   | Some p \<Rightarrow> print_string rd put esc0 (lit p) s1);
              Some (fmt1, ap, s)
            }
            else convert rd put start ch fmt1 e ap1 s1)"
    define body' where "body' = (if ch = 101 then do {
              (w, ap) \<leftarrow> va_arg ap1;
              let err = c_abs w;
              p \<leftarrow> (if MAXERROR \<le> sint err then Some None else error_string (sint err));
              s \<leftarrow> (case p of
                     None \<Rightarrow> vprintfmt rd' put' (lit ''error %d'') [err] t1
                   | Some p \<Rightarrow> print_string rd' put' esc0 (lit p) t1);
              Some (fmt1, ap, s)
            }
            else convert rd' put' start ch fmt1 e ap1 t1)"
    have eq: "body \<bind> (\<lambda>(fmt, ap, s). g rd put fmt ap s) = Some s'"
      using step(2) s1 Some r by (simp add: body_def)
    have eq': "vprintfmt rd' put' fmt ap t = body' \<bind> (\<lambda>(fmt, ap, s). vprintfmt rd' put' fmt ap s)"
      using t1 Some r' by (subst vprintfmt.simps) (simp add: body'_def)
    obtain fmt2 ap2 s2 where b: "body = Some (fmt2, ap2, s2)" "g rd put fmt2 ap2 s2 = Some s'"
      using eq by (auto simp: Option.bind_eq_Some_conv)
    have "\<exists>t2. body' = Some (fmt2, ap2, t2) \<and> R s2 t2"
    proof (cases "ch = 101")
      case True
      then obtain w p where p: "va_arg ap1 = Some (w, ap2)" "fmt2 = fmt1"
        "(if MAXERROR \<le> sint (c_abs w) then Some None else error_string (sint (c_abs w))) = Some p"
        "(case p of None \<Rightarrow> g rd put (lit ''error %d'') [c_abs w] s1 | Some p \<Rightarrow> print_string rd put esc0 (lit p) s1) = Some s2"
        using b(1) unfolding body_def Let_def by (fastforce simp: Option.bind_eq_Some_conv)
      have "\<exists>t2. (case p of None \<Rightarrow> vprintfmt rd' put' (lit ''error %d'') [c_abs w] t1
          | Some p \<Rightarrow> print_string rd' put' esc0 (lit p) t1) = Some t2 \<and> R s2 t2"
        using p(4) step.IH [OF _ t1(2) f] print_string_sim [OF _ t1(2) f] by (cases p) auto
      with p(1-3) True show ?thesis by (auto simp: body'_def Let_def)
    next
      case False
      then show ?thesis using b(1) convert_sim [OF _ t1(2) f] by (simp add: body_def body'_def)
    qed
    then obtain t2 where "body' = Some (fmt2, ap2, t2)" "R s2 t2" by blast
    with step.IH [OF b(2) _ f] eq' show ?thesis by simp
  qed
qed

section \<open>The characters a format produces\<close>

text \<open>
  The characters of a format: what arrives at an output routine that collects them. Every other
  routine gets the same characters as long as it leaves the memory the formatter reads alone.
\<close>

definition formatted :: "rmem \<Rightarrow> cptr \<Rightarrow> u32 list \<Rightarrow> u32 list option" where
  "formatted m fmt ap = vprintfmt (\<lambda>_. m) (\<lambda>c cs. cs @ [c]) fmt ap []"

lemma vprintfmt_formatted:
  assumes "formatted m fmt ap = Some cs" "\<And>cs. m \<subseteq>\<^sub>m rd (fold put cs s)"
  shows "vprintfmt rd put fmt ap s = Some (fold put cs s)"
proof -
  have f: "follows (\<lambda>cs t. t = fold put cs s) (\<lambda>_. m) (\<lambda>c cs. cs @ [c]) rd put"
    using assms(2) by (simp add: follows_def)
  show ?thesis using vprintfmt_sim [OF assms(1) [unfolded formatted_def] _ f, of s] by simp
qed

lemma vprintfmt_const: "vprintfmt (\<lambda>_. m) put fmt ap s = map_option (\<lambda>cs. fold put cs s) (formatted m fmt ap)"
proof (cases "formatted m fmt ap")
  case (Some cs)
  then show ?thesis using vprintfmt_formatted [of m fmt ap cs "\<lambda>_. m"] by simp
next
  case None
  have f: "follows (\<lambda>t cs. t = fold put cs s) (\<lambda>_. m) put (\<lambda>_. m) (\<lambda>c cs. cs @ [c])"
    by (simp add: follows_def)
  have "vprintfmt (\<lambda>_. m) put fmt ap s \<noteq> Some s'" for s'
    using vprintfmt_sim [OF _ _ f, of fmt ap s s' "[]"] None by (auto simp: formatted_def)
  with None show ?thesis by (cases "vprintfmt (\<lambda>_. m) put fmt ap s") auto
qed

lemma vprintfmt_fold: "vprintfmt rd put fmt ap s = Some s' \<Longrightarrow> \<exists>cs. s' = fold put cs s"
proof -
  assume v: "vprintfmt rd put fmt ap s = Some s'"
  have "\<exists>ds. put c (fold put cs s) = fold put ds s" for c cs by (rule exI [of _ "cs @ [c]"]) simp
  then have f: "follows (\<lambda>t u. \<exists>cs. t = fold put cs s \<and> u = t) rd put rd put"
    by (auto simp: follows_def)
  have "\<exists>cs. s = fold put cs s" by (rule exI [of _ "[]"]) simp
  with vprintfmt_sim [OF v _ f, of s] show ?thesis by auto
qed

section \<open>Numbers\<close>

fun num_digits :: "nat \<Rightarrow> nat \<Rightarrow> nat list" where
  "num_digits b n = (if b < 2 \<or> n < b then [n] else num_digits b (n div b) @ [n mod b])"

declare num_digits.simps [simp del]

lemma num_digits_less: "2 \<le> b \<Longrightarrow> \<forall>d \<in> set (num_digits b n). d < b"
  by (induction b n rule: num_digits.induct) (subst num_digits.simps, auto)

lemma num_digits_value: "2 \<le> b \<Longrightarrow> foldl (\<lambda>v d. v * b + d) 0 (num_digits b n) = n"
  by (induction b n rule: num_digits.induct) (subst num_digits.simps, auto)

lemma num_digits_length: "2 \<le> b \<Longrightarrow> n < b ^ k \<Longrightarrow> 0 < k \<Longrightarrow> length (num_digits b n) \<le> k"
proof (induction b n arbitrary: k rule: num_digits.induct)
  case (1 b n)
  show ?case
  proof (cases "n < b")
    case True
    with 1 show ?thesis by (subst num_digits.simps) simp
  next
    case False
    with 1 obtain j where j: "k = Suc j" "0 < j" by (cases k; cases "k - 1") auto
    then have "n div b < b ^ j" using 1(3) by (simp add: less_mult_imp_div_less mult.commute)
    with 1 False j show ?thesis by (subst num_digits.simps) simp
  qed
qed

definition digit_chars :: "nat list \<Rightarrow> u32 list" where
  "digit_chars = map (\<lambda>d. digit_char (of_nat d))"

lemma unat_ucast_64 [simp]: "unat (ucast x :: 64 word) = unat x" for x :: u32
  using unat_less_32 [of x] by (simp add: unsigned_ucast_eq take_bit_nat_eq_self)

lemma printnum_spec:
  assumes "2 \<le> unat base"
  shows "printnum put num base w pc s =
    Some (fold put (replicate (nat (w - int (length (num_digits (unat base) (unat num))))) pc @
      digit_chars (num_digits (unat base) (unat num))) s)"
  using assms
proof (induction "unat base" "unat num" arbitrary: num w rule: num_digits.induct)
  case (1 num w)
  have le: "(ucast base \<le> num) = (unat base \<le> unat num)" by (simp add: word_le_nat_alt)
  have b0: "base \<noteq> 0" using 1(2) by auto
  have "num mod ucast base = of_nat (unat (num mod ucast base))" by simp
  then have m: "num mod ucast base = of_nat (unat num mod unat base)" by (simp only: unat_mod unat_ucast_64)
  show ?case
  proof (cases "unat base \<le> unat num")
    case True
    have d: "unat num div unat base = unat (num div ucast base)" by (simp add: unat_div)
    have "printnum put (num div ucast base) base (w - 1) pc s = Some (fold put
        (replicate (nat (w - 1 - int (length (num_digits (unat base) (unat num div unat base))))) pc @
        digit_chars (num_digits (unat base) (unat num div unat base))) s)"
      using 1 True d by simp
    moreover have "num_digits (unat base) (unat num) = num_digits (unat base) (unat num div unat base) @ [unat num mod unat base]"
      using True 1(2) by (subst num_digits.simps) simp
    ultimately show ?thesis using True le b0
      by (subst printnum.simps) (simp add: digit_chars_def m diff_diff_eq)
  next
    case False
    then have "unat num mod unat base = unat num" by simp
    then have m': "num mod ucast base = num" using m by simp
    have "num_digits (unat base) (unat num) = [unat num]" using False by (subst num_digits.simps) simp
    with False le show ?thesis
      by (subst printnum.simps) (simp add: digit_chars_def pad_def m' fold_replicate)
  qed
qed

section \<open>Signed decimal numbers\<close>

definition decimal :: "int \<Rightarrow> u32 list" where
  "decimal k = (if k < 0 then [45] else []) @ digit_chars (num_digits 10 (nat \<bar>k\<bar>))"

lemma sint_bounds_32: "- 2147483648 \<le> sint (w :: u32)" "sint (w :: u32) < 2147483648"
  using sint_greater_eq [of w] sint_lt [of w] by simp_all

lemma scast_64: "sint (scast w :: 64 word) = sint w" for w :: u32
  by (rule sint_up_scast) (simp add: is_up)

lemma unat_of_int_64: "0 \<le> k \<Longrightarrow> k < 18446744073709551616 \<Longrightarrow> unat (word_of_int k :: 64 word) = nat k"
  by (simp add: unsigned_of_int take_bit_int_eq_self)

lemma magnitude:
  "unat (if sint w < 0 then - (scast w :: 64 word) else scast w) = nat \<bar>sint w\<bar>" for w :: u32
proof -
  have "(if sint w < 0 then - (scast w :: 64 word) else scast w) = word_of_int \<bar>sint w\<bar>"
    unfolding scast_eq wi_hom_neg abs_if by (rule if_distrib [symmetric])
  moreover have "\<bar>sint w\<bar> < 18446744073709551616" using sint_bounds_32 [of w] by linarith
  ultimately show ?thesis by (simp only: unat_of_int_64 abs_ge_zero)
qed

lemma print_signed_decimal:
  "print_signed put 10 esc0 (w # ap) s = Some (ap, fold put (decimal (sint w)) s)"
proof -
  have n: "printnum put (if sint w < 0 then - (scast w) else scast w) 10 (-1) 32 s =
    Some (fold put (digit_chars (num_digits 10 (nat \<bar>sint w\<bar>))) s)" for s
    by (subst printnum_spec) (simp_all only: magnitude, simp_all)
  show ?thesis using n [of s] n [of "put 45 s"]
    by (cases "sint w < 0") (simp_all add: print_signed_def getint_def esc0_def decimal_def scast_64)
qed

lemma lit_simps [simp]: "fetch m (lit []) = Some 0" "fetch m (lit (c # cs)) = Some (of_char c)"
  "advance (lit (c # cs)) = lit cs" "advance (lit []) = lit []"
  by (simp_all add: lit_def)

lemma vprintfmt_end: "fetch (rd s) p = Some 0 \<Longrightarrow> vprintfmt rd put p ap s = Some s"
  by (subst vprintfmt.simps, subst print_plain.simps) simp

lemma formatted_d:
  assumes "fetch m p = Some 37" "fetch m (advance p) = Some 100" "fetch m (advance (advance p)) = Some 0"
  shows "formatted m p [w] = Some (decimal (sint w))"
proof -
  have p: "print_plain (\<lambda>_. m) put p s = Some (Some (advance p), s)" for put :: "u32 \<Rightarrow> 'b \<Rightarrow> 'b" and s
    using assms by (subst print_plain.simps) simp
  have r: "reswitch m (advance p) esc0 ap = Some (100, advance (advance p), esc0, ap)" for ap
    using assms by (subst reswitch.simps) simp
  have "fold (\<lambda>c cs. cs @ [c]) xs ys = ys @ xs" for xs ys :: "u32 list" by (induction xs arbitrary: ys) auto
  then show ?thesis using assms(3) unfolding formatted_def
    by (subst vprintfmt.simps) (simp add: p r convert_def print_signed_decimal vprintfmt_end)
qed

section \<open>Reading a printed number back\<close>

lemma digit_char_val:
  assumes "d < 16"
  shows "digit_char (of_nat d) = (if d < 10 then of_nat (48 + d) else of_nat (87 + d))"
proof -
  have "d = 0 \<or> d = 1 \<or> d = 2 \<or> d = 3 \<or> d = 4 \<or> d = 5 \<or> d = 6 \<or> d = 7 \<or> d = 8 \<or> d = 9 \<or> d = 10 \<or>
    d = 11 \<or> d = 12 \<or> d = 13 \<or> d = 14 \<or> d = 15" using assms by presburger
  then show ?thesis by (elim disjE) (simp_all add: digit_char_def)
qed

lemma digit_of_char:
  assumes "d < 16"
  shows "digit (ucast (digit_char (of_nat d))) = Some (of_nat d)"
proof -
  have "d = 0 \<or> d = 1 \<or> d = 2 \<or> d = 3 \<or> d = 4 \<or> d = 5 \<or> d = 6 \<or> d = 7 \<or> d = 8 \<or> d = 9 \<or> d = 10 \<or>
    d = 11 \<or> d = 12 \<or> d = 13 \<or> d = 14 \<or> d = 15" using assms by presburger
  then show ?thesis by (elim disjE) (simp_all add: digit_char_def digit_def)
qed

lemma digits_value_chars:
  assumes "2 \<le> b" "b \<le> 16"
  shows "digits_value (of_nat b) (map ucast (digit_chars (num_digits b n))) 0 = of_nat n"
proof -
  have "digits_value (of_nat b) (map ucast (digit_chars ds)) (of_nat v) = of_nat (foldl (\<lambda>v d. v * b + d) v ds)"
    if "\<forall>d \<in> set ds. d < b" for ds v
    using that
  proof (induction ds arbitrary: v)
    case Nil
    then show ?case by (simp add: digits_value_def digit_chars_def)
  next
    case (Cons d ds)
    then have "the (digit (ucast (digit_char (of_nat d)))) = of_nat d" using assms by (subst digit_of_char) auto
    then show ?case using Cons.IH [of "v * b + d"] Cons.prems by (simp add: digits_value_def digit_chars_def)
  qed
  from this [of "num_digits b n" 0] num_digits_less [OF assms(1)] num_digits_value [OF assms(1)] show ?thesis by simp
qed

lemma strtol_decimal:
  assumes "cstr m p (map ucast (decimal (sint w)))"
  shows "strtol m p 10 = Some (w, off p (length (decimal (sint w))))"
proof -
  define ds where "ds = (map ucast (digit_chars (num_digits 10 (nat \<bar>sint w\<bar>))) :: u8 list)"
  define q where "q = (if sint w < 0 then p + 1 else p)"
  have dig: "\<exists>d. digit c = Some d \<and> sint d < sint (10 :: u32) \<and> c \<noteq> 32 \<and> c \<noteq> 9 \<and> c \<noteq> 43 \<and> c \<noteq> 45" if c: "c \<in> set ds" for c
  proof -
    obtain d where d: "d < 10" "c = ucast (digit_char (of_nat d))"
      using c num_digits_less [of 10 "nat \<bar>sint w\<bar>"] by (auto simp: ds_def digit_chars_def)
    then have "digit c = Some (of_nat d)" by (simp add: digit_of_char)
    moreover have "sint (of_nat d :: u32) = int d" using d(1) by (simp add: signed_of_nat signed_take_bit_int_eq_self)
    moreover have "digit 32 = None" "digit 9 = None" "digit 43 = None" "digit 45 = None" by (simp_all add: digit_def)
    ultimately show ?thesis using d(1) by auto
  qed
  have q: "cstr m q ds" using assms by (auto simp: q_def ds_def decimal_def)
  have ne: "ds \<noteq> []" by (subst ds_def, subst num_digits.simps) (auto simp: digit_chars_def)
  then have "ds ! 0 \<in> set ds" by simp
  moreover have "m q = ds ! 0" using cstr_nth [OF q, of 0] ne by simp
  ultimately have c0: "m q \<noteq> 32 \<and> m q \<noteq> 9 \<and> m q \<noteq> 43 \<and> m q \<noteq> 45" using dig by metis
  have "strtol_digits m q 10 0 = Some (off q (length ds), digits_value 10 ds 0)"
  proof (rule strtol_digits_run)
    show "m (off q i) = ds ! i \<and> (\<exists>d. digit (ds ! i) = Some d \<and> sint d < sint (10 :: u32))" if "i < length ds" for i
      using cstr_nth [OF q that] dig [of "ds ! i"] that by auto
    show "case digit (m (off q (length ds))) of None \<Rightarrow> True | Some d \<Rightarrow> sint (10 :: u32) \<le> sint d"
      using cstr_end [OF q] by (simp add: digit_def)
  qed
  moreover have "digits_value 10 ds 0 = of_nat (nat \<bar>sint w\<bar>)"
    using digits_value_chars [of 10 "nat \<bar>sint w\<bar>"] by (simp add: ds_def)
  moreover have "strtol_blanks m p = Some p"
    using c0 assms by (subst strtol_blanks.simps) (auto simp: q_def decimal_def split: if_splits)
  moreover have "of_nat (nat \<bar>sint w\<bar>) = (if sint w < 0 then - w else w)"
    by (simp add: scast_id)
  moreover have "sint w < 0 \<Longrightarrow> m p = 45" using assms by (simp add: decimal_def)
  ultimately show ?thesis using c0
    by (cases "sint w < 0") (simp_all add: strtol_def q_def Let_def decimal_def ds_def off_Suc del: of_nat_Suc)
qed

section \<open>The buffer of snprintf\<close>

text \<open>What is in the buffer after the characters \<open>cs\<close>: the first \<open>n - 1\<close> of them.\<close>

lemma sprint_fold:
  assumes "sp_buf b = buf" "sp_ebuf b = off buf k" "sp_cnt b = 0" "sp_mem b = m" "unat buf + k < 4294967296"
  defines "after \<equiv> \<lambda>cs. fold sprintputch cs b"
  shows "sp_cnt (after cs) = of_nat (length cs) \<and> sp_ebuf (after cs) = off buf k \<and>
    sp_buf (after cs) = off buf (min k (length cs)) \<and>
    (\<forall>i < min k (length cs). sp_mem (after cs) (off buf i) = ucast (cs ! i)) \<and>
    (\<forall>a. (\<forall>i < k. a \<noteq> off buf i) \<longrightarrow> sp_mem (after cs) a = m a)"
proof (induction cs rule: rev_induct)
  case Nil
  then show ?case using assms by simp
next
  case (snoc c cs)
  let ?l = "min k (length cs)"
  have step: "after (cs @ [c]) = sprintputch c (after cs)" by (simp add: after_def)
  have lt: "off buf ?l < off buf k \<longleftrightarrow> length cs < k"
    using assms(5) by (auto simp: word_less_nat_alt unat_add_32 min_def)
  have inj: "off buf i \<noteq> off buf j" if "i < j" "j < k" for i j
    using that assms(5) by (subst off_inj) auto
  show ?case
  proof (cases "length cs < k")
    case True
    have "sp_mem (after (cs @ [c])) (off buf i) = ucast ((cs @ [c]) ! i)" if "i < Suc (length cs)" for i
      using that snoc True lt inj [of i "length cs"] unfolding step sprintputch_def
      by (cases "i = length cs") (auto simp: nth_append)
    moreover have "min k (length cs) = length cs" "min k (Suc (length cs)) = Suc (length cs)" using True by simp_all
    ultimately show ?thesis using True snoc lt unfolding step sprintputch_def by (auto simp: add.commute add.left_commute)
  next
    case False
    with snoc lt show ?thesis unfolding step sprintputch_def by (auto simp: min_def nth_append)
  qed
qed

text \<open>
  \<open>vsnprintf\<close> stores the characters of the format, as many as fit, and a terminator, never touches
  memory outside the buffer and returns how many characters there were. The format and the strings
  it prints must not lie in the buffer.
\<close>

definition outside :: "u32 \<Rightarrow> u32 \<Rightarrow> cmem \<Rightarrow> rmem" where
  "outside buf n m a = (if a - buf < n then None else Some (m a))"

lemma sint_pos_unat: "1 \<le> sint n \<Longrightarrow> 1 \<le> unat n" for n :: u32
  by (cases "n = 0") (simp_all add: Suc_le_eq unat_gt_0)

lemma vsnprintf_writes:
  fixes m :: cmem
  assumes n: "1 \<le> sint n" and w: "unat buf + unat n \<le> 4294967296"
  defines "b \<equiv> \<lparr>sp_buf = buf, sp_ebuf = buf + n - 1, sp_cnt = 0, sp_mem = m\<rparr>"
  defines "after \<equiv> \<lambda>cs. fold sprintputch cs b" and "l \<equiv> \<lambda>cs :: u32 list. min (unat n - 1) (length cs)"
  shows "sp_cnt (after cs) = of_nat (length cs)" "sp_buf (after cs) = off buf (l cs)"
    "i < l cs \<Longrightarrow> sp_mem (after cs) (off buf i) = ucast (cs ! i)"
    "\<not> a - buf < n \<Longrightarrow> sp_mem (after cs) a = m a"
proof -
  have n1: "1 \<le> unat n" by (rule sint_pos_unat [OF n])
  then have "of_nat (unat n - 1) = n - 1" by (simp add: of_nat_diff)
  then have e: "sp_ebuf b = off buf (unat n - 1)" by (simp add: b_def)
  have "unat buf + (unat n - 1) < 4294967296" using w n1 by linarith
  note f = sprint_fold [OF _ e _ _ this, of m cs]
  show "sp_cnt (after cs) = of_nat (length cs)" "sp_buf (after cs) = off buf (l cs)"
    "i < l cs \<Longrightarrow> sp_mem (after cs) (off buf i) = ucast (cs ! i)"
    using f by (simp_all add: after_def l_def b_def)
  assume "\<not> a - buf < n"
  then have "\<forall>i < unat n - 1. a \<noteq> off buf i" unfolding in_block by (auto simp: less_diff_conv)
  then show "sp_mem (after cs) a = m a" using f by (simp add: after_def b_def)
qed

lemma vsnprintf_format:
  assumes n: "1 \<le> sint n" and w: "unat buf + unat n \<le> 4294967296" and "buf \<noteq> 0"
    and f: "formatted (outside buf n m) (Ptr fmt) ap = Some cs"
  shows "\<exists>m'. vsnprintf buf n fmt ap m = Some (of_nat (length cs), m') \<and>
    (\<forall>i < min (unat n - 1) (length cs). m' (off buf i) = ucast (cs ! i)) \<and>
    m' (off buf (min (unat n - 1) (length cs))) = 0 \<and> (\<forall>a. \<not> a - buf < n \<longrightarrow> m' a = m a)"
proof -
  let ?b = "\<lparr>sp_buf = buf, sp_ebuf = buf + n - 1, sp_cnt = 0, sp_mem = m\<rparr>" and ?l = "min (unat n - 1) (length cs)"
  note wr = vsnprintf_writes [OF n w, where m = m]
  have n1: "1 \<le> unat n" by (rule sint_pos_unat [OF n])
  have "outside buf n m \<subseteq>\<^sub>m (\<lambda>a. Some (sp_mem (fold sprintputch cs ?b) a))" for cs
    using wr(4) by (auto simp: map_le_def outside_def dom_def)
  then have v: "vprintfmt (\<lambda>b a. Some (sp_mem b a)) sprintputch (Ptr fmt) ap ?b = Some (fold sprintputch cs ?b)"
    by (intro vprintfmt_formatted [OF f])
  have l: "?l < unat n" using n1 by linarith
  have "off buf i \<noteq> off buf ?l" if "i < ?l" for i
    using that l unat_less_32 [of n] by (subst off_inj) auto
  moreover have "a \<noteq> off buf ?l" if "\<not> a - buf < n" for a using that l unfolding in_block by blast
  ultimately show ?thesis using v wr n \<open>buf \<noteq> 0\<close> by (auto simp: vsnprintf_def Let_def)
qed

lemma vsnprintf_bounded:
  assumes "unat buf + unat n \<le> 4294967296" and v: "vsnprintf buf n fmt ap m = Some (r, m')"
  shows "\<forall>a. \<not> a - buf < n \<longrightarrow> m' a = m a"
proof (cases "buf = 0 \<or> sint n < 1")
  case True
  then show ?thesis using v by (simp add: vsnprintf_def)
next
  case False
  let ?b = "\<lparr>sp_buf = buf, sp_ebuf = buf + n - 1, sp_cnt = 0, sp_mem = m\<rparr>"
  from v False obtain b where b: "vprintfmt (\<lambda>b a. Some (sp_mem b a)) sprintputch (Ptr fmt) ap ?b = Some b"
    "m' = (sp_mem b)(sp_buf b := 0)" by (auto simp: vsnprintf_def Option.bind_eq_Some_conv)
  from vprintfmt_fold [OF b(1)] obtain cs where cs: "b = fold sprintputch cs ?b" by blast
  have n: "1 \<le> sint n" using False by simp
  note wr = vsnprintf_writes [OF n assms(1), where m = m]
  have "min (unat n - 1) (length cs) < unat n" using sint_pos_unat [OF n] by linarith
  then show ?thesis using wr b cs unfolding in_block by auto
qed

section \<open>Console output of user programs\<close>

lemma putch_fold:
  assumes "pb_idx b = 0" "pb_cnt b = 0"
  shows "\<exists>bs. pb_sys (fold (putch cputs) cs b) = fold cputs bs (pb_sys b) \<and>
    concat bs @ pb_chars (fold (putch cputs) cs b) = map ucast cs \<and> (\<forall>x \<in> set bs. length x = 255) \<and>
    pb_idx (fold (putch cputs) cs b) < 255 \<and> pb_cnt (fold (putch cputs) cs b) = of_nat (length cs)"
proof (induction cs rule: rev_induct)
  case Nil
  show ?case by (rule exI [of _ "[]"]) (simp add: assms pb_chars_def)
next
  case (snoc c cs)
  define p where "p = fold (putch cputs) cs b"
  from snoc obtain bs where bs: "pb_sys p = fold cputs bs (pb_sys b)" "concat bs @ pb_chars p = map ucast cs"
    "\<forall>x \<in> set bs. length x = 255" "pb_idx p < 255" "pb_cnt p = of_nat (length cs)" by (auto simp: p_def)
  define p1 where "p1 = p\<lparr>pb_buf := (pb_buf p)(pb_idx p := ucast c), pb_idx := pb_idx p + 1\<rparr>"
  have c1: "pb_chars p1 = pb_chars p @ [ucast c]" by (simp add: p1_def pb_chars_def)
  have e: "fold (putch cputs) (cs @ [c]) b = putch cputs c p" by (simp add: p_def)
  show ?case
  proof (cases "pb_idx p1 = 255")
    case True
    then have "putch cputs c p = p1\<lparr>pb_sys := cputs (pb_chars p1) (pb_sys p), pb_idx := 0, pb_cnt := pb_cnt p + 1\<rparr>"
      by (simp add: putch_def Let_def p1_def)
    moreover have "length (pb_chars p1) = 255" "pb_idx p = 254" using True by (simp_all add: pb_chars_def p1_def)
    ultimately show ?thesis unfolding e using bs c1
      by (intro exI [of _ "bs @ [pb_chars p1]"]) (auto simp: pb_chars_def)
  next
    case False
    then have "putch cputs c p = p1\<lparr>pb_cnt := pb_cnt p + 1\<rparr>" by (simp add: putch_def Let_def p1_def)
    moreover have "pb_chars (p1\<lparr>pb_cnt := k\<rparr>) = pb_chars p1" for k by (simp add: pb_chars_def)
    ultimately show ?thesis unfolding e using bs c1 False
      by (intro exI [of _ bs]) (auto simp: p1_def)
  qed
qed

lemma vcprintf_blocks:
  assumes "formatted m fmt ap = Some cs"
  shows "\<exists>bs. vcprintf cputs m fmt ap junk w = Some (of_nat (length cs), fold cputs bs w) \<and>
    concat bs = map ucast cs \<and> (\<forall>x \<in> set bs. length x < 256)"
proof -
  define b where "b = \<lparr>pb_idx = 0, pb_cnt = 0, pb_buf = junk, pb_sys = w\<rparr>"
  obtain bs where bs: "pb_sys (fold (putch cputs) cs b) = fold cputs bs w"
    "concat bs @ pb_chars (fold (putch cputs) cs b) = map ucast cs" "\<forall>x \<in> set bs. length x = 255"
    "pb_idx (fold (putch cputs) cs b) < 255" "pb_cnt (fold (putch cputs) cs b) = of_nat (length cs)"
    using putch_fold [of b cputs cs] by (auto simp: b_def)
  then show ?thesis using assms
    by (intro exI [of _ "bs @ [pb_chars (fold (putch cputs) cs b)]"])
      (auto simp: vcprintf_def vprintfmt_const pb_chars_def b_def Let_def)
qed

section \<open>Output to a file descriptor\<close>

text \<open>
  Writing blocks one after the other, until one is not written in full: the bytes written so far,
  1 or the error of the last write (0 when it was short), and the state of the system.
\<close>

primrec write_blocks ::
  "(u32 \<Rightarrow> u8 list \<Rightarrow> 'w \<Rightarrow> int \<times> 'w) \<Rightarrow> u32 \<Rightarrow> u8 list list \<Rightarrow> 'w \<Rightarrow> int \<times> int \<times> 'w" where
  "write_blocks wr fd [] w = (0, 1, w)"
| "write_blocks wr fd (x # xs) w =
     (let (r, w) = wr fd x w in
      if r = int (length x) then let (t, e, w) = write_blocks wr fd xs w in (r + t, e, w)
      else (max r 0, min r 0, w))"

lemma write_blocks_snoc:
  "write_blocks wr fd (xs @ [x]) w =
     (let (t, e, w) = write_blocks wr fd xs w in
      if 0 < e then let (r, w) = wr fd x w in
        (if 0 < r then t + r else t, if r \<noteq> int (length x) then if r < 0 then r else 0 else e, w)
      else (t, e, w))"
proof (induction xs arbitrary: w)
  case Nil
  then show ?case by (auto simp: Let_def split: prod.splits)
next
  case (Cons y ys)
  show ?case
    by (simp add: Cons.IH Let_def split: prod.split)
qed

lemma fputch_fold:
  fixes wr :: "u32 \<Rightarrow> u8 list \<Rightarrow> 'w \<Rightarrow> int \<times> 'w"
  assumes "fb_idx b = 0" "fb_result b = 0" "fb_error b = 1"
  defines "after \<equiv> \<lambda>cs. fold (fputch wr) cs b"
  shows "\<exists>bs. (fb_result (after cs), fb_error (after cs), fb_sys (after cs)) = write_blocks wr (fb_fd b) bs (fb_sys b) \<and>
    concat bs @ map (fb_buf (after cs)) [0..<fb_idx (after cs)] = map ucast cs \<and> (\<forall>x \<in> set bs. length x = 256) \<and>
    fb_idx (after cs) < 256 \<and> fb_fd (after cs) = fb_fd b"
proof (induction cs rule: rev_induct)
  case Nil
  show ?case by (rule exI [of _ "[]"]) (simp add: assms)
next
  case (snoc c cs)
  define p where "p = after cs"
  from snoc obtain bs where bs: "(fb_result p, fb_error p, fb_sys p) = write_blocks wr (fb_fd b) bs (fb_sys b)"
    "concat bs @ map (fb_buf p) [0..<fb_idx p] = map ucast cs"
    "\<forall>x \<in> set bs. length x = 256" "fb_idx p < 256" "fb_fd p = fb_fd b" by (auto simp: p_def)
  define p1 where "p1 = p\<lparr>fb_buf := (fb_buf p)(fb_idx p := ucast c), fb_idx := fb_idx p + 1\<rparr>"
  define x where "x = map (fb_buf p1) [0..<fb_idx p1]"
  have c1: "x = map (fb_buf p) [0..<fb_idx p] @ [ucast c]" by (simp add: p1_def x_def)
  have e: "after (cs @ [c]) = fputch wr c p" by (simp add: p_def after_def)
  show ?case
  proof (cases "fb_idx p1 = 256")
    case True
    then have f: "fputch wr c p = (writebuf wr p1)\<lparr>fb_idx := 0\<rparr>" by (simp add: fputch_def Let_def p1_def)
    have "write_blocks wr (fb_fd b) (bs @ [x]) (fb_sys b) =
        (fb_result (writebuf wr p1), fb_error (writebuf wr p1), fb_sys (writebuf wr p1))"
      using bs(1,5) by (simp add: write_blocks_snoc flip: bs(1)) (simp add: writebuf_def x_def p1_def Let_def split: prod.split)
    moreover have "length x = 256" using True by (simp add: x_def)
    moreover have "fb_fd (writebuf wr p1) = fb_fd b" using bs(5) by (simp add: writebuf_def p1_def Let_def split: prod.split)
    ultimately show ?thesis unfolding e f using bs c1
      by (intro exI [of _ "bs @ [x]"]) (auto simp: simp flip: append_assoc)
  next
    case False
    then have "fputch wr c p = p1" by (simp add: fputch_def Let_def p1_def)
    moreover have "fb_result p1 = fb_result p" "fb_error p1 = fb_error p" "fb_sys p1 = fb_sys p" "fb_fd p1 = fb_fd p"
      "fb_idx p1 < 256" using False bs(4) by (simp_all add: p1_def)
    ultimately show ?thesis unfolding e using bs c1
      by (intro exI [of _ bs]) (simp flip: x_def append_assoc)
  qed
qed

lemma vfprintf_blocks:
  assumes "formatted m fmt ap = Some cs"
  shows "\<exists>bs. vfprintf wr m fd fmt ap junk w =
      Some (let (t, e, w) = write_blocks wr fd bs w in (if t \<noteq> 0 then t else e, w)) \<and>
    concat bs = map ucast cs \<and> (\<forall>x \<in> set bs. 0 < length x \<and> length x \<le> 256)"
proof -
  define b where "b = \<lparr>fb_fd = fd, fb_idx = 0, fb_result = 0, fb_error = 1, fb_buf = junk, fb_sys = w\<rparr>"
  define p where "p = fold (fputch wr) cs b"
  define x where "x = map (fb_buf p) [0..<fb_idx p]"
  obtain bs where bs: "(fb_result p, fb_error p, fb_sys p) = write_blocks wr fd bs w"
    "concat bs @ x = map ucast cs" "\<forall>x \<in> set bs. length x = 256" "fb_idx p < 256" "fb_fd p = fd"
    using fputch_fold [of b wr cs] by (auto simp: b_def p_def x_def)
  have v: "vprintfmt (\<lambda>_. m) (fputch wr) fmt ap b = Some p" using assms by (simp add: vprintfmt_const p_def)
  show ?thesis
  proof (cases "fb_idx p = 0")
    case True
    then show ?thesis using v bs
      by (intro exI [of _ bs]) (auto simp: vfprintf_def b_def x_def simp flip: bs(1))
  next
    case False
    have "write_blocks wr fd (bs @ [x]) w =
        (fb_result (writebuf wr p), fb_error (writebuf wr p), fb_sys (writebuf wr p))"
      using bs(1,5) by (simp add: write_blocks_snoc flip: bs(1)) (simp add: writebuf_def x_def Let_def split: prod.split)
    moreover have "0 < length x" "length x \<le> 256" using False bs(4) by (auto simp: x_def)
    ultimately show ?thesis using v bs False
      by (intro exI [of _ "bs @ [x]"]) (auto simp: vfprintf_def b_def Let_def)
  qed
qed

section \<open>Printing a number and reading it back\<close>

lemma decimal_nonzero: "c \<in> set (decimal k) \<Longrightarrow> (ucast c :: u8) \<noteq> 0"
proof -
  assume "c \<in> set (decimal k)"
  then consider "c = 45" | d where "d < 10" "c = digit_char (of_nat d)"
    using num_digits_less [of 10 "nat \<bar>k\<bar>"] by (auto simp: decimal_def digit_chars_def split: if_splits)
  then show ?thesis
  proof cases
    case 2
    then have "digit (ucast c) = Some (of_nat d)" by (simp add: digit_of_char)
    moreover have "digit 0 = None" by (simp add: digit_def)
    ultimately show ?thesis by auto
  qed simp
qed

lemma decimal_length: "length (decimal (sint w)) \<le> 11" for w :: u32
proof -
  have "nat \<bar>sint w\<bar> < 10 ^ 10" using sint_bounds_32 [of w] by (simp add: nat_less_iff abs_if)
  then have "length (num_digits 10 (nat \<bar>sint w\<bar>)) \<le> 10" by (intro num_digits_length) simp_all
  then show ?thesis by (cases "sint w < 0") (simp_all add: decimal_def digit_chars_def)
qed

lemma unat_sint: "0 \<le> sint n \<Longrightarrow> unat n = nat (sint n)" for n :: u32
proof -
  assume s: "0 \<le> sint n"
  have "unat (word_of_int k :: u32) = nat k" if "0 \<le> k" "k < 4294967296" for k
    using that by (simp add: unsigned_of_int take_bit_int_eq_self)
  from this [of "sint n"] s sint_bounds_32(2) [of n] show ?thesis by simp
qed

lemma snprintf_strtol:
  assumes n: "12 \<le> sint n" and wr: "unat buf + unat n \<le> 4294967296" "buf \<noteq> 0"
    and fmt: "\<not> fmt - buf < n" "\<not> fmt + 1 - buf < n" "\<not> fmt + 2 - buf < n" "cstr m fmt [37, 100]"
  shows "\<exists>r m'. snprintf buf n fmt [w] m = Some (r, m') \<and> strtol m' buf 10 = Some (w, buf + r)"
proof -
  have n1: "1 \<le> sint n" using n by simp
  have n12: "12 \<le> unat n" using n unat_sint [of n] by simp
  then have len: "length (decimal (sint w)) \<le> unat n - 1" using decimal_length [of w] by linarith
  have "formatted (outside buf n m) (Ptr fmt) [w] = Some (decimal (sint w))"
    using fmt by (intro formatted_d) (simp_all add: outside_def add.commute add.left_commute)
  from vsnprintf_format [OF n1 wr this] len obtain m' where
    m': "vsnprintf buf n fmt [w] m = Some (of_nat (length (decimal (sint w))), m')"
      "\<forall>i < length (decimal (sint w)). m' (off buf i) = ucast (decimal (sint w) ! i)"
      "m' (off buf (length (decimal (sint w)))) = 0" by (auto simp: min_absorb2)
  have "cstr m' buf (map ucast (decimal (sint w)))"
    using m'(2,3) by (intro cstrI) (auto simp: decimal_nonzero [OF nth_mem])
  from strtol_decimal [OF this] m'(1) show ?thesis by (simp add: snprintf_def)
qed

end
