(* ===== verification/Jos_Lib_Properties.thy ===== *)
theory Jos_Lib_Properties
  imports Jos_Printf_Spec
begin

text \<open>
  Properties of the shared library: the block and string routines and formatted output.
\<close>

text \<open>
  C26. The word-at-a-time \<open>memmove\<close>, which copies upwards or downwards depending on how the blocks
  overlap, is equivalent to the simultaneous byte-wise copy of the source block, provided the blocks
  do not run over the end of the address space.
\<close>

theorem memmove_equiv:
  assumes "unat src + unat n < 4294967296" "unat dst + unat n \<le> 4294967296"
  shows "memmove dst src n m = (dst, \<lambda>a. if a - dst < n then m (src + (a - dst)) else m a)"
  using assms by (rule memmove_spec)

theorem memmove_equiv_witness:
  "snd (memmove 0x1002 0x1000 6 ucast) 0x1007 = 5 \<and> snd (memmove 0x1002 0x1000 6 ucast) 0x1002 = 0 \<and>
   snd (memmove 0x1002 0x1000 6 ucast) 0x1008 = 8"
  using memmove_equiv [where src = "0x1000" and n = 6 and dst = "0x1002" and m = ucast] by simp

text \<open>
  \<open>memset\<close>, which stores words when address and size allow it, is equivalent to storing the low
  byte of its argument in every cell of the block.
\<close>

theorem memset_equiv: "memset v c n m = (v, \<lambda>a. if a - v < n then ucast c else m a)"
  by (rule memset_spec)

text \<open>
  C35. \<open>strlcpy\<close> into a buffer of \<open>sz\<close> bytes that does not overlap the source writes inside the buffer
  only, leaves a terminated string there, namely the source cut off after \<open>sz - 1\<close> bytes, and returns
  its length.
\<close>

theorem strlcpy_bounds:
  assumes "cstr m src xs" "0 < sz"
    "\<And>i j. \<lbrakk>i < unat sz; j \<le> length xs\<rbrakk> \<Longrightarrow> dst + of_nat i \<noteq> src + of_nat j"
  shows "\<exists>m'. strlcpy dst src sz m = (of_nat (min (unat sz - 1) (length xs)), m') \<and>
    cstr m' dst (take (unat sz - 1) xs) \<and> (\<forall>a. \<not> a - dst < sz \<longrightarrow> m' a = m a)"
  using assms by (rule strlcpy_spec)

definition ex_mem :: cmem where
  "ex_mem = (\<lambda>_. 0)(0x2000 := 37, 0x2001 := 100, 0x3000 := 104, 0x3001 := 105, 0x3002 := 33)"

theorem strlcpy_bounds_witness:
  "\<exists>m'. strlcpy 0x1000 0x3000 3 ex_mem = (2, m') \<and> cstr m' 0x1000 [104, 105] \<and>
    (\<forall>a. a - 0x1000 < 3 \<or> m' a = ex_mem a)"
proof -
  have c: "cstr ex_mem 0x3000 [104, 105, 33]" by (simp add: ex_mem_def)
  have d: "0x1000 + of_nat i \<noteq> 0x3000 + (of_nat j :: u32)"
    if "i < unat (3 :: u32)" "j \<le> length [104 :: u8, 105, 33]" for i j
  proof -
    have "i < 3" "j < 4" using that by simp_all
    then have "unat (0x1000 + of_nat i :: u32) = 0x1000 + i" "unat (0x3000 + of_nat j :: u32) = 0x3000 + j"
      by (simp_all add: unat_add_32)
    then show ?thesis using \<open>i < 3\<close> by (auto simp: word_eq_unat)
  qed
  have m: "min (unat (3 :: u32) - 1) (length [104 :: u8, 105, 33]) = 2" by simp
  have "take (unat (3 :: u32) - 1) [104 :: u8, 105, 33] = [104, 105]" by simp
  moreover have "\<exists>m'. strlcpy 0x1000 0x3000 3 ex_mem = (of_nat (min (unat (3 :: u32) - 1) (length [104 :: u8, 105, 33])), m') \<and>
      cstr m' 0x1000 (take (unat (3 :: u32) - 1) [104, 105, 33]) \<and> (\<forall>a. \<not> a - 0x1000 < 3 \<longrightarrow> m' a = ex_mem a)"
    by (rule strlcpy_bounds [OF c]) (simp, rule d)
  ultimately show ?thesis unfolding m by auto
qed

text \<open>
  C31. Printing an \<open>int\<close> with \<open>snprintf\<close> and the format \<open>"%d"\<close> and reading the result back with
  \<open>strtol\<close> gives the number and ends at the terminator, for every number, when the buffer has room for
  twelve bytes and does not overlap the format.
\<close>

theorem snprintf_strtol_roundtrip:
  assumes "12 \<le> sint n" "unat buf + unat n \<le> 4294967296" "buf \<noteq> 0"
    "\<not> fmt - buf < n" "\<not> fmt + 1 - buf < n" "\<not> fmt + 2 - buf < n" "cstr m fmt [37, 100]"
  shows "\<exists>r m'. snprintf buf n fmt [w] m = Some (r, m') \<and> strtol m' buf 10 = Some (w, buf + r)"
  using assms by (rule snprintf_strtol)

theorem snprintf_strtol_roundtrip_witness:
  "\<exists>r m'. snprintf 0x1000 12 0x2000 [- 2147483648] ex_mem = Some (r, m') \<and>
    strtol m' 0x1000 10 = Some (- 2147483648, 0x1000 + r)"
  by (rule snprintf_strtol_roundtrip) (simp_all add: ex_mem_def)

text \<open>
  C30. Whatever the format and the arguments, \<open>vsnprintf\<close> changes no byte outside the \<open>n\<close> bytes of its
  buffer.
\<close>

theorem vsnprintf_bounds:
  assumes "unat buf + unat n \<le> 4294967296" "vsnprintf buf n fmt ap m = Some (r, m')" "\<not> a - buf < n"
  shows "m' a = m a"
  using vsnprintf_bounded [OF assms(1,2)] assms(3) by blast

theorem vsnprintf_bounds_witness:
  "\<exists>r m'. vsnprintf 0x1000 2 0x2000 [123] ex_mem = Some (r, m') \<and> m' 0x1002 = 0"
proof -
  have "formatted (outside 0x1000 2 ex_mem) (Ptr 0x2000) [123] = Some (decimal (sint (123 :: u32)))"
    by (intro formatted_d) (simp_all add: outside_def ex_mem_def)
  from vsnprintf_format [OF _ _ _ this] obtain r m' where m': "vsnprintf 0x1000 2 0x2000 [123] ex_mem = Some (r, m')"
    by auto
  moreover have "m' 0x1002 = ex_mem 0x1002" by (rule vsnprintf_bounds [OF _ m']) simp_all
  ultimately show ?thesis by (auto simp: ex_mem_def)
qed

text \<open>
  \<open>vprintfmt\<close> sends the same characters to every output routine that leaves the memory it reads
  alone: a run with any such routine is the run that collects the characters, followed by putting
  them out one by one.
\<close>

theorem vprintfmt_sink_independent:
  "vprintfmt (\<lambda>_. m) put fmt ap s =
   map_option (\<lambda>cs. fold put cs s) (vprintfmt (\<lambda>_. m) (\<lambda>c cs. cs @ [c]) fmt ap [])"
  using vprintfmt_const [of m put fmt ap s] by (simp add: formatted_def)

text \<open>
  C34. \<open>printnum\<close> returns for every number and every base from two on, and prints the digits of the
  number in that base, most significant first, padded on the left to the given width.
\<close>

theorem printnum_terminates:
  assumes "2 \<le> unat base"
  shows "printnum put num base w pc s =
    Some (fold put (replicate (nat (w - int (length (num_digits (unat base) (unat num))))) pc @
      map (\<lambda>d. digit_char (of_nat d)) (num_digits (unat base) (unat num))) s)"
  using printnum_spec [OF assms] by (simp add: digit_chars_def)

theorem printnum_terminates_witness:
  "printnum (\<lambda>c cs. cs @ [c]) 255 16 4 48 [] = Some [48, 48, 102, 102]"
proof -
  have d: "num_digits 16 255 = [15, 15]" by (subst num_digits.simps, subst num_digits.simps) simp
  have "digit_char 15 = 102" by (simp add: digit_char_def)
  then show ?thesis using printnum_terminates [of 16 "\<lambda>c cs. cs @ [c]" 255 4 48 "[]"] by (simp add: d, simp add: numeral_2_eq_2)
qed

lemma format_hi: "vprintfmt (\<lambda>_ _. None) (\<lambda>c cs. cs @ [c]) (lit ''hi'') [] [] = Some [104, 105]"
proof -
  have "print_plain (\<lambda>_ _. None) (\<lambda>c cs. cs @ [c]) (lit []) [104, 105] = Some (None, [104, 105])"
    by (subst print_plain.simps) simp
  then have "print_plain (\<lambda>_ _. None) (\<lambda>c cs. cs @ [c]) (lit ''i'') [104] = Some (None, [104, 105])"
    by (subst print_plain.simps) simp
  then have "print_plain (\<lambda>_ _. None) (\<lambda>c cs. cs @ [c]) (lit ''hi'') [] = Some (None, [104, 105])"
    by (subst print_plain.simps) simp
  then show ?thesis by (subst vprintfmt.simps) simp
qed





text \<open>
  The kernel's \<open>vcprintf\<close> is meant to return the number of characters printed; it returns 0,
  whatever it prints.
\<close>

theorem kvcprintf_returns_0:
  assumes "vprintfmt (\<lambda>_. m) (\<lambda>c cs. cs @ [c]) fmt ap [] = Some cs"
  shows "kvcprintf m fmt ap d = Some (0, fold cons_putc cs d)"
proof -
  have "fold kputch cs (d, n) = (fold cons_putc cs d, n)" for n by (induction cs arbitrary: d) (auto simp: kputch_def)
  moreover have "formatted m fmt ap = Some cs" using assms by (simp only: formatted_def)
  ultimately show ?thesis by (simp add: kvcprintf_def vprintfmt_const)
qed

theorem kvcprintf_returns_0_witness:
  "\<forall>d. kvcprintf (\<lambda>_. None) (lit ''hi'') [] d = Some (0, cons_putc 105 (cons_putc 104 d))"
proof -
  from kvcprintf_returns_0 [OF format_hi] show ?thesis by simp
qed

end
