(* ===== verification/Jos_Bcache.thy ===== *)
theory Jos_Bcache
  imports Jos_String_Spec Jos_State
begin

text \<open>
  The block cache of the file server (\<open>fs/bc.c\<close>) and the transfers of the disk driver (\<open>fs/ide.c\<close>).
  Disk block \<open>n\<close> appears in the server's memory at \<open>DISKMAP + n * BLKSIZE\<close>; the page is read from the
  disk when it is first touched, by the page-fault handler, and written back by \<open>flush_block\<close> when the
  processor has set its dirty bit. The state is the server's memory with the present and dirty bits
  of its pages, the sectors of the disk and the number of pages the kernel can still hand out.
  \<^const>\<open>None\<close> is a panic of the server.
\<close>

definition BLKSIZE :: u32 where "BLKSIZE = 4096"
definition SECTSIZE :: u32 where "SECTSIZE = 512"
definition BLKSECTS :: u32 where "BLKSECTS = BLKSIZE div SECTSIZE"
definition DISKMAP :: u32 where "DISKMAP = 0x10000000"
definition DISKSIZE :: u32 where "DISKSIZE = 0xC0000000"

record fsmem =
  fmem :: cmem
  present :: "u32 \<Rightarrow> bool"
  dirty :: "u32 \<Rightarrow> bool"
  disk :: "u32 \<Rightarrow> nat \<Rightarrow> u8"
  frames :: nat
  super_set :: bool
  bitmap_set :: bool

text \<open>The super block and the bitmap, once \<open>super\<close> and \<open>bitmap\<close> are set, are blocks 1 and 2.\<close>

definition SUPER :: u32 where "SUPER = DISKMAP + BLKSIZE"
definition BITMAP :: u32 where "BITMAP = DISKMAP + 2 * BLKSIZE"
definition s_nblocks :: u32 where "s_nblocks = SUPER + 4"

definition get32 :: "cmem \<Rightarrow> u32 \<Rightarrow> u32" where
  "get32 m a = ucast (m a) OR push_bit 8 (ucast (m (a + 1))) OR push_bit 16 (ucast (m (a + 2))) OR
     push_bit 24 (ucast (m (a + 3)))"

section \<open>Disk transfers\<close>

text \<open>
  The driver sends 28 bits of the sector number to the device. The device is one that reports no
  errors and becomes ready; a transfer of up to 256 sectors then moves \<open>nsecs\<close> sectors.
\<close>

definition sector :: "u32 \<Rightarrow> u32 \<Rightarrow> u32" where
  "sector secno k = (secno AND 0xFFFFFFF) + k div SECTSIZE"

definition ide_read :: "u32 \<Rightarrow> u32 \<Rightarrow> u32 \<Rightarrow> fsmem \<Rightarrow> fsmem option" where
  "ide_read secno dst nsecs s = do {
     c_assert (nsecs \<le> 256);
     Some (s\<lparr>fmem := \<lambda>a. let k = a - dst in
       if k < nsecs * SECTSIZE then disk s (sector secno k) (unat (k mod SECTSIZE)) else fmem s a,
       dirty := (dirty s)(PGNUM dst := True)\<rparr>)
   }"

definition ide_write :: "u32 \<Rightarrow> u32 \<Rightarrow> u32 \<Rightarrow> fsmem \<Rightarrow> fsmem option" where
  "ide_write secno src nsecs s = do {
     c_assert (nsecs \<le> 256);
     Some (s\<lparr>disk := \<lambda>sec j. let k = (sec - (secno AND 0xFFFFFFF)) in
       if k < nsecs \<and> j < 512 then fmem s (src + k * SECTSIZE + of_nat j) else disk s sec j\<rparr>)
   }"

section \<open>Faults\<close>

text \<open>A new page at \<open>addr\<close>, zeroed by the kernel, and the remapping that clears the dirty bit.\<close>

definition page_alloc_at :: "u32 \<Rightarrow> fsmem \<Rightarrow> fsmem option" where
  "page_alloc_at addr s = do {
     c_assert (0 < frames s);
     Some (s\<lparr>frames := frames s - 1, present := (present s)(PGNUM addr := True),
       dirty := (dirty s)(PGNUM addr := False),
       fmem := \<lambda>a. if PGNUM a = PGNUM addr then 0 else fmem s a\<rparr>)
   }"

definition clear_dirty :: "u32 \<Rightarrow> fsmem \<Rightarrow> fsmem" where
  "clear_dirty addr s = s\<lparr>dirty := (dirty s)(PGNUM addr := False)\<rparr>"

text \<open>
  Before an access the page is brought in if it is not there, by the fault handler. The handler reads
  the super block and the bitmap itself, which may fault again; those accesses are the recursive
  calls. The test at the end is \<open>block_is_free\<close>.
\<close>

partial_function (option) touch :: "u32 \<Rightarrow> fsmem \<Rightarrow> fsmem option" where
  "touch addr s =
     (if present s (PGNUM addr) then Some s
      else do {
        let blockno = (addr - DISKMAP) div BLKSIZE;
        c_assert (DISKMAP \<le> addr \<and> addr < DISKMAP + DISKSIZE);
        s \<leftarrow> (if super_set s
              then do { s \<leftarrow> touch s_nblocks s; c_assert (blockno < get32 (fmem s) s_nblocks); Some s }
              else Some s);
        let addr = ROUNDDOWN addr PGSIZE;
        s \<leftarrow> page_alloc_at addr s;
        s \<leftarrow> ide_read (blockno * BLKSECTS) addr BLKSECTS s;
        let s = clear_dirty addr s;
        if bitmap_set s \<and> super_set s then do {
          s \<leftarrow> touch s_nblocks s;
          if get32 (fmem s) s_nblocks \<le> blockno then Some s
          else do {
            let w = BITMAP + 4 * (blockno div 32);
            s \<leftarrow> touch w s;
            c_assert (\<not> bit (get32 (fmem s) w) (unat (blockno mod 32)));
            Some s
          }
        }
        else Some s
      })"

section \<open>Memory accesses of the server\<close>

definition ld8 :: "u32 \<Rightarrow> fsmem \<Rightarrow> (u8 \<times> fsmem) option" where
  "ld8 a s = do { s \<leftarrow> touch a s; Some (fmem s a, s) }"

definition st8 :: "u32 \<Rightarrow> u8 \<Rightarrow> fsmem \<Rightarrow> fsmem option" where
  "st8 a v s = do {
     s \<leftarrow> touch a s;
     Some (s\<lparr>fmem := (fmem s)(a := v), dirty := (dirty s)(PGNUM a := True)\<rparr>)
   }"

text \<open>Words are aligned, so that a word lies in one page.\<close>

definition ld32 :: "u32 \<Rightarrow> fsmem \<Rightarrow> (u32 \<times> fsmem) option" where
  "ld32 a s = do { s \<leftarrow> touch a s; Some (get32 (fmem s) a, s) }"

definition st32 :: "u32 \<Rightarrow> u32 \<Rightarrow> fsmem \<Rightarrow> fsmem option" where
  "st32 a v s = do {
     s \<leftarrow> touch a s;
     Some (s\<lparr>fmem := store32 a v (fmem s), dirty := (dirty s)(PGNUM a := True)\<rparr>)
   }"

text \<open>\<open>memmove\<close> and \<open>memset\<close> in the server, between disjoint blocks and byte by byte.\<close>

primrec copy_bytes :: "nat \<Rightarrow> u32 \<Rightarrow> u32 \<Rightarrow> fsmem \<Rightarrow> fsmem option" where
  "copy_bytes 0 dst src s = Some s"
| "copy_bytes (Suc n) dst src s = do {
     (c, s) \<leftarrow> ld8 src s;
     s \<leftarrow> st8 dst c s;
     copy_bytes n (dst + 1) (src + 1) s
   }"

primrec fill_zero :: "nat \<Rightarrow> u32 \<Rightarrow> fsmem \<Rightarrow> fsmem option" where
  "fill_zero 0 dst s = Some s"
| "fill_zero (Suc n) dst s = do { s \<leftarrow> st8 dst 0 s; fill_zero n (dst + 1) s }"

section \<open>Blocks\<close>

definition diskaddr :: "u32 \<Rightarrow> fsmem \<Rightarrow> (u32 \<times> fsmem) option" where
  "diskaddr blockno s = do {
     c_assert (blockno \<noteq> 0);
     s \<leftarrow> (if super_set s then do { (n, s) \<leftarrow> ld32 s_nblocks s; c_assert (blockno < n); Some s } else Some s);
     Some (DISKMAP + blockno * BLKSIZE, s)
   }"

definition va_is_mapped :: "u32 \<Rightarrow> fsmem \<Rightarrow> bool" where
  "va_is_mapped va s = present s (PGNUM va)"

definition va_is_dirty :: "u32 \<Rightarrow> fsmem \<Rightarrow> bool" where
  "va_is_dirty va s = dirty s (PGNUM va)"

definition flush_block :: "u32 \<Rightarrow> fsmem \<Rightarrow> fsmem option" where
  "flush_block addr s = do {
     let blockno = (addr - DISKMAP) div BLKSIZE;
     c_assert (DISKMAP \<le> addr \<and> addr < DISKMAP + DISKSIZE);
     let addr = ROUNDDOWN addr PGSIZE;
     if va_is_mapped addr s \<and> va_is_dirty addr s then do {
       s \<leftarrow> ide_write (blockno * BLKSECTS) addr BLKSECTS s;
       Some (clear_dirty addr s)
     }
     else Some s
   }"

text \<open>\<open>bc_init\<close> brings the super block in, after its self test.\<close>

definition bc_init :: "fsmem \<Rightarrow> fsmem option" where
  "bc_init s = do { (a, s) \<leftarrow> diskaddr 1 s; touch a s }"

end
