(* ===== verification/Jos_Fs.thy ===== *)
theory Jos_Fs
  imports Jos_Bcache
begin

text \<open>
  The file system of JOS (\<open>fs/fs.c\<close>): free-block bitmap, the block tree of a file, directories, path
  names, reading and writing. A \<open>struct File\<close> is known by its address; all of its fields are read and
  written through the block cache. Paths and names that live outside the disk map are lists of bytes
  without the terminator.
\<close>

definition NDIRECT :: u32 where "NDIRECT = 10"
definition NINDIRECT :: u32 where "NINDIRECT = BLKSIZE div 4"
definition MAXNAMELEN :: nat where "MAXNAMELEN = 128"
definition BLKFILES :: nat where "BLKFILES = 16"
definition BLKBITSIZE :: u32 where "BLKBITSIZE = BLKSIZE * 8"
definition FTYPE_DIR :: u32 where "FTYPE_DIR = 1"
definition FS_MAGIC :: u32 where "FS_MAGIC = 0x4A0530AE"

text \<open>Field offsets of \<open>struct File\<close>; \<open>s_root\<close> is behind the first two words of the super block.\<close>

definition f_size :: "u32 \<Rightarrow> u32" where "f_size f = f + 128"
definition f_type :: "u32 \<Rightarrow> u32" where "f_type f = f + 132"
definition f_direct :: "u32 \<Rightarrow> u32" where "f_direct f = f + 136"
definition f_indirect :: "u32 \<Rightarrow> u32" where "f_indirect f = f + 176"
definition s_root :: u32 where "s_root = SUPER + 8"

section \<open>Super block and bitmap\<close>

definition check_super :: "fsmem \<Rightarrow> fsmem option" where
  "check_super s = do {
     (magic, s) \<leftarrow> ld32 SUPER s;
     c_assert (magic = FS_MAGIC);
     (n, s) \<leftarrow> ld32 s_nblocks s;
     c_assert (n \<le> DISKSIZE div BLKSIZE);
     Some s
   }"

definition bitmap_word :: "u32 \<Rightarrow> u32" where
  "bitmap_word blockno = BITMAP + 4 * (blockno div 32)"

definition bitmap_bit :: "u32 \<Rightarrow> u32" where
  "bitmap_bit blockno = push_bit (unat (blockno mod 32)) 1"

definition block_is_free :: "u32 \<Rightarrow> fsmem \<Rightarrow> (bool \<times> fsmem) option" where
  "block_is_free blockno s =
     (if \<not> super_set s then Some (False, s)
      else do {
        (n, s) \<leftarrow> ld32 s_nblocks s;
        if n \<le> blockno then Some (False, s)
        else do {
          (w, s) \<leftarrow> ld32 (bitmap_word blockno) s;
          Some (w AND bitmap_bit blockno \<noteq> 0, s)
        }
      })"

definition free_block :: "u32 \<Rightarrow> fsmem \<Rightarrow> fsmem option" where
  "free_block blockno s = do {
     c_assert (blockno \<noteq> 0);
     (w, s) \<leftarrow> ld32 (bitmap_word blockno) s;
     st32 (bitmap_word blockno) (w OR bitmap_bit blockno) s
   }"

partial_function (option) alloc_block_loop :: "u32 \<Rightarrow> fsmem \<Rightarrow> ((jos_error + u32) \<times> fsmem) option" where
  "alloc_block_loop i s = do {
     (n, s) \<leftarrow> ld32 s_nblocks s;
     if i < n then do {
       (free, s) \<leftarrow> block_is_free i s;
       if free then do {
         (w, s) \<leftarrow> ld32 (bitmap_word i) s;
         s \<leftarrow> st32 (bitmap_word i) (w AND NOT (bitmap_bit i)) s;
         s \<leftarrow> flush_block (bitmap_word i) s;
         Some (Inr i, s)
       }
       else alloc_block_loop (i + 1) s
     }
     else Some (Inl E_NO_DISK, s)
   }"

definition alloc_block :: "fsmem \<Rightarrow> ((jos_error + u32) \<times> fsmem) option" where
  "alloc_block s = alloc_block_loop 1 s"

partial_function (option) check_bitmap_loop :: "u32 \<Rightarrow> fsmem \<Rightarrow> fsmem option" where
  "check_bitmap_loop i s = do {
     (n, s) \<leftarrow> ld32 s_nblocks s;
     if i * BLKBITSIZE < n then do {
       (free, s) \<leftarrow> block_is_free (2 + i) s;
       c_assert (\<not> free);
       check_bitmap_loop (i + 1) s
     }
     else Some s
   }"

definition check_bitmap :: "fsmem \<Rightarrow> fsmem option" where
  "check_bitmap s = do {
     s \<leftarrow> check_bitmap_loop 0 s;
     (free, s) \<leftarrow> block_is_free 0 s;
     c_assert (\<not> free);
     (free, s) \<leftarrow> block_is_free 1 s;
     c_assert (\<not> free);
     Some s
   }"

text \<open>\<open>fs_init\<close> once the disk has been selected.\<close>

definition fs_init :: "fsmem \<Rightarrow> fsmem option" where
  "fs_init s = do {
     s \<leftarrow> bc_init s;
     (a, s) \<leftarrow> diskaddr 1 s;
     let s = s\<lparr>super_set := True\<rparr>;
     s \<leftarrow> check_super s;
     (a, s) \<leftarrow> diskaddr 2 s;
     let s = s\<lparr>bitmap_set := True\<rparr>;
     check_bitmap s
   }"

section \<open>Blocks of a file\<close>

text \<open>
  The block number returned by \<open>alloc_block\<close> is kept in an unsigned variable, so the test for an
  error never succeeds and an error code is used as a block number.
\<close>

definition int_result :: "jos_error + u32 \<Rightarrow> u32" where
  "int_result r = (case r of Inl e \<Rightarrow> - errno e | Inr v \<Rightarrow> v)"

definition file_block_walk :: "u32 \<Rightarrow> u32 \<Rightarrow> bool \<Rightarrow> fsmem \<Rightarrow> ((jos_error + u32) \<times> fsmem) option" where
  "file_block_walk f filebno alloc s =
     (if NDIRECT + NINDIRECT \<le> filebno then Some (Inl E_INVAL, s)
      else if filebno < NDIRECT then Some (Inr (f_direct f + 4 * filebno), s)
      else do {
        (ind, s) \<leftarrow> ld32 (f_indirect f) s;
        if ind = 0 \<and> \<not> alloc then Some (Inl E_NOT_FOUND, s)
        else do {
          s \<leftarrow> (if ind = 0 then do {
                  (r, s) \<leftarrow> alloc_block s;
                  s \<leftarrow> st32 (f_indirect f) (int_result r) s;
                  (i, s) \<leftarrow> ld32 (f_indirect f) s;
                  (a, s) \<leftarrow> diskaddr i s;
                  s \<leftarrow> fill_zero 4096 a s;
                  (i, s) \<leftarrow> ld32 (f_indirect f) s;
                  (a, s) \<leftarrow> diskaddr i s;
                  flush_block a s
                } else Some s);
          (i, s) \<leftarrow> ld32 (f_indirect f) s;
          (a, s) \<leftarrow> diskaddr i s;
          Some (Inr (a + 4 * (filebno - NDIRECT)), s)
        }
      })"

definition file_get_block :: "u32 \<Rightarrow> u32 \<Rightarrow> fsmem \<Rightarrow> ((jos_error + u32) \<times> fsmem) option" where
  "file_get_block f filebno s = do {
     (r, s) \<leftarrow> file_block_walk f filebno True s;
     case r of
       Inl e \<Rightarrow> Some (Inl e, s)
     | Inr slot \<Rightarrow> do {
         (b, s) \<leftarrow> ld32 slot s;
         (r, s) \<leftarrow> (if b = 0 then alloc_block s else Some (Inr b, s));
         case r of
           Inl _ \<Rightarrow> Some (Inl E_NO_DISK, s)
         | Inr nb \<Rightarrow> do {
             s \<leftarrow> (if b = 0 then st32 slot nb s else Some s);
             (b, s) \<leftarrow> ld32 slot s;
             (a, s) \<leftarrow> diskaddr b s;
             Some (Inr a, s)
           }
       }
   }"

section \<open>Directories\<close>

text \<open>Whether \<open>strcmp\<close> finds the string at \<open>a\<close> equal to a name.\<close>

primrec name_eq :: "u8 list \<Rightarrow> u32 \<Rightarrow> fsmem \<Rightarrow> (bool \<times> fsmem) option" where
  "name_eq [] a s = do { (c, s) \<leftarrow> ld8 a s; Some (c = 0, s) }"
| "name_eq (x # xs) a s = do {
     (c, s) \<leftarrow> ld8 a s;
     if c = x then name_eq xs (a + 1) s else Some (False, s)
   }"

text \<open>The first of \<open>n\<close> directory entries from \<open>f\<close> on that satisfies a test.\<close>

primrec find_entry :: "(u32 \<Rightarrow> fsmem \<Rightarrow> (bool \<times> fsmem) option) \<Rightarrow> nat \<Rightarrow> u32 \<Rightarrow> fsmem \<Rightarrow> (u32 option \<times> fsmem) option" where
  "find_entry P 0 f s = Some (None, s)"
| "find_entry P (Suc n) f s = do {
     (b, s) \<leftarrow> P f s;
     if b then Some (Some f, s) else find_entry P n (f + 256) s
   }"

text \<open>The loop over the blocks of a directory that both searches share.\<close>

primrec find_in_blocks ::
  "(u32 \<Rightarrow> fsmem \<Rightarrow> (bool \<times> fsmem) option) \<Rightarrow> u32 \<Rightarrow> nat \<Rightarrow> u32 \<Rightarrow> fsmem \<Rightarrow> ((jos_error + u32 option) \<times> fsmem) option" where
  "find_in_blocks P dir 0 i s = Some (Inr None, s)"
| "find_in_blocks P dir (Suc n) i s = do {
     (r, s) \<leftarrow> file_get_block dir i s;
     case r of
       Inl e \<Rightarrow> Some (Inl e, s)
     | Inr blk \<Rightarrow> do {
         (fo, s) \<leftarrow> find_entry P BLKFILES blk s;
         if fo \<noteq> None then Some (Inr fo, s) else find_in_blocks P dir n (i + 1) s
       }
   }"

text \<open>\<open>off_t\<close> is signed; C's division rounds towards zero.\<close>

definition c_quot :: "int \<Rightarrow> int \<Rightarrow> int" where
  "c_quot x y = (if x < 0 then - ((- x) div y) else x div y)"

definition c_rem :: "int \<Rightarrow> int \<Rightarrow> int" where
  "c_rem x y = x - y * c_quot x y"

definition dir_nblock :: "u32 \<Rightarrow> fsmem \<Rightarrow> (u32 \<times> fsmem) option" where
  "dir_nblock dir s = do {
     (sz, s) \<leftarrow> ld32 (f_size dir) s;
     c_assert (c_rem (sint sz) 4096 = 0);
     Some (word_of_int (c_quot (sint sz) 4096), s)
   }"

definition dir_lookup :: "u32 \<Rightarrow> u8 list \<Rightarrow> fsmem \<Rightarrow> ((jos_error + u32) \<times> fsmem) option" where
  "dir_lookup dir name s = do {
     (nblock, s) \<leftarrow> dir_nblock dir s;
     (r, s) \<leftarrow> find_in_blocks (name_eq name) dir (unat nblock) 0 s;
     case r of
       Inl e \<Rightarrow> Some (Inl e, s)
     | Inr None \<Rightarrow> Some (Inl E_NOT_FOUND, s)
     | Inr (Some f) \<Rightarrow> Some (Inr f, s)
   }"

definition dir_alloc_file :: "u32 \<Rightarrow> fsmem \<Rightarrow> ((jos_error + u32) \<times> fsmem) option" where
  "dir_alloc_file dir s = do {
     (nblock, s) \<leftarrow> dir_nblock dir s;
     (r, s) \<leftarrow> find_in_blocks (\<lambda>f s. do { (c, s) \<leftarrow> ld8 f s; Some (c = 0, s) }) dir (unat nblock) 0 s;
     case r of
       Inl e \<Rightarrow> Some (Inl e, s)
     | Inr (Some f) \<Rightarrow> Some (Inr f, s)
     | Inr None \<Rightarrow> do {
         (sz, s) \<leftarrow> ld32 (f_size dir) s;
         s \<leftarrow> st32 (f_size dir) (sz + BLKSIZE) s;
         file_get_block dir nblock s
       }
   }"

section \<open>Path names\<close>

definition skip_slash :: "u8 list \<Rightarrow> u8 list" where
  "skip_slash p = dropWhile (\<lambda>c. c = 47) p"

lemma walk_shorter:
  assumes "path \<noteq> []"
  shows "length (skip_slash (dropWhile (\<lambda>c. c \<noteq> 47) path)) < length path"
proof -
  obtain x xs where path: "path = x # xs" using assms by (cases path) auto
  have d: "length (dropWhile P ys) \<le> length ys" for P and ys :: "u8 list" by (rule length_dropWhile_le)
  have "length (skip_slash (dropWhile (\<lambda>c. c \<noteq> 47) path)) \<le> length xs"
  proof (cases "x = 47")
    case True
    then show ?thesis using d [of "\<lambda>c. c = 47" xs] by (simp add: path skip_slash_def)
  next
    case False
    then show ?thesis using d [of "\<lambda>c. c \<noteq> 47" xs] d [of "\<lambda>c. c = 47" "dropWhile (\<lambda>c. c \<noteq> 47) xs"]
      by (simp add: path skip_slash_def)
  qed
  then show ?thesis by (simp add: path)
qed

text \<open>
  The result of \<open>walk_path\<close>: what it returns, with the file on success, the value stored to \<open>*pdir\<close>
  (0 for none) and the name stored to \<open>lastelem\<close>.
\<close>

type_synonym walk_result = "(jos_error + u32) \<times> u32 \<times> u8 list"

function walk_loop :: "u8 list \<Rightarrow> u32 \<Rightarrow> u32 \<Rightarrow> fsmem \<Rightarrow> (walk_result \<times> fsmem) option" where
  "walk_loop path f dir s =
     (if path = [] then Some ((Inr f, dir, []), s)
      else do {
        let dir = f;
        let name = takeWhile (\<lambda>c. c \<noteq> 47) path;
        let rest = skip_slash (dropWhile (\<lambda>c. c \<noteq> 47) path);
        if MAXNAMELEN \<le> length name then Some ((Inl E_BAD_PATH, 0, []), s)
        else do {
          (ty, s) \<leftarrow> ld32 (f_type dir) s;
          if ty \<noteq> FTYPE_DIR then Some ((Inl E_NOT_FOUND, 0, []), s)
          else do {
            (r, s) \<leftarrow> dir_lookup dir name s;
            case r of
              Inl e \<Rightarrow> Some (if e = E_NOT_FOUND \<and> rest = [] then (Inl e, dir, name) else (Inl e, 0, []), s)
            | Inr f \<Rightarrow> walk_loop rest f dir s
          }
        }
      })"
  by pat_completeness auto

termination
  by (relation "measure (\<lambda>(path, f, dir, s). length path)") (simp_all add: walk_shorter)

declare walk_loop.simps [simp del]

definition walk_path :: "u8 list \<Rightarrow> fsmem \<Rightarrow> (walk_result \<times> fsmem) option" where
  "walk_path path s = walk_loop (skip_slash path) s_root 0 s"

section \<open>Flushing\<close>

definition size_blocks :: "u32 \<Rightarrow> u32" where
  "size_blocks sz = word_of_int (c_quot (sint (sz + BLKSIZE - 1)) 4096)"

definition flush_file_block :: "u32 \<Rightarrow> nat \<Rightarrow> fsmem \<Rightarrow> fsmem option" where
  "flush_file_block f i s = do {
     (r, s) \<leftarrow> file_block_walk f (of_nat i) False s;
     case r of
       Inl _ \<Rightarrow> Some s
     | Inr slot \<Rightarrow> do {
         (b, s) \<leftarrow> ld32 slot s;
         if b = 0 then Some s else do { (a, s) \<leftarrow> diskaddr b s; flush_block a s }
       }
   }"

definition file_flush :: "u32 \<Rightarrow> fsmem \<Rightarrow> fsmem option" where
  "file_flush f s = do {
     (sz, s) \<leftarrow> ld32 (f_size f) s;
     s \<leftarrow> ofold (flush_file_block f) [0..<nat (sint (size_blocks sz))] s;
     s \<leftarrow> flush_block f s;
     (ind, s) \<leftarrow> ld32 (f_indirect f) s;
     if ind = 0 then Some s else do { (a, s) \<leftarrow> diskaddr ind s; flush_block a s }
   }"

partial_function (option) fs_sync_loop :: "u32 \<Rightarrow> fsmem \<Rightarrow> fsmem option" where
  "fs_sync_loop i s = do {
     (n, s) \<leftarrow> ld32 s_nblocks s;
     if i < n then do {
       (a, s) \<leftarrow> diskaddr i s;
       s \<leftarrow> flush_block a s;
       fs_sync_loop (i + 1) s
     }
     else Some s
   }"

definition fs_sync :: "fsmem \<Rightarrow> fsmem option" where
  "fs_sync s = fs_sync_loop 1 s"

section \<open>File operations\<close>

primrec store_bytes :: "u8 list \<Rightarrow> u32 \<Rightarrow> fsmem \<Rightarrow> fsmem option" where
  "store_bytes [] a s = Some s"
| "store_bytes (c # cs) a s = do { s \<leftarrow> st8 a c s; store_bytes cs (a + 1) s }"

definition file_create :: "u8 list \<Rightarrow> fsmem \<Rightarrow> ((jos_error + u32) \<times> fsmem) option" where
  "file_create path s = do {
     ((r, dir, name), s) \<leftarrow> walk_path path s;
     case r of
       Inr _ \<Rightarrow> Some (Inl E_FILE_EXISTS, s)
     | Inl e \<Rightarrow>
         if e \<noteq> E_NOT_FOUND \<or> dir = 0 then Some (Inl e, s)
         else do {
           (r, s) \<leftarrow> dir_alloc_file dir s;
           case r of
             Inl e \<Rightarrow> Some (Inl e, s)
           | Inr f \<Rightarrow> do {
               s \<leftarrow> store_bytes (name @ [0]) f s;
               s \<leftarrow> file_flush dir s;
               Some (Inr f, s)
             }
         }
   }"

definition file_open :: "u8 list \<Rightarrow> fsmem \<Rightarrow> ((jos_error + u32) \<times> fsmem) option" where
  "file_open path s = do { ((r, _, _), s) \<leftarrow> walk_path path s; Some (r, s) }"

text \<open>
  The loop of \<open>file_read\<close> and \<open>file_write\<close>: \<open>lim\<close> is \<open>offset + count\<close>, compared without sign; \<open>xfer\<close>
  moves \<open>bn\<close> bytes between the buffer and the block.
\<close>

partial_function (option) file_loop ::
  "(u32 \<Rightarrow> u32 \<Rightarrow> u32 \<Rightarrow> fsmem \<Rightarrow> fsmem option) \<Rightarrow> u32 \<Rightarrow> u32 \<Rightarrow> u32 \<Rightarrow> u32 \<Rightarrow> fsmem \<Rightarrow> ((jos_error + unit) \<times> fsmem) option" where
  "file_loop xfer f buf lim pos s =
     (if pos < lim then do {
        (r, s) \<leftarrow> file_get_block f (word_of_int (c_quot (sint pos) 4096)) s;
        case r of
          Inl e \<Rightarrow> Some (Inl e, s)
        | Inr blk \<Rightarrow> do {
            let off = word_of_int (c_rem (sint pos) 4096);
            let bn = min (BLKSIZE - off) (lim - pos);
            s \<leftarrow> xfer buf (blk + off) bn s;
            file_loop xfer f (buf + bn) lim (pos + bn) s
          }
      }
      else Some (Inr (), s))"

definition file_read :: "u32 \<Rightarrow> u32 \<Rightarrow> u32 \<Rightarrow> u32 \<Rightarrow> fsmem \<Rightarrow> ((jos_error + u32) \<times> fsmem) option" where
  "file_read f buf count offset s = do {
     (sz, s) \<leftarrow> ld32 (f_size f) s;
     if sint sz \<le> sint offset then Some (Inr 0, s)
     else do {
       let count = min count (sz - offset);
       (r, s) \<leftarrow> file_loop (\<lambda>buf a n. copy_bytes (unat n) buf a) f buf (offset + count) offset s;
       Some (map_sum id (\<lambda>_. count) r, s)
     }
   }"

definition file_free_block :: "u32 \<Rightarrow> u32 \<Rightarrow> fsmem \<Rightarrow> ((jos_error + unit) \<times> fsmem) option" where
  "file_free_block f filebno s = do {
     (r, s) \<leftarrow> file_block_walk f filebno False s;
     case r of
       Inl e \<Rightarrow> Some (Inl e, s)
     | Inr slot \<Rightarrow> do {
         (b, s) \<leftarrow> ld32 slot s;
         s \<leftarrow> (if b = 0 then Some s else do { s \<leftarrow> free_block b s; st32 slot 0 s });
         Some (Inr (), s)
       }
   }"

definition file_truncate_blocks :: "u32 \<Rightarrow> u32 \<Rightarrow> fsmem \<Rightarrow> fsmem option" where
  "file_truncate_blocks f newsize s = do {
     (sz, s) \<leftarrow> ld32 (f_size f) s;
     let old = size_blocks sz;
     let new = size_blocks newsize;
     s \<leftarrow> ofold (\<lambda>bno s. do { (_, s) \<leftarrow> file_free_block f (of_nat bno) s; Some s }) [unat new..<unat old] s;
     (ind, s) \<leftarrow> ld32 (f_indirect f) s;
     if new \<le> NDIRECT \<and> ind \<noteq> 0 then do {
       s \<leftarrow> free_block ind s;
       st32 (f_indirect f) 0 s
     }
     else Some s
   }"

definition file_set_size :: "u32 \<Rightarrow> u32 \<Rightarrow> fsmem \<Rightarrow> fsmem option" where
  "file_set_size f newsize s = do {
     (sz, s) \<leftarrow> ld32 (f_size f) s;
     s \<leftarrow> (if sint newsize < sint sz then file_truncate_blocks f newsize s else Some s);
     s \<leftarrow> st32 (f_size f) newsize s;
     flush_block f s
   }"

definition file_write :: "u32 \<Rightarrow> u32 \<Rightarrow> u32 \<Rightarrow> u32 \<Rightarrow> fsmem \<Rightarrow> ((jos_error + u32) \<times> fsmem) option" where
  "file_write f buf count offset s = do {
     (sz, s) \<leftarrow> ld32 (f_size f) s;
     s \<leftarrow> (if sz < offset + count then file_set_size f (offset + count) s else Some s);
     (r, s) \<leftarrow> file_loop (\<lambda>buf a n. copy_bytes (unat n) a buf) f buf (offset + count) offset s;
     Some (map_sum id (\<lambda>_. count) r, s)
   }"

end
