(* ===== verification/Jos_Cache_Spec.thy ===== *)
theory Jos_Cache_Spec
  imports Jos_Fs
begin

text \<open>
  The block cache is transparent: \<open>view\<close> is the memory a server with all of the disk in memory would
  have, and every access through the cache reads and writes exactly that, whichever blocks happen to
  be present. Flushing changes the disk, not the view.
\<close>

section \<open>The memory the cache presents\<close>

definition in_map :: "u32 \<Rightarrow> bool" where
  "in_map a \<longleftrightarrow> DISKMAP \<le> a \<and> a < DISKMAP + DISKSIZE"

definition blk :: "u32 \<Rightarrow> u32" where
  "blk a = (a - DISKMAP) div BLKSIZE"

text \<open>The byte of the disk behind an address of the disk map.\<close>

definition disk_byte :: "fsmem \<Rightarrow> u32 \<Rightarrow> u8" where
  "disk_byte s a = (let k = a - DISKMAP - blk a * BLKSIZE in
     disk s (sector (blk a * BLKSECTS) k) (unat (k mod SECTSIZE)))"

definition view :: "fsmem \<Rightarrow> cmem" where
  "view s a = (if \<not> present s (PGNUM a) \<and> in_map a then disk_byte s a else fmem s a)"

definition in_use :: "cmem \<Rightarrow> u32 \<Rightarrow> bool" where
  "in_use m b \<longleftrightarrow> \<not> bit (get32 m (bitmap_word b)) (unat (b mod 32))"

text \<open>
  The server once \<open>fs_init\<close> is done, on a disk whose bitmap is one block: the super block and the
  bitmap are in memory, the kernel has a page for every block that is not, and pages that are not
  dirty hold what the disk holds.
\<close>

definition absent :: "fsmem \<Rightarrow> u32 set" where
  "absent s = {p. \<not> present s p}"

definition clean :: "fsmem \<Rightarrow> bool" where
  "clean s \<longleftrightarrow> (\<forall>a. in_map a \<and> present s (PGNUM a) \<and> \<not> dirty s (PGNUM a) \<longrightarrow> disk_byte s a = fmem s a)"

definition fs_ready :: "fsmem \<Rightarrow> bool" where
  "fs_ready s \<longleftrightarrow> super_set s \<and> bitmap_set s \<and> present s (PGNUM SUPER) \<and> present s (PGNUM BITMAP) \<and>
     get32 (view s) s_nblocks \<le> 32768 \<and> card (absent s) \<le> frames s \<and> clean s"

text \<open>An address the server may touch: a block of the file system in use, or a page it has.\<close>

definition reachable_addr :: "fsmem \<Rightarrow> u32 \<Rightarrow> bool" where
  "reachable_addr s a \<longleftrightarrow> present s (PGNUM a) \<or>
     in_map a \<and> blk a < get32 (view s) s_nblocks \<and> in_use (view s) (blk a)"

lemma unat_blk: "in_map a \<Longrightarrow> unat (blk a) = (unat a - 268435456) div 4096"
  by (simp add: in_map_def blk_def DISKMAP_def BLKSIZE_def unat_div unat_sub_no_wrap)

lemma unat_in_map: "in_map a \<longleftrightarrow> 268435456 \<le> unat a \<and> unat a < 3489660928"
  by (simp add: in_map_def DISKMAP_def DISKSIZE_def word_le_nat_alt word_less_nat_alt)

lemma in_map_split:
  assumes "in_map a"
  obtains k where "unat a = 268435456 + k" "k < 3221225472" "unat (blk a) = k div 4096"
proof -
  have "268435456 \<le> unat a" "unat a < 3489660928" using assms by (simp_all add: unat_in_map)
  then have "unat a = 268435456 + (unat a - 268435456)" "unat a - 268435456 < 3221225472" by linarith+
  then show thesis using that unat_blk [OF assms] by blast
qed

lemma page_block: "in_map a \<Longrightarrow> unat (PGNUM a) = 65536 + unat (blk a)"
  by (erule in_map_split) (simp add: unat_PGNUM)

lemma same_page_block: "\<lbrakk>in_map a; PGNUM b = PGNUM a\<rbrakk> \<Longrightarrow> in_map b \<and> blk b = blk a"
proof -
  assume a: "in_map a" and p: "PGNUM b = PGNUM a"
  have "unat b div 4096 = unat a div 4096" using p by (simp add: word_eq_unat unat_PGNUM)
  moreover have "65536 \<le> unat a div 4096" "unat a div 4096 < 851968" using a unfolding unat_in_map by linarith+
  ultimately have "65536 * 4096 \<le> unat b div 4096 * 4096" "Suc (unat b div 4096) * 4096 \<le> 851968 * 4096" by simp_all
  moreover have "unat b div 4096 * 4096 \<le> unat b" "unat b < Suc (unat b div 4096) * 4096" by simp_all
  ultimately have b: "in_map b" unfolding unat_in_map by linarith
  then have "unat (blk b) = unat (blk a)" using page_block [OF a] page_block [OF b] p by simp
  with b show "in_map b \<and> blk b = blk a" by (simp add: word_eq_unat)
qed

lemma map_offset:
  assumes "in_map a"
  shows "DISKMAP + blk a * BLKSIZE = ROUNDDOWN a PGSIZE"
proof -
  obtain k where k: "unat a = 268435456 + k" "k < 3221225472" "unat (blk a) = k div 4096"
    using assms by (rule in_map_split)
  have le: "k div 4096 * 4096 \<le> k" by simp
  then have m: "unat (blk a * BLKSIZE) = k div 4096 * 4096"
    using k(2) by (simp add: k(3) BLKSIZE_def unat_word_ariths)
  then have "unat (DISKMAP + blk a * BLKSIZE) = 268435456 + k div 4096 * 4096"
    using k(2) le by (subst unat_add_no_wrap) (simp_all add: DISKMAP_def)
  also have "\<dots> = unat a div 4096 * 4096" using page_block [OF assms] k(3) by (simp add: unat_PGNUM)
  finally show ?thesis by (simp add: word_eq_unat unat_ROUNDDOWN)
qed

lemma in_page: "x - ROUNDDOWN a PGSIZE < 4096 \<longleftrightarrow> PGNUM x = PGNUM a"
proof -
  let ?r = "ROUNDDOWN a PGSIZE"
  have r: "unat ?r = unat a div 4096 * 4096" by (rule unat_ROUNDDOWN)
  have p: "PGNUM x = PGNUM a \<longleftrightarrow> unat x div 4096 = unat a div 4096" by (simp add: word_eq_unat unat_PGNUM)
  show ?thesis
  proof
    assume "x - ?r < 4096"
    then obtain i where i: "i < 4096" "x = off ?r i" using in_block [of x ?r 4096] by auto
    have "unat a div 4096 < 1048576" using unat_less_32 [of a] by simp
    then have "unat ?r + i < 4294967296" using i(1) r by linarith
    then have "unat x = unat ?r + i" using i by (simp add: unat_add_no_wrap)
    then show "PGNUM x = PGNUM a" using i(1) r by (simp add: p)
  next
    assume "PGNUM x = PGNUM a"
    then have d: "unat x div 4096 = unat a div 4096" by (simp add: p)
    then have le: "?r \<le> x" using r by (simp add: word_le_nat_alt)
    have "unat (x - ?r) = unat x - unat ?r" by (rule unat_sub_no_wrap [OF le])
    also have "\<dots> < 4096" using d r by (simp add: minus_div_mult_eq_mod)
    finally show "x - ?r < 4096" by (simp add: word_less_nat_alt)
  qed
qed

lemma disk_byte_page:
  assumes "in_map a" "PGNUM x = PGNUM a"
  shows "disk_byte s x = disk s (sector (blk a * BLKSECTS) (x - ROUNDDOWN a PGSIZE)) (unat ((x - ROUNDDOWN a PGSIZE) mod SECTSIZE))"
proof -
  have "blk x = blk a" using same_page_block [OF assms] by simp
  then show ?thesis by (simp add: disk_byte_def Let_def diff_diff_eq map_offset [OF assms(1)])
qed

text \<open>What a fault on a good block does: one page more, with the contents of the disk.\<close>

definition bring_in :: "u32 \<Rightarrow> fsmem \<Rightarrow> fsmem" where
  "bring_in a s = s\<lparr>fmem := \<lambda>x. if PGNUM x = PGNUM a then disk_byte s x else fmem s x,
     present := (present s)(PGNUM a := True), dirty := (dirty s)(PGNUM a := False), frames := frames s - 1\<rparr>"

lemma bring_in_simps [simp]:
  "disk (bring_in a s) = disk s" "super_set (bring_in a s) = super_set s" "bitmap_set (bring_in a s) = bitmap_set s"
  "present (bring_in a s) = (present s)(PGNUM a := True)" "frames (bring_in a s) = frames s - 1"
  by (simp_all add: bring_in_def)

lemma PGNUM_super: "PGNUM s_nblocks = PGNUM SUPER" "PGNUM (s_nblocks + 1) = PGNUM SUPER"
  "PGNUM (s_nblocks + 2) = PGNUM SUPER" "PGNUM (s_nblocks + 3) = PGNUM SUPER" "PGNUM SUPER = 65537" "PGNUM BITMAP = 65538"
  by (simp_all add: PGNUM_def s_nblocks_def SUPER_def BITMAP_def DISKMAP_def BLKSIZE_def)

lemma view_bring_in:
  assumes "in_map a" "\<not> present s (PGNUM a)"
  shows "view (bring_in a s) = view s"
proof
  fix x
  show "view (bring_in a s) x = view s x"
  proof (cases "PGNUM x = PGNUM a")
    case True
    then show ?thesis using assms same_page_block [OF assms(1) True] by (simp add: view_def bring_in_def)
  next
    case False
    then show ?thesis by (simp add: view_def bring_in_def disk_byte_def)
  qed
qed

lemma word_page:
  assumes "unat a mod 4 = 0"
  shows "PGNUM (a + 1) = PGNUM a" "PGNUM (a + 2) = PGNUM a" "PGNUM (a + 3) = PGNUM a"
proof -
  have *: "PGNUM (a + of_nat k) = PGNUM a" if "k < 4" for k
  proof -
    obtain q where q: "unat a = 4 * q" using assms by (auto simp: mod_eq_0_iff_dvd)
    have d: "(4 * q + k) div 4096 = q div 1024"
    proof -
      have "(4 * q + k) div 4096 = (4 * q + k) div 4 div 1024" by (simp add: div_mult2_eq [symmetric])
      then show ?thesis using that by simp
    qed
    have "q < 1073741824" using q unat_less_32 [of a] by simp
    then have "4 * q + k < 4294967296" using that by simp
    then show ?thesis using d [of] div_mult2_eq [of "4 * q" 4 1024] by (simp add: word_eq_unat unat_PGNUM unat_add_32 that q)
  qed
  show "PGNUM (a + 1) = PGNUM a" "PGNUM (a + 2) = PGNUM a" "PGNUM (a + 3) = PGNUM a"
    using * [of 1] * [of 2] * [of 3] by simp_all
qed

lemma get32_present:
  assumes "unat a mod 4 = 0" "present s (PGNUM a)"
  shows "get32 (fmem s) a = get32 (view s) a"
  using assms by (simp add: get32_def view_def word_page)

lemma bitmap_word_page:
  assumes "b < 32768"
  shows "PGNUM (bitmap_word b) = PGNUM BITMAP" "unat (bitmap_word b) mod 4 = 0"
proof -
  have b: "unat b < 32768" using assms by (simp add: word_less_nat_alt)
  have "unat (4 * (b div 32)) = 4 * (unat b div 32)" using b by (simp add: unat_word_ariths unat_div)
  then have u: "unat (bitmap_word b) = 268443648 + 4 * (unat b div 32)"
    using b by (simp add: bitmap_word_def BITMAP_def DISKMAP_def BLKSIZE_def unat_add_no_wrap)
  show "unat (bitmap_word b) mod 4 = 0" by (simp add: u)
  have "unat b div 32 < 1024" using b by simp
  then show "PGNUM (bitmap_word b) = PGNUM BITMAP"
    by (simp add: word_eq_unat unat_PGNUM u) (simp add: BITMAP_def DISKMAP_def BLKSIZE_def)
qed

lemma touch_present: "present s (PGNUM a) \<Longrightarrow> touch a s = Some s"
  by (subst touch.simps) simp

lemma touch_absent:
  assumes r: "fs_ready s" and a: "\<not> present s (PGNUM a)" "in_map a" "blk a < get32 (view s) s_nblocks" "in_use (view s) (blk a)"
  shows "touch a s = Some (bring_in a s)"
proof -
  have s0: "present s (PGNUM s_nblocks)" "super_set s" "bitmap_set s" using r by (simp_all add: fs_ready_def PGNUM_super)
  have al: "unat s_nblocks mod 4 = 0" by (simp add: s_nblocks_def SUPER_def DISKMAP_def BLKSIZE_def)
  have n: "get32 (fmem s) s_nblocks = get32 (view s) s_nblocks" by (rule get32_present [OF al s0(1)])
  have b: "blk a < 32768" using a(3) r unfolding fs_ready_def by (blast intro: less_le_trans)
  have "finite (absent s)" by (rule finite_subset [OF subset_UNIV]) simp
  moreover have "PGNUM a \<in> absent s" using a(1) by (simp add: absent_def)
  ultimately have "0 < card (absent s)" by (auto simp: card_gt_0_iff)
  then have f: "0 < frames s" using r unfolding fs_ready_def by linarith
  define s1 where "s1 = bring_in a s"
  have p1: "present s1 (PGNUM s_nblocks)" "present s1 (PGNUM (bitmap_word (blk a)))"
    using s0 r bitmap_word_page [OF b] by (simp_all add: s1_def fs_ready_def)
  have v1: "view s1 = view s" unfolding s1_def by (rule view_bring_in [OF a(2,1)])
  have n1: "get32 (fmem s1) s_nblocks = get32 (view s) s_nblocks"
    "get32 (fmem s1) (bitmap_word (blk a)) = get32 (view s) (bitmap_word (blk a))"
    using get32_present [OF al p1(1)] get32_present [OF bitmap_word_page(2) [OF b] p1(2)] v1 by simp_all
  have pr: "PGNUM (ROUNDDOWN a PGSIZE) = PGNUM a"
    using in_page [of "ROUNDDOWN a PGSIZE" a] by simp
  have "do { s \<leftarrow> page_alloc_at (ROUNDDOWN a PGSIZE) s; s \<leftarrow> ide_read (blk a * BLKSECTS) (ROUNDDOWN a PGSIZE) BLKSECTS s;
      Some (clear_dirty (ROUNDDOWN a PGSIZE) s) } = Some s1"
  proof -
    have nb: "BLKSECTS * SECTSIZE = 4096" "BLKSECTS \<le> 256" by (simp_all add: BLKSECTS_def SECTSIZE_def BLKSIZE_def)
    have "(\<lambda>x. if PGNUM x = PGNUM a then disk s (sector (blk a * BLKSECTS) (x - ROUNDDOWN a PGSIZE)) (unat ((x - ROUNDDOWN a PGSIZE) mod SECTSIZE))
        else if PGNUM x = PGNUM a then 0 else fmem s x) = (\<lambda>x. if PGNUM x = PGNUM a then disk_byte s x else fmem s x)"
      using disk_byte_page [OF a(2)] by auto
    with f show ?thesis unfolding s1_def bring_in_def
      by (simp add: page_alloc_at_def ide_read_def clear_dirty_def pr nb Let_def in_page cong: if_cong)
  qed
  moreover have "c_assert (\<not> bit (get32 (fmem s1) (BITMAP + 4 * (blk a div 32))) (unat (blk a mod 32))) = Some ()"
    using a(4) n1 by (simp add: in_use_def bitmap_word_def)
  moreover have "touch s_nblocks s1 = Some s1" "touch (BITMAP + 4 * (blk a div 32)) s1 = Some s1" "touch s_nblocks s = Some s"
    using p1 s0 by (simp_all add: touch_present bitmap_word_def)
  moreover have "super_set s1" "bitmap_set s1" using s0 by (simp_all add: s1_def)
  ultimately show ?thesis using a s0 n n1
    by (subst touch.simps) (auto simp: Let_def in_map_def blk_def [symmetric] s1_def [symmetric] not_le Option.bind_eq_Some_conv)
qed

lemma fs_ready_bring_in:
  assumes "fs_ready s" "\<not> present s (PGNUM a)" "in_map a"
  shows "fs_ready (bring_in a s)"
proof -
  have "absent s = insert (PGNUM a) (absent (bring_in a s))" using assms(2) by (auto simp: absent_def)
  moreover have "PGNUM a \<notin> absent (bring_in a s)" "finite (absent (bring_in a s))"
    by (simp_all add: absent_def finite_subset [OF subset_UNIV])
  ultimately have "card (absent s) = Suc (card (absent (bring_in a s)))" by simp
  then have "card (absent (bring_in a s)) \<le> frames s - 1" using assms(1) by (simp add: fs_ready_def) linarith
  moreover have "clean (bring_in a s)" using assms(1) by (auto simp: fs_ready_def clean_def bring_in_def disk_byte_def)
  ultimately show ?thesis using assms view_bring_in [OF assms(3,2)] by (simp add: fs_ready_def)
qed

text \<open>
  Touching a good address succeeds and does not change the memory seen. \<open>grown\<close> relates the states
  before and after: more pages are present.
\<close>

definition grown :: "fsmem \<Rightarrow> fsmem \<Rightarrow> bool" where
  "grown s s' \<longleftrightarrow> fs_ready s' \<and> (\<forall>p. present s p \<longrightarrow> present s' p)"

lemma touch_ok:
  assumes "fs_ready s" "reachable_addr s a"
  shows "\<exists>s'. touch a s = Some s' \<and> view s' = view s \<and> present s' (PGNUM a) \<and> grown s s'"
proof (cases "present s (PGNUM a)")
  case True
  then show ?thesis using assms by (auto simp: touch_present grown_def)
next
  case False
  then have "in_map a" "blk a < get32 (view s) s_nblocks" "in_use (view s) (blk a)"
    using assms(2) by (simp_all add: reachable_addr_def)
  then show ?thesis
    using touch_absent [OF assms(1) False] view_bring_in [OF _ False] fs_ready_bring_in [OF assms(1) False]
    by (auto simp: grown_def)
qed

section \<open>Accesses\<close>

lemma grown_refl: "fs_ready s \<Longrightarrow> grown s s"
  by (simp add: grown_def)

lemma grown_trans: "\<lbrakk>grown s t; grown t u\<rbrakk> \<Longrightarrow> grown s u"
  by (simp add: grown_def)

lemma grown_ready: "grown s t \<Longrightarrow> fs_ready t"
  by (simp add: grown_def)

lemma view_present: "present s (PGNUM a) \<Longrightarrow> fmem s a = view s a"
  by (simp add: view_def)

lemma ld8_ok:
  assumes "fs_ready s" "reachable_addr s a"
  shows "\<exists>s'. ld8 a s = Some (view s a, s') \<and> view s' = view s \<and> grown s s'"
  using touch_ok [OF assms] by (auto simp: ld8_def view_present)

lemma ld32_ok:
  assumes "fs_ready s" "reachable_addr s a" "unat a mod 4 = 0"
  shows "\<exists>s'. ld32 a s = Some (get32 (view s) a, s') \<and> view s' = view s \<and> grown s s'"
  using touch_ok [OF assms(1,2)] get32_present [OF assms(3)] by (fastforce simp: ld32_def)

text \<open>Words in memory.\<close>

lemma get32_store32: "get32 (store32 a v m) a = v"
proof -
  have d: "a + 1 \<noteq> a" "a + 2 \<noteq> a" "a + 3 \<noteq> a" "a + 2 \<noteq> a + 1" "a + 3 \<noteq> a + 1" "a + 3 \<noteq> a + 2" by simp_all
  have "get32 (store32 a v m) a = ucast (ucast v :: u8) OR push_bit 8 (ucast (ucast (drop_bit 8 v) :: u8)) OR
      push_bit 16 (ucast (ucast (drop_bit 16 v) :: u8)) OR push_bit 24 (ucast (ucast (drop_bit 24 v) :: u8))"
    using d by (simp add: get32_def store32_def)
  also have "\<dots> = v"
  proof (rule bit_word_eqI)
    fix n assume "n < LENGTH(32)"
    moreover have "24 \<le> n \<Longrightarrow> 24 + (n - 24) = n" "16 \<le> n \<Longrightarrow> 16 + (n - 16) = n" "8 \<le> n \<Longrightarrow> 8 + (n - 8) = n" by simp_all
    ultimately show "bit (ucast (ucast v :: u8) OR push_bit 8 (ucast (ucast (drop_bit 8 v) :: u8)) OR
      push_bit 16 (ucast (ucast (drop_bit 16 v) :: u8)) OR push_bit 24 (ucast (ucast (drop_bit 24 v) :: u8)) :: u32) n = bit v n"
      by (cases "n < 8"; cases "n < 16"; cases "n < 24") (auto simp: bit_simps)
  qed
  finally show ?thesis .
qed

lemma aligned_apart:
  assumes "unat a mod 4 = 0" "unat b mod 4 = 0" "a \<noteq> b" "i < 4" "j < 4"
  shows "off a i \<noteq> off b j"
proof
  assume e: "off a i = off b j"
  obtain p where p: "unat a = 4 * p" using assms(1) by (auto simp: mod_eq_0_iff_dvd)
  obtain q where q: "unat b = 4 * q" using assms(2) by (auto simp: mod_eq_0_iff_dvd)
  note pq = p q
  have "p < 1073741824" "q < 1073741824" using pq unat_less_32 [of a] unat_less_32 [of b] by simp_all
  then have "4 * p + i < 4294967296" "4 * q + j < 4294967296" using assms(4,5) by simp_all
  moreover have "unat (off a i) = unat (off b j)" using e by simp
  ultimately have "4 * p + i = 4 * q + j" using assms(4,5) by (simp add: unat_add_32 pq)
  then have "p = q" using assms(4,5) by linarith
  then show False using assms(3) pq by (simp add: word_eq_unat)
qed

lemma get32_store32_other:
  assumes "unat a mod 4 = 0" "unat b mod 4 = 0" "a \<noteq> b"
  shows "get32 (store32 a v m) b = get32 m b"
proof -
  have *: "b + of_nat j \<noteq> a + of_nat i" if "i < 4" "j < 4" for i j using aligned_apart [OF assms that] by metis
  have "store32 a v m (b + of_nat j) = m (b + of_nat j)" if "j < 4" for j
    using * [of 0 j] * [of 1 j] * [of 2 j] * [of 3 j] that by (simp add: store32_def)
  from this [of 0] this [of 1] this [of 2] this [of 3] show ?thesis by (simp add: get32_def)
qed

lemma get32_upd_other:
  assumes "\<not> a - b < 4"
  shows "get32 (m(a := v)) b = get32 m b"
proof -
  have "a \<noteq> off b i" if "i < 4" for i using assms that unfolding in_block [of a b 4] by auto
  from this [of 0] this [of 1] this [of 2] this [of 3] show ?thesis by (auto simp: get32_def)
qed

lemma view_store:
  assumes "present s (PGNUM a)"
  shows "view (s\<lparr>fmem := (fmem s)(a := v), dirty := d\<rparr>) = (view s)(a := v)"
  using assms by (auto simp: view_def disk_byte_def)

lemma view_store32:
  assumes "present s (PGNUM a)" "unat a mod 4 = 0"
  shows "view (s\<lparr>fmem := store32 a v (fmem s), dirty := d\<rparr>) = store32 a v (view s)"
  using assms word_page [OF assms(2)] by (auto simp: view_def disk_byte_def store32_def)

lemma ready_store:
  assumes "fs_ready s" "view (s\<lparr>fmem := m, dirty := (dirty s)(p := True)\<rparr>) = v"
    "get32 v s_nblocks = get32 (view s) s_nblocks" "\<And>x. PGNUM x \<noteq> p \<Longrightarrow> m x = fmem s x"
  shows "fs_ready (s\<lparr>fmem := m, dirty := (dirty s)(p := True)\<rparr>)"
  using assms by (auto simp: fs_ready_def absent_def clean_def disk_byte_def)

lemma st8_ok:
  assumes "fs_ready s" "reachable_addr s a" "\<not> a - s_nblocks < 4"
  shows "\<exists>s'. st8 a v s = Some s' \<and> view s' = (view s)(a := v) \<and> grown s s'"
proof -
  obtain t where t: "touch a s = Some t" "view t = view s" "present t (PGNUM a)" "grown s t"
    using touch_ok [OF assms(1,2)] by blast
  have v: "view (t\<lparr>fmem := (fmem t)(a := v), dirty := (dirty t)(PGNUM a := True)\<rparr>) = (view t)(a := v)"
    by (rule view_store [OF t(3)])
  have "fs_ready (t\<lparr>fmem := (fmem t)(a := v), dirty := (dirty t)(PGNUM a := True)\<rparr>)"
    by (rule ready_store [OF grown_ready [OF t(4)] v]) (auto simp: get32_upd_other [OF assms(3)])
  then show ?thesis using t v by (auto simp: st8_def grown_def)
qed

lemma st32_ok:
  assumes "fs_ready s" "reachable_addr s a" "unat a mod 4 = 0" "a \<noteq> s_nblocks"
  shows "\<exists>s'. st32 a v s = Some s' \<and> view s' = store32 a v (view s) \<and> grown s s'"
proof -
  obtain t where t: "touch a s = Some t" "view t = view s" "present t (PGNUM a)" "grown s t"
    using touch_ok [OF assms(1,2)] by blast
  have v: "view (t\<lparr>fmem := store32 a v (fmem t), dirty := (dirty t)(PGNUM a := True)\<rparr>) = store32 a v (view t)"
    by (rule view_store32 [OF t(3) assms(3)])
  have al: "unat s_nblocks mod 4 = 0" by (simp add: s_nblocks_def SUPER_def DISKMAP_def BLKSIZE_def)
  have "store32 a v (fmem t) x = fmem t x" if "PGNUM x \<noteq> PGNUM a" for x
    using that word_page [OF assms(3)] by (auto simp: store32_def)
  then have "fs_ready (t\<lparr>fmem := store32 a v (fmem t), dirty := (dirty t)(PGNUM a := True)\<rparr>)"
    by (intro ready_store [OF grown_ready [OF t(4)] v]) (simp_all add: get32_store32_other [OF assms(3) al assms(4)])
  then show ?thesis using t v by (auto simp: st32_def grown_def)
qed

section \<open>Flushing\<close>

lemma block_sector:
  assumes "in_map a"
  shows "blk a * BLKSECTS AND 0xFFFFFFF = blk a * BLKSECTS" "unat (blk a * BLKSECTS) = unat (blk a) * 8" "unat (blk a) < 786432"
proof -
  show b: "unat (blk a) < 786432" using assms by (rule in_map_split) simp
  have bs: "BLKSECTS = 8" by (simp add: BLKSECTS_def BLKSIZE_def SECTSIZE_def)
  show u: "unat (blk a * BLKSECTS) = unat (blk a) * 8" using b by (simp add: bs unat_word_ariths)
  have "blk a * BLKSECTS AND mask 28 = blk a * BLKSECTS" using b by (simp only: word_eq_unat unat_and_mask u) simp
  then show "blk a * BLKSECTS AND 0xFFFFFFF = blk a * BLKSECTS" by (simp add: mask_eq_exp_minus_1)
qed

lemma map_offset_less:
  assumes "in_map x"
  shows "x - DISKMAP - blk x * BLKSIZE < 4096" "ROUNDDOWN x PGSIZE + (x - DISKMAP - blk x * BLKSIZE) = x"
proof -
  have *: "x - DISKMAP - blk x * BLKSIZE = x - ROUNDDOWN x PGSIZE" by (simp add: diff_diff_eq flip: map_offset [OF assms])
  show "x - DISKMAP - blk x * BLKSIZE < 4096" unfolding * in_page by simp
  show "ROUNDDOWN x PGSIZE + (x - DISKMAP - blk x * BLKSIZE) = x" unfolding * by simp
qed

lemma block_page: "\<lbrakk>in_map x; in_map a\<rbrakk> \<Longrightarrow> blk x = blk a \<longleftrightarrow> PGNUM x = PGNUM a"
  by (auto simp: word_eq_unat page_block)

lemma disk_byte_write:
  assumes x: "in_map x" and a: "in_map a"
    and w: "ide_write (blk a * BLKSECTS) (ROUNDDOWN a PGSIZE) BLKSECTS s = Some s'"
  shows "disk_byte s' x = (if blk x = blk a then fmem s x else disk_byte s x)"
proof -
  define k where "k = x - DISKMAP - blk x * BLKSIZE"
  have k: "unat k < 4096" "ROUNDDOWN x PGSIZE + k = x"
    using map_offset_less [OF x] by (simp_all add: k_def word_less_nat_alt)
  have bs: "BLKSECTS = 8" "SECTSIZE = 512" by (simp_all add: BLKSECTS_def BLKSIZE_def SECTSIZE_def)
  have kd: "unat (k div 512) = unat k div 512" by (simp add: unat_div)
  define sec where "sec = sector (blk x * BLKSECTS) k"
  have sec: "sec = blk x * BLKSECTS + k div 512" "unat sec = 8 * unat (blk x) + unat k div 512"
  proof -
    show e: "sec = blk x * BLKSECTS + k div 512" using block_sector [OF x] by (simp add: sec_def sector_def bs)
    have "unat (blk x) * 8 + unat k div 512 < 4294967296" using block_sector(3) [OF x] k(1) by linarith
    then show "unat sec = 8 * unat (blk x) + unat k div 512"
      unfolding e using block_sector(2) [OF x] kd by (subst unat_add_no_wrap) simp_all
  qed
  have d: "disk_byte t x = disk t sec (unat (k mod 512))" for t by (simp add: disk_byte_def Let_def k_def sec_def bs)
  have j: "unat (k mod 512) < 512" by (simp add: unat_mod)
  have s': "disk s' sec j = (if sec - blk a * BLKSECTS < 8 \<and> j < 512
      then fmem s (ROUNDDOWN a PGSIZE + (sec - blk a * BLKSECTS) * 512 + of_nat j) else disk s sec j)" for j
    using w block_sector(1) [OF a] by (auto simp: ide_write_def Let_def bs)
  show ?thesis
  proof (cases "blk x = blk a")
    case True
    then have m: "sec - blk a * BLKSECTS = k div 512" using sec(1) by simp
    have "unat k div 512 < 8" using k(1) by simp
    then have lt: "k div 512 < 8" by (simp add: word_less_nat_alt kd)
    have "k div 512 * 512 + k mod 512 = k" by (rule div_mult_mod_eq)
    moreover have "ROUNDDOWN a PGSIZE = ROUNDDOWN x PGSIZE" using True map_offset [OF a] map_offset [OF x] by simp
    ultimately have "ROUNDDOWN a PGSIZE + k div 512 * 512 + of_nat (unat (k mod 512)) = x"
      using k(2) by (simp add: add.assoc)
    then show ?thesis using True lt j s' [of "unat (k mod 512)"] by (simp add: d m)
  next
    case False
    have "\<not> sec - blk a * BLKSECTS < 8"
    proof
      assume "sec - blk a * BLKSECTS < 8"
      then obtain i where i: "i < 8" "sec = off (blk a * BLKSECTS) i" using in_block [of sec "blk a * BLKSECTS" 8] by auto
      have "unat sec = 8 * unat (blk a) + i"
        using i block_sector(2,3) [OF a] by (simp add: unat_add_32)
      then have "8 * unat (blk x) + unat k div 512 = 8 * unat (blk a) + i" using sec(2) by simp
      moreover have "unat k div 512 < 8" using k(1) by simp
      ultimately have "unat (blk x) = unat (blk a)" using i(1) by linarith
      with False show False by (simp add: word_eq_unat)
    qed
    then show ?thesis using False s' by (simp add: d)
  qed
qed

lemma flush_block_ok:
  assumes r: "fs_ready s" and a: "in_map a"
  shows "\<exists>s'. flush_block a s = Some s' \<and> view s' = view s \<and> grown s s' \<and>
    (\<forall>x. in_map x \<longrightarrow> (blk x = blk a \<or> disk_byte s x = view s x) \<longrightarrow> disk_byte s' x = view s x)"
proof -
  have pr: "PGNUM (ROUNDDOWN a PGSIZE) = PGNUM a" using in_page [of "ROUNDDOWN a PGSIZE" a] by simp
  show ?thesis
  proof (cases "present s (PGNUM a) \<and> dirty s (PGNUM a)")
    case True
    obtain t where t: "ide_write (blk a * BLKSECTS) (ROUNDDOWN a PGSIZE) BLKSECTS s = Some t"
      by (simp add: ide_write_def BLKSECTS_def BLKSIZE_def SECTSIZE_def)
    then have same: "fmem t = fmem s" "present t = present s" "dirty t = dirty s" "frames t = frames s"
      "super_set t = super_set s" "bitmap_set t = bitmap_set s" by (auto simp: ide_write_def c_assert_def split: if_splits)
    define s' where "s' = clear_dirty (ROUNDDOWN a PGSIZE) t"
    have f: "flush_block a s = Some s'"
      using True a t by (simp add: flush_block_def in_map_def Let_def va_is_mapped_def va_is_dirty_def pr s'_def blk_def)
    have d: "disk_byte s' x = (if blk x = blk a then fmem s x else disk_byte s x)" if "in_map x" for x
      using disk_byte_write [OF that a t] by (simp add: s'_def clear_dirty_def disk_byte_def)
    have v: "view s' = view s"
    proof
      fix x
      show "view s' x = view s x"
        using True d [of x] block_page [OF _ a, of x] same by (auto simp: view_def s'_def clear_dirty_def)
    qed
    have "clean s'" using r d block_page [OF _ a] same by (auto simp: clean_def fs_ready_def s'_def clear_dirty_def pr)
    then have "fs_ready s'" using r v same by (simp add: fs_ready_def s'_def clear_dirty_def absent_def)
    moreover have "disk_byte s' x = view s x" if "in_map x" "blk x = blk a \<or> disk_byte s x = view s x" for x
      using that d [of x] True block_page [OF _ a, of x] by (auto simp: view_present)
    ultimately show ?thesis using f v same by (auto simp: grown_def s'_def clear_dirty_def)
  next
    case False
    then have f: "flush_block a s = Some s"
      using a by (auto simp: flush_block_def in_map_def Let_def va_is_mapped_def va_is_dirty_def pr)
    moreover have "disk_byte s x = view s x" if "in_map x" "blk x = blk a" for x
      using that r False block_page [OF that(1) a] by (auto simp: fs_ready_def clean_def view_def)
    ultimately show ?thesis using r by (auto simp: grown_def)
  qed
qed

end
