(* ===== verification/Jos_Fs_Spec.thy ===== *)
theory Jos_Fs_Spec
  imports Jos_Cache_Spec
begin

text \<open>
  The file system on top of the cache: allocation takes the lowest free block, \<open>fs_sync\<close> leaves the disk
  equal to the view, copies move exactly the bytes they should, and the blocks of a well-formed file
  are found where its description says.
\<close>

section \<open>Super block and bitmap\<close>

abbreviation (input) nblocks :: "fsmem \<Rightarrow> u32" where
  "nblocks s \<equiv> get32 (view s) s_nblocks"

lemma super_aligned: "unat s_nblocks mod 4 = 0" "in_map s_nblocks" "blk s_nblocks = 1"
  by (simp_all add: s_nblocks_def SUPER_def DISKMAP_def BLKSIZE_def DISKSIZE_def in_map_def blk_def)

lemma ld32_present: "\<lbrakk>present s (PGNUM a); unat a mod 4 = 0\<rbrakk> \<Longrightarrow> ld32 a s = Some (get32 (view s) a, s)"
  by (simp add: ld32_def touch_present get32_present)

lemma ld_nblocks: "fs_ready s \<Longrightarrow> ld32 s_nblocks s = Some (nblocks s, s)"
  by (rule ld32_present) (simp_all add: fs_ready_def PGNUM_super super_aligned)

lemma nblocks_bound: "fs_ready s \<Longrightarrow> b < nblocks s \<Longrightarrow> b < 32768"
  unfolding fs_ready_def by (blast intro: less_le_trans)

lemma ld_bitmap: "\<lbrakk>fs_ready s; b < 32768\<rbrakk> \<Longrightarrow> ld32 (bitmap_word b) s = Some (get32 (view s) (bitmap_word b), s)"
  by (rule ld32_present) (simp_all add: bitmap_word_page fs_ready_def)

lemma bit_bitmap_bit: "bit (bitmap_bit b) n \<longleftrightarrow> n = unat (b mod 32)"
proof -
  have "unat (b mod 32) < 32" by (simp add: unat_mod)
  then show ?thesis by (auto simp: bitmap_bit_def bit_simps)
qed

lemma and_bitmap_bit: "w AND bitmap_bit b \<noteq> 0 \<longleftrightarrow> bit w (unat (b mod 32))"
proof -
  have "w AND bitmap_bit b = 0 \<longleftrightarrow> (\<forall>n. \<not> bit (w AND bitmap_bit b) n)" by (auto intro: bit_word_eqI)
  then show ?thesis by (auto simp: bit_and_iff bit_bitmap_bit)
qed

lemma block_is_free_ok:
  assumes "fs_ready s"
  shows "block_is_free b s = Some (b < nblocks s \<and> \<not> in_use (view s) b, s)"
proof -
  have "super_set s" using assms by (simp add: fs_ready_def)
  then show ?thesis
    using ld_bitmap [OF assms nblocks_bound [OF assms], of b]
    by (auto simp: block_is_free_def ld_nblocks [OF assms] in_use_def and_bitmap_bit not_le)
qed

lemma diskaddr_ok:
  assumes "fs_ready s" "b \<noteq> 0" "b < nblocks s"
  shows "diskaddr b s = Some (DISKMAP + b * BLKSIZE, s)"
  using assms by (simp add: diskaddr_def ld_nblocks [OF assms(1)] fs_ready_def)

lemma block_addr:
  assumes "b < 32768" "k < 4096"
  shows "unat (DISKMAP + b * BLKSIZE + of_nat k) = 268435456 + unat b * 4096 + k"
    "in_map (DISKMAP + b * BLKSIZE + of_nat k)" "blk (DISKMAP + b * BLKSIZE + of_nat k) = b"
proof -
  have b: "unat b < 32768" using assms(1) by (simp add: word_less_nat_alt)
  then have "unat (b * BLKSIZE) = unat b * 4096" by (simp add: BLKSIZE_def unat_word_ariths)
  then have "unat (DISKMAP + b * BLKSIZE) = 268435456 + unat b * 4096"
    using b by (subst unat_add_no_wrap) (simp_all add: DISKMAP_def)
  then show u: "unat (DISKMAP + b * BLKSIZE + of_nat k) = 268435456 + unat b * 4096 + k"
    using b assms(2) by (subst unat_add_no_wrap) simp_all
  then show m: "in_map (DISKMAP + b * BLKSIZE + of_nat k)" using b assms(2) by (simp add: unat_in_map)
  show "blk (DISKMAP + b * BLKSIZE + of_nat k) = b" using unat_blk [OF m] u assms(2) by (simp add: word_eq_unat)
qed

lemmas block_addr0 = block_addr [where k = 0, simplified]

text \<open>Once \<open>fs_sync\<close> is done, the disk holds what the server sees.\<close>

lemma fs_sync_loop_ok:
  assumes "fs_ready s" "i \<noteq> 0" "i \<le> nblocks s"
  shows "\<exists>s'. fs_sync_loop i s = Some s' \<and> view s' = view s \<and> grown s s' \<and>
    (\<forall>x. in_map x \<longrightarrow> (i \<le> blk x \<and> blk x < nblocks s \<or> disk_byte s x = view s x) \<longrightarrow> disk_byte s' x = view s x)"
  using assms
proof (induction "unat (nblocks s) - unat i" arbitrary: i s)
  case 0
  then have "i = nblocks s" by (simp add: word_le_nat_alt word_eq_unat)
  then show ?case using 0 by (subst fs_sync_loop.simps) (auto simp: ld_nblocks grown_refl)
next
  case (Suc k)
  then have lt: "i < nblocks s" by (simp add: word_less_nat_alt)
  then have i: "i < 32768" by (rule nblocks_bound [OF Suc.prems(1)])
  obtain t where t: "flush_block (DISKMAP + i * BLKSIZE) s = Some t" "view t = view s" "grown s t"
    "\<forall>x. in_map x \<longrightarrow> (blk x = i \<or> disk_byte s x = view s x) \<longrightarrow> disk_byte t x = view s x"
    using flush_block_ok [OF Suc.prems(1) block_addr0(2) [OF i]] block_addr0(3) [OF i] by auto
  have s: "unat (i + 1) = Suc (unat i)" using i by (simp add: unat_add_32 word_less_nat_alt)
  have "\<exists>s'. fs_sync_loop (i + 1) t = Some s' \<and> view s' = view t \<and> grown t s' \<and>
    (\<forall>x. in_map x \<longrightarrow> (i + 1 \<le> blk x \<and> blk x < nblocks t \<or> disk_byte t x = view t x) \<longrightarrow> disk_byte s' x = view t x)"
    using Suc lt t s by (intro Suc.hyps(1)) (auto simp: grown_ready word_less_nat_alt word_le_nat_alt)
  then obtain s' where s': "fs_sync_loop (i + 1) t = Some s'" "view s' = view s" "grown t s'"
    "\<forall>x. in_map x \<longrightarrow> (i + 1 \<le> blk x \<and> blk x < nblocks s \<or> disk_byte t x = view s x) \<longrightarrow> disk_byte s' x = view s x"
    using t(2) by auto
  have e: "fs_sync_loop i s = Some s'"
    using s'(1) t(1) lt diskaddr_ok [OF Suc.prems(1,2) lt]
    by (subst fs_sync_loop.simps) (simp add: ld_nblocks [OF Suc.prems(1)])
  have "i \<le> b \<longleftrightarrow> b = i \<or> i + 1 \<le> b" for b using s by (auto simp: word_le_nat_alt word_eq_unat)
  then show ?case using e s'(2-4) t(4) grown_trans [OF t(3)] by auto
qed

lemma fs_sync_ok:
  assumes "fs_ready s" "1 \<le> nblocks s"
  shows "\<exists>s'. fs_sync s = Some s' \<and> view s' = view s \<and> grown s s' \<and>
    (\<forall>x. in_map x \<longrightarrow> 1 \<le> blk x \<longrightarrow> blk x < nblocks s \<longrightarrow> disk_byte s' x = view s x)"
  using fs_sync_loop_ok [OF assms(1) _ assms(2)] by (auto simp: fs_sync_def)

section \<open>Allocating blocks\<close>

text \<open>The bitmap with block \<open>b\<close> taken.\<close>

definition take_block :: "u32 \<Rightarrow> cmem \<Rightarrow> cmem" where
  "take_block b m = store32 (bitmap_word b) (get32 m (bitmap_word b) AND NOT (bitmap_bit b)) m"

lemma bitmap_position:
  assumes "b < 32768" "c < 32768" "bitmap_word c = bitmap_word b" "unat (c mod 32) = unat (b mod 32)"
  shows "c = b"
proof -
  have u: "unat (bitmap_word x) = 268443648 + 4 * (unat x div 32)" if "x < 32768" for x
  proof -
    have b: "unat x < 32768" using that by (simp add: word_less_nat_alt)
    have "unat (4 * (x div 32)) = 4 * (unat x div 32)" using b by (simp add: unat_word_ariths unat_div)
    then show ?thesis using b by (simp add: bitmap_word_def BITMAP_def DISKMAP_def BLKSIZE_def unat_add_no_wrap)
  qed
  have "unat c div 32 = unat b div 32" using u [OF assms(1)] u [OF assms(2)] assms(3) by simp
  moreover have "unat c mod 32 = unat b mod 32" using assms(4) by (simp add: unat_mod)
  ultimately have "unat c = unat b" by (metis div_mult_mod_eq)
  then show ?thesis by (simp add: word_eq_unat)
qed

lemma take_block_in_use:
  assumes "b < 32768" "c < 32768"
  shows "in_use (take_block b m) c \<longleftrightarrow> c = b \<or> in_use m c"
proof (cases "bitmap_word c = bitmap_word b")
  case True
  then have "in_use (take_block b m) c \<longleftrightarrow> \<not> (bit (get32 m (bitmap_word b)) (unat (c mod 32)) \<and> unat (c mod 32) \<noteq> unat (b mod 32))"
    by (auto simp: in_use_def take_block_def get32_store32 bit_simps bit_bitmap_bit unat_mod)
  then show ?thesis using True bitmap_position [OF assms True] by (auto simp: in_use_def)
next
  case False
  then show ?thesis
    using get32_store32_other [OF bitmap_word_page(2) [OF assms(1)] bitmap_word_page(2) [OF assms(2)]]
    by (auto simp: in_use_def take_block_def)
qed

lemma bitmap_word_neq: "b < 32768 \<Longrightarrow> bitmap_word b \<noteq> s_nblocks"
  using bitmap_word_page(1) [of b] by (auto simp: PGNUM_super)

lemma alloc_block_loop_ok:
  assumes "fs_ready s" "i \<le> nblocks s"
  shows "(\<exists>b s'. alloc_block_loop i s = Some (Inr b, s') \<and> i \<le> b \<and> b < nblocks s \<and> \<not> in_use (view s) b \<and>
      (\<forall>c. i \<le> c \<longrightarrow> c < b \<longrightarrow> in_use (view s) c) \<and> view s' = take_block b (view s) \<and> grown s s') \<or>
    alloc_block_loop i s = Some (Inl E_NO_DISK, s) \<and> (\<forall>c. i \<le> c \<longrightarrow> c < nblocks s \<longrightarrow> in_use (view s) c)"
  using assms(2)
proof (induction "unat (nblocks s) - unat i" arbitrary: i)
  case 0
  then have "i = nblocks s" by (simp add: word_le_nat_alt word_eq_unat)
  then show ?case by (subst (2) alloc_block_loop.simps) (auto simp: ld_nblocks [OF assms(1)])
next
  case (Suc k)
  then have lt: "i < nblocks s" by (simp add: word_less_nat_alt)
  then have i: "i < 32768" by (rule nblocks_bound [OF assms(1)])
  show ?case
  proof (cases "in_use (view s) i")
    case False
    obtain t where t: "st32 (bitmap_word i) (get32 (view s) (bitmap_word i) AND NOT (bitmap_bit i)) s = Some t"
      "view t = take_block i (view s)" "grown s t"
      using st32_ok [OF assms(1) _ bitmap_word_page(2) [OF i] bitmap_word_neq [OF i]] assms(1) bitmap_word_page(1) [OF i]
      by (fastforce simp: reachable_addr_def fs_ready_def take_block_def)
    have "in_map (bitmap_word i)" using same_page_block [of BITMAP "bitmap_word i"] bitmap_word_page(1) [OF i]
      by (simp add: in_map_def BITMAP_def DISKMAP_def DISKSIZE_def BLKSIZE_def)
    then obtain u where u: "flush_block (bitmap_word i) t = Some u" "view u = view t" "grown t u"
      using flush_block_ok [OF grown_ready [OF t(3)]] by blast
    have "alloc_block_loop i s = Some (Inr i, u)"
      using False t u lt by (subst alloc_block_loop.simps)
        (simp add: ld_nblocks [OF assms(1)] block_is_free_ok [OF assms(1)] ld_bitmap [OF assms(1) i])
    moreover have "view u = take_block i (view s)" using t(2) u(2) by simp
    ultimately show ?thesis using False lt grown_trans [OF t(3) u(3)]
      by (intro disjI1 exI [of _ i] exI [of _ u]) (auto simp: leD)
  next
    case True
    have e: "alloc_block_loop i s = alloc_block_loop (i + 1) s"
      using True lt by (subst alloc_block_loop.simps) (simp add: ld_nblocks [OF assms(1)] block_is_free_ok [OF assms(1)])
    have s: "unat (i + 1) = Suc (unat i)" using i by (simp add: unat_add_32 word_less_nat_alt)
    have le: "i \<le> b \<longleftrightarrow> b = i \<or> i + 1 \<le> b" for b using s by (auto simp: word_le_nat_alt word_eq_unat)
    have k: "k = unat (nblocks s) - unat (i + 1)" "i + 1 \<le> nblocks s" using Suc(2) s lt by (simp_all add: word_le_nat_alt word_less_nat_alt)
    show ?thesis using Suc.hyps(1) [OF k] True unfolding e le by blast
  qed
qed

section \<open>Copying through the cache\<close>

text \<open>Bytes a copy may change without touching what the cache itself relies on.\<close>

definition plain :: "u32 \<Rightarrow> bool" where
  "plain a \<longleftrightarrow> PGNUM a \<noteq> PGNUM SUPER \<and> PGNUM a \<noteq> PGNUM BITMAP"

definition same_meta :: "cmem \<Rightarrow> cmem \<Rightarrow> bool" where
  "same_meta m m' \<longleftrightarrow> (\<forall>a. PGNUM a = PGNUM SUPER \<or> PGNUM a = PGNUM BITMAP \<longrightarrow> m' a = m a)"

lemma get32_cong:
  assumes "unat a mod 4 = 0" "\<And>x. PGNUM x = PGNUM a \<Longrightarrow> m' x = m x"
  shows "get32 m' a = get32 m a"
  using assms(2) word_page [OF assms(1)] by (simp add: get32_def)

lemma same_meta_nblocks: "same_meta m m' \<Longrightarrow> get32 m' s_nblocks = get32 m s_nblocks"
  by (rule get32_cong) (simp_all add: super_aligned same_meta_def PGNUM_super)

lemma same_meta_in_use: "\<lbrakk>same_meta m m'; b < 32768\<rbrakk> \<Longrightarrow> in_use m' b = in_use m b"
  unfolding in_use_def
  by (subst get32_cong [of "bitmap_word b" m' m]) (simp_all add: bitmap_word_page same_meta_def)

lemma same_meta_trans: "\<lbrakk>same_meta m m'; same_meta m' m''\<rbrakk> \<Longrightarrow> same_meta m m''"
  by (simp add: same_meta_def)

lemma same_meta_upd: "plain a \<Longrightarrow> same_meta m (m(a := v))"
  by (auto simp: same_meta_def plain_def)

lemma reachable_grown:
  assumes "grown s s'" "same_meta (view s) (view s')" "fs_ready s" "reachable_addr s a"
  shows "reachable_addr s' a"
  using assms same_meta_nblocks [OF assms(2)] same_meta_in_use [OF assms(2) nblocks_bound [OF assms(3)]]
  by (auto simp: reachable_addr_def grown_def)

lemma plain_not_nblocks: "plain a \<Longrightarrow> \<not> a - s_nblocks < 4"
proof
  assume p: "plain a" and "a - s_nblocks < 4"
  then obtain i where i: "i < 4" "a = off s_nblocks i" unfolding in_block by auto
  have "i = 0 \<or> i = 1 \<or> i = 2 \<or> i = 3" using i(1) by linarith
  then have "PGNUM a = PGNUM SUPER" using i(2) PGNUM_super by (auto simp: add.commute)
  then show False using p by (simp add: plain_def)
qed

lemma copy_bytes_ok:
  assumes "fs_ready s" "n < 4294967296" "\<And>i. i < n \<Longrightarrow> reachable_addr s (off src i)"
    "\<And>i. i < n \<Longrightarrow> reachable_addr s (off dst i) \<and> plain (off dst i)"
    "\<And>i j. \<lbrakk>i < n; j < n\<rbrakk> \<Longrightarrow> off dst i \<noteq> off src j"
  shows "\<exists>s'. copy_bytes n dst src s = Some s' \<and> grown s s' \<and> (\<forall>i < n. view s' (off dst i) = view s (off src i)) \<and>
    (\<forall>a. (\<forall>i < n. a \<noteq> off dst i) \<longrightarrow> view s' a = view s a)"
  using assms
proof (induction n arbitrary: s dst src)
  case 0
  then show ?case by (simp add: grown_refl)
next
  case (Suc n)
  obtain t where t: "ld8 src s = Some (view s src, t)" "view t = view s" "grown s t"
    using ld8_ok [OF Suc.prems(1), of src] Suc.prems(3) [of 0] by auto
  have d0: "reachable_addr s dst" "plain dst" using Suc.prems(4) [of 0] by simp_all
  have rt: "reachable_addr t a" if "reachable_addr s a" for a
    using reachable_grown [OF t(3) _ Suc.prems(1) that] t(2) by (simp add: same_meta_def)
  obtain u where u: "st8 dst (view s src) t = Some u" "view u = (view s)(dst := view s src)" "grown t u"
    using st8_ok [OF grown_ready [OF t(3)] rt [OF d0(1)] plain_not_nblocks [OF d0(2)]] t(2) by auto
  have ru: "reachable_addr u a" if "reachable_addr s a" for a
    using reachable_grown [OF u(3) _ grown_ready [OF t(3)] rt [OF that]] same_meta_upd [OF d0(2)] t(2) u(2) by simp
  have sh: "off (dst + 1) i \<noteq> off (src + 1) j" if "i < n" "j < n" for i j
    using Suc.prems(5) [of "Suc i" "Suc j"] that by (simp add: off_Suc del: of_nat_Suc)
  have "\<exists>s'. copy_bytes n (dst + 1) (src + 1) u = Some s' \<and> grown u s' \<and>
      (\<forall>i < n. view s' (off (dst + 1) i) = view u (off (src + 1) i)) \<and>
      (\<forall>a. (\<forall>i < n. a \<noteq> off (dst + 1) i) \<longrightarrow> view s' a = view u a)"
    using Suc.prems(2) ru Suc.prems(3) [of "Suc _"] Suc.prems(4) [of "Suc _"] sh
    by (intro Suc.IH [OF grown_ready [OF u(3)]]) (auto simp: off_Suc simp del: of_nat_Suc)
  then obtain s' where s': "copy_bytes n (dst + 1) (src + 1) u = Some s'" "grown u s'"
      "\<forall>i < n. view s' (off dst (Suc i)) = view u (off src (Suc i))"
      "\<forall>a. (\<forall>i < n. a \<noteq> off dst (Suc i)) \<longrightarrow> view s' a = view u a"
    unfolding off_Suc by blast
  have ns: "off src (Suc i) \<noteq> dst" if "i < n" for i using Suc.prems(5) [of 0 "Suc i"] that by auto
  have nd: "dst \<noteq> off dst (Suc i)" if "i < n" for i using off_inj [of 0 "Suc i" dst] that Suc.prems(2) by auto
  have "view s' (off dst i) = view s (off src i)" if "i < Suc n" for i
    using that s'(3,4) u(2) ns nd by (cases i) auto
  moreover have "view s' a = view s a" if a: "\<forall>i < Suc n. a \<noteq> off dst i" for a
  proof -
    have "a \<noteq> dst" using a by force
    moreover have "\<forall>i < n. a \<noteq> off dst (Suc i)" using a by (metis Suc_mono)
    ultimately show ?thesis using s'(4) u(2) by simp
  qed
  moreover have "copy_bytes (Suc n) dst src s = Some s'" using t u s'(1) by simp
  moreover have "grown s s'" using grown_trans [OF t(3) grown_trans [OF u(3) s'(2)]] .
  ultimately show ?case by blast
qed

section \<open>The blocks of a file\<close>

definition block_base :: "u32 \<Rightarrow> u32" where
  "block_base b = DISKMAP + b * BLKSIZE"

text \<open>The block that holds the \<open>i\<close>-th block of the file at \<open>f\<close>; 0 if there is none.\<close>

definition fblock :: "cmem \<Rightarrow> u32 \<Rightarrow> nat \<Rightarrow> u32" where
  "fblock m f i =
     (if i < 10 then get32 m (f_direct f + 4 * of_nat i)
      else get32 m (block_base (get32 m (f_indirect f)) + 4 * (of_nat i - 10)))"

text \<open>A block that files may use: it exists, is marked as used and is none of the reserved ones.\<close>

definition good_block :: "cmem \<Rightarrow> u32 \<Rightarrow> bool" where
  "good_block m b \<longleftrightarrow> 2 < b \<and> b < get32 m s_nblocks \<and> in_use m b"

text \<open>
  The first \<open>k\<close> blocks of the file at \<open>f\<close> are present, distinct and none of them holds the \<open>File\<close> or
  the indirect block.
\<close>

definition laid_out :: "cmem \<Rightarrow> u32 \<Rightarrow> nat \<Rightarrow> bool" where
  "laid_out m f k \<longleftrightarrow> k \<le> 1034 \<and> in_map f \<and> unat f mod 4 = 0 \<and> unat f mod 4096 + 256 \<le> 4096 \<and>
     0 < blk f \<and> blk f < get32 m s_nblocks \<and> in_use m (blk f) \<and> blk f \<noteq> 2 \<and>
     (10 < k \<longrightarrow> good_block m (get32 m (f_indirect f))) \<and>
     (\<forall>i < k. good_block m (fblock m f i) \<and> fblock m f i \<noteq> blk f \<and> (10 < k \<longrightarrow> fblock m f i \<noteq> get32 m (f_indirect f))) \<and>
     inj_on (fblock m f) {..<k}"

lemma page_offset:
  assumes "unat a mod 4096 + k < 4096"
  shows "PGNUM (off a k) = PGNUM a" "unat (off a k) = unat a + k"
proof -
  have e: "unat a = unat a div 4096 * 4096 + unat a mod 4096" by simp
  have "unat a div 4096 < 1048576" using unat_less_32 [of a] by simp
  then have "unat a + k < 4294967296" using assms e by linarith
  then show u: "unat (off a k) = unat a + k" by (simp add: unat_add_32)
  have "(unat a + k) div 4096 = (unat a div 4096 * 4096 + (unat a mod 4096 + k)) div 4096" by simp
  also have "\<dots> = unat a div 4096 + (unat a mod 4096 + k) div 4096" by (rule div_mult_self3) simp
  also have "\<dots> = unat a div 4096" using assms by simp
  finally have "(unat a + k) div 4096 = unat a div 4096" .
  then show "PGNUM (off a k) = PGNUM a" using u by (simp add: word_eq_unat unat_PGNUM)
qed

lemma file_words:
  assumes "laid_out m f k"
  shows "PGNUM (f_size f) = PGNUM f" "unat (f_size f) mod 4 = 0" "PGNUM (f_indirect f) = PGNUM f" "unat (f_indirect f) mod 4 = 0"
    "i < 10 \<Longrightarrow> PGNUM (f_direct f + 4 * of_nat i) = PGNUM f \<and> unat (f_direct f + 4 * of_nat i) mod 4 = 0"
proof -
  have f: "unat f mod 4 = 0" "unat f mod 4096 + 256 \<le> 4096" using assms by (simp_all add: laid_out_def)
  have *: "PGNUM (off f k) = PGNUM f \<and> unat (off f k) mod 4 = 0" if "k < 256" "k mod 4 = 0" for k
  proof -
    have "unat f mod 4096 + k < 4096" using f(2) that(1) by linarith
    from page_offset [OF this] f(1) that(2) show ?thesis by (simp add: mod_add_eq [symmetric])
  qed
  show "PGNUM (f_size f) = PGNUM f" "unat (f_size f) mod 4 = 0" "PGNUM (f_indirect f) = PGNUM f" "unat (f_indirect f) mod 4 = 0"
    using * [of 128] * [of 176] by (simp_all add: f_size_def f_indirect_def)
  show "PGNUM (f_direct f + 4 * of_nat i) = PGNUM f \<and> unat (f_direct f + 4 * of_nat i) mod 4 = 0" if "i < 10"
    using * [of "136 + 4 * i"] that by (simp add: f_direct_def add.assoc mod_add_eq [symmetric])
qed

lemma block_words:
  assumes "b < 32768" "j < 1024"
  shows "PGNUM (block_base b + 4 * of_nat j) = PGNUM (block_base b)" "unat (block_base b + 4 * of_nat j) mod 4 = 0"
    "in_map (block_base b)" "blk (block_base b) = b"
proof -
  have u: "unat (block_base b) = 268435456 + unat b * 4096" using block_addr0(1) [OF assms(1)] by (simp add: block_base_def)
  have "unat (block_base b) mod 4096 + 4 * j < 4096" using assms(2) by (simp add: u)
  from page_offset [OF this] show "PGNUM (block_base b + 4 * of_nat j) = PGNUM (block_base b)"
    "unat (block_base b + 4 * of_nat j) mod 4 = 0" by (simp_all add: u mod_add_eq [symmetric])
  show "in_map (block_base b)" "blk (block_base b) = b" using block_addr0 [OF assms(1)] by (simp_all add: block_base_def)
qed

lemma file_reachable:
  assumes "laid_out (view s) f k" "PGNUM a = PGNUM f"
  shows "reachable_addr s a"
proof -
  have "in_map f" using assms(1) by (simp add: laid_out_def)
  from same_page_block [OF this assms(2)] assms(1) show ?thesis by (simp add: reachable_addr_def laid_out_def)
qed

lemma block_reachable:
  assumes "good_block (view s) b" "fs_ready s" "PGNUM a = PGNUM (block_base b)"
  shows "reachable_addr s a"
proof -
  have "b < 32768" using assms nblocks_bound by (auto simp: good_block_def)
  note bw = block_words [OF this, of 0]
  from same_page_block [OF bw(3) assms(3)] bw(4) assms(1) show ?thesis by (simp add: reachable_addr_def good_block_def)
qed

lemma get_block_ok:
  assumes r: "fs_ready s" and l: "laid_out (view s) f k" and i: "i < k"
  shows "\<exists>s'. file_get_block f (of_nat i) s = Some (Inr (block_base (fblock (view s) f i)), s') \<and> view s' = view s \<and> grown s s'"
proof -
  define b where "b = fblock (view s) f i"
  have k: "k \<le> 1034" using l by (simp add: laid_out_def)
  have b: "b \<noteq> 0" "b < nblocks s" "good_block (view s) b" using l i by (auto simp: laid_out_def b_def good_block_def)
  have ui: "unat (of_nat i :: u32) = i" using i k by simp
  define slot where "slot = (if i < 10 then f_direct f + 4 * of_nat i else block_base (get32 (view s) (f_indirect f)) + 4 * (of_nat i - 10))"
  have "\<exists>t. file_block_walk f (of_nat i) True s = Some (Inr slot, t) \<and> view t = view s \<and> grown s t \<and>
      reachable_addr t slot \<and> unat slot mod 4 = 0"
  proof (cases "i < 10")
    case True
    then show ?thesis using r file_words(5) [OF l True] file_reachable [OF l]
      by (simp add: file_block_walk_def NDIRECT_def NINDIRECT_def BLKSIZE_def word_le_nat_alt word_less_nat_alt ui slot_def grown_refl)
  next
    case False
    define ind where "ind = get32 (view s) (f_indirect f)"
    have ind: "good_block (view s) ind" using l i False by (simp add: laid_out_def ind_def)
    then have ib: "ind < 32768" "ind \<noteq> 0" using nblocks_bound [OF r] by (auto simp: good_block_def)
    obtain t where t: "ld32 (f_indirect f) s = Some (ind, t)" "view t = view s" "grown s t"
      using ld32_ok [OF r file_reachable [OF l file_words(3) [OF l]] file_words(4) [OF l]] by (auto simp: ind_def)
    note rt = grown_ready [OF t(3)]
    have lt: "laid_out (view t) f k" using l t(2) by simp
    obtain u where u: "ld32 (f_indirect f) t = Some (ind, u)" "view u = view t" "grown t u"
      using ld32_ok [OF rt file_reachable [OF lt file_words(3) [OF l]] file_words(4) [OF l]] t(2) by (auto simp: ind_def)
    have d: "diskaddr ind u = Some (block_base ind, u)"
      using diskaddr_ok [OF grown_ready [OF u(3)] ib(2)] ind t u by (simp add: good_block_def block_base_def)
    have j: "of_nat i - (10 :: u32) = of_nat (i - 10)" using False by (simp add: of_nat_diff)
    have bw: "PGNUM (block_base ind + 4 * of_nat (i - 10)) = PGNUM (block_base ind)"
      "unat (block_base ind + 4 * of_nat (i - 10)) mod 4 = 0"
      using block_words [OF ib(1), of "i - 10"] i k by auto
    have "good_block (view u) ind" using ind t(2) u(2) by simp
    then have ru: "reachable_addr u (block_base ind + 4 * of_nat (i - 10))"
      by (rule block_reachable [OF _ grown_ready [OF u(3)] bw(1)])
    have slot: "slot = block_base ind + 4 * of_nat (i - 10)"
      unfolding slot_def ind_def j [symmetric] using False by (rule if_not_P)
    have "\<not> NDIRECT + NINDIRECT \<le> of_nat i" "\<not> of_nat i < NDIRECT"
      using False i k ui by (simp_all add: NDIRECT_def NINDIRECT_def BLKSIZE_def word_le_nat_alt word_less_nat_alt)
    moreover have "4 * (of_nat i - NDIRECT) = 4 * of_nat (i - 10)" by (simp only: NDIRECT_def j)
    ultimately have "file_block_walk f (of_nat i) True s = Some (Inr slot, u)"
      using t(1) u(1) d ib(2) by (simp only: file_block_walk_def slot) simp
    moreover have "view u = view s" using t(2) u(2) by simp
    ultimately show ?thesis using ru bw(2) grown_trans [OF t(3) u(3)] unfolding slot by (intro exI [of _ u] conjI)
  qed
  then obtain t where t: "file_block_walk f (of_nat i) True s = Some (Inr slot, t)" "view t = view s" "grown s t"
    "reachable_addr t slot" "unat slot mod 4 = 0" by (elim exE conjE)
  have bs: "get32 (view s) slot = b" by (simp add: b_def slot_def fblock_def)
  obtain u where u: "ld32 slot t = Some (b, u)" "view u = view s" "grown t u"
    using ld32_ok [OF grown_ready [OF t(3)] t(4,5)] t(2) bs by auto
  have "reachable_addr u slot" using reachable_grown [OF u(3) _ grown_ready [OF t(3)] t(4)] t(2) u(2) by (simp add: same_meta_def)
  then obtain w where w: "ld32 slot u = Some (b, w)" "view w = view s" "grown u w"
    using ld32_ok [OF grown_ready [OF u(3)] _ t(5)] u(2) bs by auto
  have "diskaddr b w = Some (block_base b, w)"
    using diskaddr_ok [OF grown_ready [OF w(3)] b(1)] b(2) w(2) by (simp add: block_base_def)
  then show ?thesis using t(1) u(1) w b(1) grown_trans [OF t(3) grown_trans [OF u(3) w(3)]]
    by (auto simp: file_get_block_def b_def [symmetric])
qed

section \<open>Reading and writing a file\<close>

text \<open>The address of byte \<open>p\<close> of a file.\<close>

definition fbyte :: "cmem \<Rightarrow> u32 \<Rightarrow> nat \<Rightarrow> u32" where
  "fbyte m f p = off (block_base (fblock m f (p div 4096))) (p mod 4096)"

lemma good_block_bound: "\<lbrakk>good_block m b; get32 m s_nblocks \<le> 32768\<rbrakk> \<Longrightarrow> b < 32768 \<and> 2 < unat b"
  by (auto simp: good_block_def word_less_nat_alt word_le_nat_alt)

lemma fbyte_props:
  assumes "laid_out m f k" "get32 m s_nblocks \<le> 32768" "p < k * 4096"
  shows "unat (fbyte m f p) = 268435456 + unat (fblock m f (p div 4096)) * 4096 + p mod 4096"
    "in_map (fbyte m f p)" "blk (fbyte m f p) = fblock m f (p div 4096)" "good_block m (fblock m f (p div 4096))"
    "fblock m f (p div 4096) < 32768"
proof -
  have "p div 4096 < k" using assms(3) by (simp add: less_mult_imp_div_less)
  then show g: "good_block m (fblock m f (p div 4096))" using assms(1) by (simp add: laid_out_def)
  show b: "fblock m f (p div 4096) < 32768" using good_block_bound [OF g assms(2)] by simp
  show "unat (fbyte m f p) = 268435456 + unat (fblock m f (p div 4096)) * 4096 + p mod 4096"
    "in_map (fbyte m f p)" "blk (fbyte m f p) = fblock m f (p div 4096)"
    using block_addr [OF b, of "p mod 4096"] by (simp_all add: fbyte_def block_base_def)
qed

lemma page_of_block: "\<lbrakk>in_map a; b < 32768\<rbrakk> \<Longrightarrow> PGNUM a = PGNUM (block_base b) \<longleftrightarrow> blk a = b"
  using block_page [of a "block_base b"] block_words(3,4) [of b 0] by simp

lemma fbyte_inj:
  assumes "laid_out m f k" "get32 m s_nblocks \<le> 32768" "p < k * 4096" "q < k * 4096" "fbyte m f p = fbyte m f q"
  shows "p = q"
proof -
  note p = fbyte_props [OF assms(1,2,3)] and q = fbyte_props [OF assms(1,2,4)]
  have "fblock m f (p div 4096) = fblock m f (q div 4096)" using p(3) q(3) assms(5) by simp
  moreover have "p div 4096 < k" "q div 4096 < k" using assms(3,4) by (simp_all add: less_mult_imp_div_less)
  ultimately have d: "p div 4096 = q div 4096" using assms(1) by (auto simp: laid_out_def inj_on_def)
  moreover have "p mod 4096 = q mod 4096" using p(1) q(1) assms(5) d by simp
  ultimately show ?thesis by (metis div_mult_mod_eq)
qed

text \<open>Pages that hold the description of a file: none of its bytes is in one of them.\<close>

definition desc_page :: "cmem \<Rightarrow> u32 \<Rightarrow> nat \<Rightarrow> u32 \<Rightarrow> bool" where
  "desc_page m f k a \<longleftrightarrow> PGNUM a = PGNUM f \<or> PGNUM a = PGNUM SUPER \<or> PGNUM a = PGNUM BITMAP \<or>
     10 < k \<and> PGNUM a = PGNUM (block_base (get32 m (f_indirect f)))"

lemma fbyte_not_desc:
  assumes l: "laid_out m f k" and n: "get32 m s_nblocks \<le> 32768" and p: "p < k * 4096"
  shows "\<not> desc_page m f k (fbyte m f p)"
proof -
  note fp = fbyte_props [OF l n p]
  have k: "p div 4096 < k" using p by (simp add: less_mult_imp_div_less)
  have "PGNUM (fbyte m f p) \<noteq> PGNUM f"
    using block_page [OF fp(2), of f] fp(3) l k by (auto simp: laid_out_def)
  moreover have "unat (PGNUM (fbyte m f p)) = 65536 + unat (fblock m f (p div 4096))" using page_block [OF fp(2)] fp(3) by simp
  then have "PGNUM (fbyte m f p) \<noteq> PGNUM SUPER" "PGNUM (fbyte m f p) \<noteq> PGNUM BITMAP"
    using good_block_bound [OF fp(4) n] by (auto simp: PGNUM_super)
  moreover have "10 < k \<Longrightarrow> PGNUM (fbyte m f p) \<noteq> PGNUM (block_base (get32 m (f_indirect f)))"
    using page_of_block [OF fp(2)] fp(3) l k good_block_bound [OF _ n] by (auto simp: laid_out_def)
  ultimately show ?thesis by (auto simp: desc_page_def)
qed

lemma layout_cong:
  assumes l: "laid_out m f k" and n: "get32 m s_nblocks \<le> 32768" and e: "\<And>a. desc_page m f k a \<Longrightarrow> m' a = m a"
  shows "laid_out m' f k" "i < k \<Longrightarrow> fblock m' f i = fblock m f i" "get32 m' s_nblocks = get32 m s_nblocks"
    "get32 m' (f_size f) = get32 m (f_size f)" "get32 m' (f_indirect f) = get32 m (f_indirect f)"
proof -
  have sm: "same_meta m m'" using e by (simp add: same_meta_def desc_page_def)
  show nb: "get32 m' s_nblocks = get32 m s_nblocks" by (rule same_meta_nblocks [OF sm])
  have w: "get32 m' a = get32 m a" if "unat a mod 4 = 0" "desc_page m f k a" for a
    using that e by (intro get32_cong) (auto simp: desc_page_def)
  show "get32 m' (f_size f) = get32 m (f_size f)" and ind: "get32 m' (f_indirect f) = get32 m (f_indirect f)"
    using file_words [OF l] by (auto intro!: w simp: desc_page_def)
  show fb: "fblock m' f i = fblock m f i" if "i < k" for i
  proof (cases "i < 10")
    case True
    then show ?thesis using file_words(5) [OF l True] by (auto simp: fblock_def intro!: w simp: desc_page_def)
  next
    case False
    then have "10 < k" "k \<le> 1034" using that l by (auto simp: laid_out_def)
    then have "get32 m (f_indirect f) < 32768" using l good_block_bound [OF _ n] by (auto simp: laid_out_def)
    moreover have "of_nat i - (10 :: u32) = of_nat (i - 10)" using False by (simp add: of_nat_diff)
    ultimately show ?thesis using False that \<open>10 < k\<close> \<open>k \<le> 1034\<close> block_words(1,2) [of "get32 m (f_indirect f)" "i - 10"]
      unfolding fblock_def ind by (auto intro!: w simp: desc_page_def)
  qed
  have gb: "good_block m' b = good_block m b" for b
    using nb same_meta_in_use [OF sm, of b] n by (auto simp: good_block_def intro: less_le_trans)
  have "blk f < 32768" using l n by (auto simp: laid_out_def intro: less_le_trans)
  then have u: "in_use m' (blk f) = in_use m (blk f)" by (rule same_meta_in_use [OF sm])
  have "inj_on (fblock m' f) {..<k} = inj_on (fblock m f) {..<k}" by (rule inj_on_cong) (simp add: fb)
  then show "laid_out m' f k" using l nb gb ind u fb unfolding laid_out_def by simp
qed

end
