(* ===== verification/Jos_Fs_Transfer.thy ===== *)
theory Jos_Fs_Transfer
  imports Jos_Fs_Spec
begin

text \<open>
  Whole-file transfers and the boundary cases of the file system: reading and writing inside a file,
  a full disk, the reuse of a block and a negative offset.
\<close>

text \<open>The two ends of a transfer: byte \<open>i\<close> in the buffer, and byte \<open>pos + i\<close> of the file.\<close>

definition cell :: "bool \<Rightarrow> cmem \<Rightarrow> u32 \<Rightarrow> u32 \<Rightarrow> nat \<Rightarrow> nat \<Rightarrow> u32" where
  "cell inbuf m f buf pos i = (if inbuf then off buf i else fbyte m f (pos + i))"

definition xfer :: "bool \<Rightarrow> u32 \<Rightarrow> u32 \<Rightarrow> u32 \<Rightarrow> fsmem \<Rightarrow> fsmem option" where
  "xfer rd buf a n = (if rd then copy_bytes (unat n) buf a else copy_bytes (unat n) a buf)"

text \<open>A buffer for a transfer: the server has it, and it is apart from the file and its description.\<close>

definition buffer :: "fsmem \<Rightarrow> u32 \<Rightarrow> nat \<Rightarrow> u32 \<Rightarrow> nat \<Rightarrow> bool" where
  "buffer s f k buf n \<longleftrightarrow> unat buf + n \<le> 4294967296 \<and> (\<forall>i < n. reachable_addr s (off buf i) \<and>
     \<not> desc_page (view s) f k (off buf i) \<and> (\<forall>p < k * 4096. off buf i \<noteq> fbyte (view s) f p))"

lemma buffer_props:
  assumes "buffer s f k buf n" "i < n"
  shows "unat (off buf i) = unat buf + i" "p < k * 4096 \<Longrightarrow> off buf i \<noteq> fbyte (view s) f p"
    "reachable_addr s (off buf i)" "plain (off buf i)" "\<not> desc_page (view s) f k (off buf i)"
proof -
  have "unat buf + i < 4294967296" using assms by (simp add: buffer_def)
  then show "unat (off buf i) = unat buf + i" using assms(2) by (simp add: unat_add_32)
  show "p < k * 4096 \<Longrightarrow> off buf i \<noteq> fbyte (view s) f p" "reachable_addr s (off buf i)"
    "\<not> desc_page (view s) f k (off buf i)" "plain (off buf i)"
    using assms by (auto simp: buffer_def desc_page_def plain_def)
qed

text \<open>Memory of the server below the disk map, such as the page requests are received in, will do.\<close>

lemma low_buffer:
  assumes "laid_out (view s) f k" "fs_ready s" "unat buf + n \<le> 268435456" "\<And>i. i < n \<Longrightarrow> present s (PGNUM (off buf i))"
  shows "buffer s f k buf n"
proof -
  have nb: "get32 (view s) s_nblocks \<le> 32768" using assms(2) by (simp add: fs_ready_def)
  have "reachable_addr s (off buf i) \<and> \<not> desc_page (view s) f k (off buf i) \<and> (\<forall>p < k * 4096. off buf i \<noteq> fbyte (view s) f p)"
    if i: "i < n" for i
  proof -
    have "unat buf + i < 268435456" using assms(3) i by simp
    then have ni: "\<not> in_map (off buf i)" by (simp add: unat_in_map unat_add_32)
    have np: "PGNUM (off buf i) \<noteq> PGNUM x" if "in_map x" for x using same_page_block [OF that, of "off buf i"] ni by blast
    have "in_map f" "in_map SUPER" "in_map BITMAP" using assms(1)
      by (simp_all add: laid_out_def in_map_def SUPER_def BITMAP_def DISKMAP_def BLKSIZE_def DISKSIZE_def)
    moreover have "in_map (block_base (get32 (view s) (f_indirect f)))" if "10 < k"
      using that assms(1) good_block_bound [OF _ nb] block_words(3) [where j = 0] by (auto simp: laid_out_def)
    ultimately have "\<not> desc_page (view s) f k (off buf i)" using np by (auto simp: desc_page_def)
    then show ?thesis using assms(4) [OF i] fbyte_props(2) [OF assms(1) nb] ni by (auto simp: reachable_addr_def)
  qed
  with assms(3) show ?thesis by (simp add: buffer_def)
qed

lemma signed_pos:
  fixes pos :: u32
  assumes "unat pos < 2147483648"
  shows "word_of_int (c_quot (sint pos) 4096) = (of_nat (unat pos div 4096) :: u32)"
    "word_of_int (c_rem (sint pos) 4096) = (of_nat (unat pos mod 4096) :: u32)"
proof -
  note s = signed_unat [OF assms]
  then have q: "c_quot (sint pos) 4096 = int (unat pos div 4096)" by (simp add: c_quot_def zdiv_int)
  then show "word_of_int (c_quot (sint pos) 4096) = (of_nat (unat pos div 4096) :: u32)" by simp
  have "c_rem (sint pos) 4096 = sint pos - 4096 * int (unat pos div 4096)" by (simp only: c_rem_def q)
  also have "\<dots> = int (unat pos mod 4096)" unfolding s by (simp add: zmod_int zdiv_int minus_mult_div_eq_mod)
  finally have "c_rem (sint pos) 4096 = int (unat pos mod 4096)" .
  then show "word_of_int (c_rem (sint pos) 4096) = (of_nat (unat pos mod 4096) :: u32)" by simp
qed

lemma fbyte_cong:
  assumes "laid_out m f k" "get32 m s_nblocks \<le> 32768" "\<And>a. desc_page m f k a \<Longrightarrow> m' a = m a" "p < k * 4096"
  shows "fbyte m' f p = fbyte m f p"
  using layout_cong(2) [OF assms(1-3), of "p div 4096"] assms(4) by (simp add: fbyte_def less_mult_imp_div_less)

lemma fbyte_run:
  assumes "p mod 4096 + i < 4096"
  shows "fbyte m f (p + i) = off (block_base (fblock m f (p div 4096)) + of_nat (p mod 4096)) i"
proof -
  have e: "p + i = p div 4096 * 4096 + (p mod 4096 + i)" by simp
  have "(p + i) div 4096 = p div 4096 + (p mod 4096 + i) div 4096" unfolding e by (rule div_mult_self3) simp
  moreover have "(p + i) mod 4096 = (p mod 4096 + i) mod 4096" by (simp add: mod_add_left_eq)
  ultimately have "(p + i) div 4096 = p div 4096" "(p + i) mod 4096 = p mod 4096 + i" using assms by simp_all
  then show ?thesis by (simp add: fbyte_def add.assoc)
qed

text \<open>One round of the loop: \<open>n\<close> bytes that lie in one block of the file.\<close>

lemma xfer_ok:
  assumes r: "fs_ready s" and l: "laid_out (view s) f k" and n: "pos mod 4096 + unat n \<le> 4096" "pos + unat n \<le> k * 4096"
    and b: "buffer s f k buf (unat n)"
  shows "\<exists>s'. xfer rd buf (block_base (fblock (view s) f (pos div 4096)) + of_nat (pos mod 4096)) n s = Some s' \<and> grown s s' \<and>
    (\<forall>i < unat n. view s' (cell rd (view s) f buf pos i) = view s (cell (\<not> rd) (view s) f buf pos i)) \<and>
    (\<forall>a. (\<forall>i < unat n. a \<noteq> cell rd (view s) f buf pos i) \<longrightarrow> view s' a = view s a)"
proof -
  define base where "base = block_base (fblock (view s) f (pos div 4096)) + of_nat (pos mod 4096)"
  have nb: "get32 (view s) s_nblocks \<le> 32768" using r by (simp add: fs_ready_def)
  have e: "fbyte (view s) f (pos + i) = off base i" if "i < unat n" for i
    using fbyte_run [of pos i "view s" f] that n(1) by (simp add: base_def)
  have fb: "reachable_addr s (off base i) \<and> plain (off base i)" if "i < unat n" for i
  proof -
    have lt: "pos + i < k * 4096" using that n(2) by simp
    note p = fbyte_props [OF l nb lt]
    have "reachable_addr s (fbyte (view s) f (pos + i))" using p by (simp add: reachable_addr_def good_block_def)
    moreover have "plain (fbyte (view s) f (pos + i))" using fbyte_not_desc [OF l nb lt] by (simp add: plain_def desc_page_def)
    ultimately show ?thesis using e [OF that] by simp
  qed
  have bp: "reachable_addr s (off buf i) \<and> plain (off buf i)" if "i < unat n" for i
    using buffer_props [OF b that] by simp
  have ap: "off buf i \<noteq> off base j" if "i < unat n" "j < unat n" for i j
    using buffer_props(2) [OF b that(1), of "pos + j"] e [OF that(2)] that(2) n(2) by simp
  show ?thesis
  proof (cases rd)
    case True
    then show ?thesis using copy_bytes_ok [OF r unat_less_32, of n base buf] fb bp ap e
      by (auto simp: xfer_def cell_def base_def [symmetric])
  next
    case False
    then show ?thesis using copy_bytes_ok [OF r unat_less_32, of n buf base] fb bp ap [symmetric] e
      by (auto simp: xfer_def cell_def base_def [symmetric])
  qed
qed

lemma cell_shift: "cell rd m f (buf + of_nat n) (pos + n) i = cell rd m f buf pos (n + i)"
  by (simp add: cell_def add.assoc)

lemma file_cell_inj:
  assumes "laid_out (view s) f k" "fs_ready s" "pos + n \<le> k * 4096" "buffer s f k buf n" "i < n" "j < n"
    "cell rd (view s) f buf pos i = cell rd (view s) f buf pos j"
  shows "i = j"
proof (cases rd)
  case True
  then have "unat (off buf i) = unat (off buf j)" using assms(7) by (simp add: cell_def)
  then show ?thesis using buffer_props(1) [OF assms(4)] assms(5,6) by simp
next
  case False
  have nb: "get32 (view s) s_nblocks \<le> 32768" using assms(2) by (simp add: fs_ready_def)
  have "pos + i = pos + j" using False assms by (intro fbyte_inj [OF assms(1) nb]) (simp_all add: cell_def)
  then show ?thesis by simp
qed

lemma cell_ends:
  assumes "pos + n \<le> k * 4096" "buffer s f k buf n" "i < n" "j < n"
  shows "cell rd (view s) f buf pos i \<noteq> cell (\<not> rd) (view s) f buf pos j"
  using buffer_props(2) [OF assms(2,3), of "pos + j"] buffer_props(2) [OF assms(2,4), of "pos + i"] assms
  by (cases rd) (auto simp: cell_def)

lemma cell_not_desc:
  assumes "laid_out (view s) f k" "fs_ready s" "pos + n \<le> k * 4096" "buffer s f k buf n" "i < n"
  shows "\<not> desc_page (view s) f k (cell rd (view s) f buf pos i)"
proof -
  have nb: "get32 (view s) s_nblocks \<le> 32768" using assms(2) by (simp add: fs_ready_def)
  show ?thesis using fbyte_not_desc [OF assms(1) nb, of "pos + i"] buffer_props(5) [OF assms(4,5)] assms(3,5)
    by (simp add: cell_def)
qed

lemma desc_same_meta: "(\<And>a. desc_page m f k a \<Longrightarrow> m' a = m a) \<Longrightarrow> same_meta m m'"
  by (simp add: same_meta_def desc_page_def)

lemma buffer_tail:
  assumes b: "buffer s f k buf n" and g: "grown s s'" and j: "j \<le> n" and r: "fs_ready s" "laid_out (view s) f k"
    and d: "\<And>a. desc_page (view s) f k a \<Longrightarrow> view s' a = view s a"
  shows "buffer s' f k (buf + of_nat j) (n - j)"
proof -
  have nb: "get32 (view s) s_nblocks \<le> 32768" using r by (simp add: fs_ready_def)
  have u: "unat buf + n \<le> 4294967296" using b by (simp add: buffer_def)
  have dp: "desc_page (view s') f k a = desc_page (view s) f k a" for a
    using layout_cong(5) [OF r(2) nb d] by (simp add: desc_page_def)
  have "reachable_addr s' (off (buf + of_nat j) i) \<and> \<not> desc_page (view s') f k (off (buf + of_nat j) i) \<and>
      (\<forall>p < k * 4096. off (buf + of_nat j) i \<noteq> fbyte (view s') f p)" if "i < n - j" for i
  proof -
    have lt: "j + i < n" using that by simp
    note bp = buffer_props [OF b lt]
    have "reachable_addr s' (off buf (j + i))" by (rule reachable_grown [OF g desc_same_meta [OF d] r(1) bp(3)])
    then show ?thesis using bp(2,5) fbyte_cong [OF r(2) nb d] dp by (simp add: add.assoc)
  qed
  moreover have "unat (buf + of_nat j) + (n - j) \<le> 4294967296"
  proof (cases "j < n")
    case True
    then show ?thesis using buffer_props(1) [OF b True] u by simp
  next
    case False
    then show ?thesis using j unat_less_32 [of "buf + of_nat j"] by simp
  qed
  ultimately show ?thesis by (simp add: buffer_def)
qed

lemma cell_cong:
  assumes "laid_out m f k" "get32 m s_nblocks \<le> 32768" "\<And>a. desc_page m f k a \<Longrightarrow> m' a = m a" "pos + i < k * 4096"
  shows "cell rd m' f buf pos i = cell rd m f buf pos i"
  using fbyte_cong [OF assms] by (simp add: cell_def)

lemma file_loop_ok:
  assumes "fs_ready s" "laid_out (view s) f k" "pos \<le> lim" "unat lim \<le> k * 4096" "buffer s f k buf (unat lim - unat pos)"
  shows "\<exists>s'. file_loop (xfer rd) f buf lim pos s = Some (Inr (), s') \<and> grown s s' \<and>
    (\<forall>i < unat lim - unat pos. view s' (cell rd (view s) f buf (unat pos) i) = view s (cell (\<not> rd) (view s) f buf (unat pos) i)) \<and>
    (\<forall>a. (\<forall>i < unat lim - unat pos. a \<noteq> cell rd (view s) f buf (unat pos) i) \<longrightarrow> view s' a = view s a)"
  using assms
proof (induction "unat lim - unat pos" arbitrary: pos buf s rule: less_induct)
  case less
  note r = less.prems(1) and l = less.prems(2) and lim = less.prems(4)
  show ?case
  proof (cases "pos < lim")
    case False
    then have "pos = lim" using less.prems(3) by simp
    then show ?thesis using r by (subst file_loop.simps) (simp add: grown_refl)
  next
    case True
    define p where "p = unat pos"
    define n where "n = min (BLKSIZE - of_nat (p mod 4096)) (lim - pos)"
    have lp: "unat (lim - pos) = unat lim - p" using less.prems(3) by (simp add: unat_sub_no_wrap p_def)
    have m: "p mod 4096 < 4096" by simp
    have "unat (BLKSIZE - of_nat (p mod 4096)) = 4096 - p mod 4096"
    proof -
      have "of_nat (p mod 4096) \<le> BLKSIZE" using m by (simp add: BLKSIZE_def word_le_nat_alt)
      from unat_sub_no_wrap [OF this] m show ?thesis by (simp add: BLKSIZE_def)
    qed
    then have n: "unat n = min (4096 - p mod 4096) (unat lim - p)" by (simp add: n_def min_def word_le_nat_alt lp)
    have pl: "p < unat lim" using True by (simp add: word_less_nat_alt p_def)
    then have n0: "0 < unat n" "p mod 4096 + unat n \<le> 4096" "p + unat n \<le> unat lim" using n m by linarith+
    have k: "k \<le> 1034" using l by (simp add: laid_out_def)
    then have small: "unat lim < 2147483648" using lim by linarith
    then have q: "word_of_int (c_quot (sint pos) 4096) = (of_nat (p div 4096) :: u32)"
      "word_of_int (c_rem (sint pos) 4096) = (of_nat (p mod 4096) :: u32)"
      using signed_pos [of pos] pl by (simp_all add: p_def)
    have pk: "p div 4096 < k" using pl lim by (simp add: less_mult_imp_div_less)
    obtain t where t: "file_get_block f (of_nat (p div 4096)) s = Some (Inr (block_base (fblock (view s) f (p div 4096))), t)"
      "view t = view s" "grown s t" using get_block_ok [OF r l pk] by blast
    have "buffer t f k (buf + of_nat 0) (unat lim - p - 0)"
      using less.prems(5) t(2) by (intro buffer_tail [OF _ t(3) _ r l]) (simp_all add: p_def)
    then have bt: "buffer t f k buf (unat lim - p)" by simp
    have "unat n \<le> unat lim - p" using n by simp
    then have bn: "buffer t f k buf (unat n)" using bt unfolding buffer_def by (meson add_left_mono order.strict_trans2 order_trans)
    have lt: "laid_out (view t) f k" using l t(2) by simp
    obtain u where u: "xfer rd buf (block_base (fblock (view s) f (p div 4096)) + of_nat (p mod 4096)) n t = Some u" "grown t u"
      "\<forall>i < unat n. view u (cell rd (view s) f buf p i) = view s (cell (\<not> rd) (view s) f buf p i)"
      "\<forall>a. (\<forall>i < unat n. a \<noteq> cell rd (view s) f buf p i) \<longrightarrow> view u a = view s a"
      using xfer_ok [OF grown_ready [OF t(3)] lt n0(2) _ bn, of rd] n0(3) lim t(2) by auto
    have nb: "get32 (view s) s_nblocks \<le> 32768" using r by (simp add: fs_ready_def)
    define N where "N = unat lim - p"
    have N: "p + N \<le> k * 4096" "unat n \<le> N" "buffer s f k buf N" using lim n0(3) pl less.prems(5) by (simp_all add: N_def p_def)
    have d: "view u a = view s a" if "desc_page (view s) f k a" for a
    proof -
      have "a \<noteq> cell rd (view s) f buf p i" if "i < unat n" for i
        using cell_not_desc [OF l r N(1,3), of i rd] \<open>desc_page (view s) f k a\<close> that N(2) by auto
      then show ?thesis using u(4) by blast
    qed
    have lu: "laid_out (view u) f k" by (rule layout_cong(1) [OF l nb d])
    have step: "unat (pos + n) = p + unat n" "pos + n \<le> lim"
      using n0(3) unat_less_32 [of lim] by (simp_all add: unat_add_32 word_le_nat_alt p_def)
    have "buffer u f k (buf + of_nat (unat n)) (N - unat n)"
      by (rule buffer_tail [OF N(3) grown_trans [OF t(3) u(2)] N(2) r l d])
    then have bu: "buffer u f k (buf + n) (unat lim - unat (pos + n))" using step by (simp add: N_def)
    have less': "unat lim - unat (pos + n) < unat lim - unat pos" using step n0 pl by (simp add: p_def)
    obtain s' where s': "file_loop (xfer rd) f (buf + n) lim (pos + n) u = Some (Inr (), s')" "grown u s'"
      "\<forall>i < N - unat n. view s' (cell rd (view u) f (buf + n) (p + unat n) i) = view u (cell (\<not> rd) (view u) f (buf + n) (p + unat n) i)"
      "\<forall>a. (\<forall>i < N - unat n. a \<noteq> cell rd (view u) f (buf + n) (p + unat n) i) \<longrightarrow> view s' a = view u a"
      using less.hyps [OF less' grown_ready [OF u(2)] lu step(2) lim bu] step(1) by (auto simp: N_def)
    have sh: "cell b (view u) f (buf + n) (p + unat n) i = cell b (view s) f buf p (unat n + i)" if "i < N - unat n" for b i
      using cell_cong [OF l nb d, of "p + unat n" i b "buf + n"] cell_shift [of b "view s" f buf "unat n" p i] that N(1,2) by simp
    have e: "file_loop (xfer rd) f buf lim pos s = Some (Inr (), s')"
      using True t(1) u(1) s'(1) q by (subst file_loop.simps) (simp add: Let_def n_def)
    have ends: "cell rd (view s) f buf p i \<noteq> cell (\<not> rd) (view s) f buf p j" if "i < N" "j < N" for i j
      by (rule cell_ends [OF N(1,3) that])
    have inj: "i = j" if "cell rd (view s) f buf p i = cell rd (view s) f buf p j" "i < N" "j < N" for i j
      by (rule file_cell_inj [OF l r N(1,3) that(2,3,1)])
    have rest: "view s' a = view u a" if "\<And>j. \<lbrakk>unat n \<le> j; j < N\<rbrakk> \<Longrightarrow> a \<noteq> cell rd (view s) f buf p j" for a
    proof -
      have "a \<noteq> cell rd (view u) f (buf + n) (p + unat n) i" if "i < N - unat n" for i
        using sh [OF that, of rd] \<open>\<And>j. \<lbrakk>unat n \<le> j; j < N\<rbrakk> \<Longrightarrow> a \<noteq> cell rd (view s) f buf p j\<close> [of "unat n + i"] that by simp
      then show ?thesis using s'(4) by blast
    qed
    have "view s' (cell rd (view s) f buf p i) = view s (cell (\<not> rd) (view s) f buf p i)" if "i < N" for i
    proof (cases "i < unat n")
      case True
      have "cell rd (view s) f buf p i \<noteq> cell rd (view s) f buf p j" if "unat n \<le> j" "j < N" for j
        using inj [of i j] \<open>i < N\<close> True that by auto
      then show ?thesis using rest u(3) True by metis
    next
      case False
      define j where "j = i - unat n"
      have j: "i = unat n + j" "j < N - unat n" using False that by (simp_all add: j_def)
      have "view s' (cell rd (view u) f (buf + n) (p + unat n) j) = view u (cell (\<not> rd) (view u) f (buf + n) (p + unat n) j)"
        using s'(3) j(2) by blast
      then have "view s' (cell rd (view s) f buf p i) = view u (cell (\<not> rd) (view s) f buf p i)" unfolding sh [OF j(2)] j(1) .
      moreover have "\<forall>j < unat n. cell (\<not> rd) (view s) f buf p i \<noteq> cell rd (view s) f buf p j"
        using ends [of _ i] that N(2) by (metis order.strict_trans2)
      ultimately show ?thesis using u(4) by simp
    qed
    moreover have "view s' a = view s a" if "\<forall>i < N. a \<noteq> cell rd (view s) f buf p i" for a
      using rest [of a] u(4) that N(2) by (metis order.strict_trans2)
    moreover have "grown s s'" by (rule grown_trans [OF t(3) grown_trans [OF u(2) s'(2)]])
    ultimately show ?thesis using e unfolding p_def [symmetric] N_def [symmetric] by blast
  qed
qed

text \<open>
  Reading and writing inside a file: the buffer and the bytes of the file become equal, nothing else
  in memory changes, and the whole count is transferred.
\<close>

lemma file_write_ok:
  assumes r: "fs_ready s" and l: "laid_out (view s) f k" and sz: "unat offset + unat count \<le> unat (get32 (view s) (f_size f))"
    "unat (get32 (view s) (f_size f)) \<le> k * 4096" and b: "buffer s f k buf (unat count)"
  shows "\<exists>s'. file_write f buf count offset s = Some (Inr count, s') \<and> grown s s' \<and>
    (\<forall>i < unat count. view s' (fbyte (view s) f (unat offset + i)) = view s (off buf i)) \<and>
    (\<forall>a. (\<forall>i < unat count. a \<noteq> fbyte (view s) f (unat offset + i)) \<longrightarrow> view s' a = view s a)"
proof -
  obtain t where t: "ld32 (f_size f) s = Some (get32 (view s) (f_size f), t)" "view t = view s" "grown s t"
    using ld32_ok [OF r file_reachable [OF l file_words(1) [OF l]] file_words(2) [OF l]] by blast
  have u: "unat (offset + count) = unat offset + unat count"
    using sz(1) unat_less_32 [of "get32 (view s) (f_size f)"] by (intro unat_add_no_wrap) simp
  have le: "\<not> get32 (view s) (f_size f) < offset + count" "offset \<le> offset + count"
    using sz(1) by (simp_all add: word_less_nat_alt word_le_nat_alt u)
  have "buffer t f k (buf + of_nat 0) (unat count - 0)" using t(2) by (intro buffer_tail [OF b t(3) _ r l]) simp_all
  then have bt: "buffer t f k buf (unat (offset + count) - unat offset)" by (simp add: u)
  have x: "(\<lambda>buf a n. copy_bytes (unat n) a buf) = xfer False" by (simp add: xfer_def fun_eq_iff)
  have lt: "laid_out (view t) f k" using l t(2) by simp
  have lim: "unat (offset + count) \<le> k * 4096" using sz u by simp
  obtain s' where "file_loop (xfer False) f buf (offset + count) offset t = Some (Inr (), s')" "grown t s'"
    "\<forall>i < unat count. view s' (cell False (view s) f buf (unat offset) i) = view s (cell True (view s) f buf (unat offset) i)"
    "\<forall>a. (\<forall>i < unat count. a \<noteq> cell False (view s) f buf (unat offset) i) \<longrightarrow> view s' a = view s a"
    using file_loop_ok [OF grown_ready [OF t(3)] lt le(2) lim bt, where rd = False] t(2) u by auto
  then show ?thesis using t(1) le(1) grown_trans [OF t(3)] by (auto simp: file_write_def x cell_def)
qed

lemma file_read_ok:
  assumes r: "fs_ready s" and l: "laid_out (view s) f k" and sz: "unat offset + unat count \<le> unat (get32 (view s) (f_size f))"
    "unat (get32 (view s) (f_size f)) \<le> k * 4096" "0 < count" and b: "buffer s f k buf (unat count)"
  shows "\<exists>s'. file_read f buf count offset s = Some (Inr count, s') \<and> grown s s' \<and>
    (\<forall>i < unat count. view s' (off buf i) = view s (fbyte (view s) f (unat offset + i))) \<and>
    (\<forall>a. (\<forall>i < unat count. a \<noteq> off buf i) \<longrightarrow> view s' a = view s a)"
proof -
  let ?sz = "get32 (view s) (f_size f)"
  obtain t where t: "ld32 (f_size f) s = Some (?sz, t)" "view t = view s" "grown s t"
    using ld32_ok [OF r file_reachable [OF l file_words(1) [OF l]] file_words(2) [OF l]] by blast
  have k: "k \<le> 1034" using l by (simp add: laid_out_def)
  have c0: "0 < unat count" using sz(3) by (simp add: word_less_nat_alt)
  have u: "unat (offset + count) = unat offset + unat count"
    using sz(1) unat_less_32 [of ?sz] by (intro unat_add_no_wrap) simp
  have "unat offset < unat ?sz" "unat ?sz < 2147483648" using sz k c0 by linarith+
  then have "sint offset < sint ?sz" using signed_unat [of offset] signed_unat [of ?sz] by (simp add: word_less_nat_alt flip: word_less_def)
  moreover have "unat (?sz - offset) = unat ?sz - unat offset" using sz(1) by (intro unat_sub_no_wrap) (simp add: word_le_nat_alt)
  then have "unat count \<le> unat (?sz - offset)" using sz(1) by linarith
  then have "min count (?sz - offset) = count" by (intro min_absorb1) (simp add: word_le_nat_alt)
  moreover have le: "offset \<le> offset + count" by (simp add: word_le_nat_alt u)
  have "buffer t f k (buf + of_nat 0) (unat count - 0)" using t(2) by (intro buffer_tail [OF b t(3) _ r l]) simp_all
  then have bt: "buffer t f k buf (unat (offset + count) - unat offset)" by (simp add: u)
  have x: "(\<lambda>buf a n. copy_bytes (unat n) buf a) = xfer True" by (simp add: xfer_def fun_eq_iff)
  have lt: "laid_out (view t) f k" using l t(2) by simp
  have lim: "unat (offset + count) \<le> k * 4096" using sz u by simp
  obtain s' where "file_loop (xfer True) f buf (offset + count) offset t = Some (Inr (), s')" "grown t s'"
    "\<forall>i < unat count. view s' (cell True (view s) f buf (unat offset) i) = view s (cell False (view s) f buf (unat offset) i)"
    "\<forall>a. (\<forall>i < unat count. a \<noteq> cell True (view s) f buf (unat offset) i) \<longrightarrow> view s' a = view s a"
    using file_loop_ok [OF grown_ready [OF t(3)] lt le lim bt, where rd = True] t(2) u by auto
  ultimately show ?thesis using t(1) grown_trans [OF t(3)] by (auto simp: file_read_def x cell_def not_le)
qed

section \<open>Running out of blocks\<close>

lemma alloc_block_full:
  assumes "fs_ready s" "1 \<le> nblocks s" "\<And>c. \<lbrakk>1 \<le> c; c < nblocks s\<rbrakk> \<Longrightarrow> in_use (view s) c"
  shows "alloc_block s = Some (Inl E_NO_DISK, s)"
  using alloc_block_loop_ok [OF assms(1,2)] assms(3) unfolding alloc_block_def by blast

text \<open>The file at \<open>f\<close> can be accessed; its blocks do not matter.\<close>

lemma file_words_reachable:
  assumes "laid_out (view s) f k" "PGNUM a = PGNUM f" "grown s t" "same_meta (view s) (view t)" "fs_ready s"
  shows "reachable_addr t a"
  by (rule reachable_grown [OF assms(3,4,5) file_reachable [OF assms(1,2)]])

lemma f_indirect_word: "laid_out m f k \<Longrightarrow> f_indirect f \<noteq> s_nblocks"
proof
  assume l: "laid_out m f k" and e: "f_indirect f = s_nblocks"
  have "PGNUM f = PGNUM SUPER" using file_words(3) [OF l] e by (simp add: PGNUM_super)
  then have "unat f div 4096 = 65537" using PGNUM_super(5) by (simp add: word_eq_unat unat_PGNUM)
  then have "268439552 \<le> unat f" by linarith
  moreover have "unat f mod 4096 + 176 < 4096" using l by (simp add: laid_out_def)
  from page_offset(2) [OF this] e have "unat f + 176 = 268439556" by (simp add: f_indirect_def s_nblocks_def SUPER_def DISKMAP_def BLKSIZE_def)
  ultimately show False by simp
qed

text \<open>
  With no block left, a file that needs an indirect block brings the server down: the error code ends
  up as a block number, which \<open>diskaddr\<close> does not accept.
\<close>

lemma walk_full_panics:
  assumes r: "fs_ready s" and l: "laid_out (view s) f k" and i: "NDIRECT \<le> filebno" "filebno < NDIRECT + NINDIRECT"
    and z: "get32 (view s) (f_indirect f) = 0" and full: "\<And>c. \<lbrakk>1 \<le> c; c < nblocks s\<rbrakk> \<Longrightarrow> in_use (view s) c"
  shows "file_block_walk f filebno True s = None"
proof -
  have n1: "1 \<le> nblocks s" using l by (auto simp: laid_out_def word_le_nat_alt word_less_nat_alt)
  note fi = file_words(3,4) [OF l]
  obtain t where t: "ld32 (f_indirect f) s = Some (0, t)" "view t = view s" "grown s t"
    using ld32_ok [OF r file_reachable [OF l fi(1)] fi(2)] z by auto
  have al: "alloc_block t = Some (Inl E_NO_DISK, t)"
    using alloc_block_full [OF grown_ready [OF t(3)]] n1 full t(2) by simp
  define v where "v = (- 9 :: u32)"
  have lt: "laid_out (view t) f k" using l t(2) by simp
  have ft: "reachable_addr t (f_indirect f)" by (rule file_reachable [OF lt fi(1)])
  obtain u where u: "st32 (f_indirect f) v t = Some u" "view u = store32 (f_indirect f) v (view t)" "grown t u"
    using st32_ok [OF grown_ready [OF t(3)] ft fi(2) f_indirect_word [OF l]] by blast
  have pu: "present u (PGNUM (f_indirect f))"
    using u(1) touch_ok [OF grown_ready [OF t(3)] ft] by (auto simp: st32_def Option.bind_eq_Some_conv)
  have "ld32 (f_indirect f) u = Some (get32 (view u) (f_indirect f), u)" by (rule ld32_present [OF pu fi(2)])
  then have lu: "ld32 (f_indirect f) u = Some (v, u)" by (simp add: u(2) get32_store32)
  have "nblocks u \<le> 32768" using grown_ready [OF u(3)] by (simp add: fs_ready_def)
  moreover have "(32768 :: u32) \<le> v" by (simp add: v_def)
  ultimately have "\<not> v < nblocks u" by (meson leD order_trans)
  then have "diskaddr v u = None"
    using ld_nblocks [OF grown_ready [OF u(3)]] grown_ready [OF u(3)] by (simp add: diskaddr_def fs_ready_def)
  then show ?thesis using t(1) al u(1) lu i
    by (simp add: file_block_walk_def int_result_def not_le not_less v_def)
qed

section \<open>A new block keeps its old contents\<close>

lemma get_block_new:
  assumes r: "fs_ready s" and l: "laid_out (view s) f k" and i: "i < 10" and z: "fblock (view s) f i = 0"
    and b: "1 \<le> b" "b < nblocks s" "\<not> in_use (view s) b" "\<And>c. \<lbrakk>1 \<le> c; c < b\<rbrakk> \<Longrightarrow> in_use (view s) c"
  shows "\<exists>s'. file_get_block f (of_nat i) s = Some (Inr (block_base b), s') \<and>
    view s' = store32 (f_direct f + 4 * of_nat i) b (take_block b (view s)) \<and> grown s s'"
proof -
  define slot where "slot = f_direct f + 4 * of_nat i"
  have ui: "unat (of_nat i :: u32) = i" using i by simp
  have w: "file_block_walk f (of_nat i) True s = Some (Inr slot, s)"
    using i by (simp add: file_block_walk_def NDIRECT_def NINDIRECT_def BLKSIZE_def word_le_nat_alt word_less_nat_alt ui slot_def)
  have sl: "PGNUM slot = PGNUM f" "unat slot mod 4 = 0" using file_words(5) [OF l i] by (simp_all add: slot_def)
  have zs: "get32 (view s) slot = 0" using z i by (simp add: fblock_def slot_def)
  obtain t where t: "ld32 slot s = Some (0, t)" "view t = view s" "grown s t"
    using ld32_ok [OF r file_reachable [OF l sl(1)] sl(2)] zs by auto
  have n1: "1 \<le> nblocks t" using b(1,2) t(2) by (simp add: word_le_nat_alt word_less_nat_alt)
  from alloc_block_loop_ok [OF grown_ready [OF t(3)] n1] obtain b' u where
    u: "alloc_block t = Some (Inr b', u)" "1 \<le> b'" "b' < nblocks s" "\<not> in_use (view s) b'"
      "\<forall>c. 1 \<le> c \<longrightarrow> c < b' \<longrightarrow> in_use (view s) c" "view u = take_block b' (view s)" "grown t u"
    unfolding alloc_block_def t(2) using b by blast
  have "b' = b" using u(2-5) b by (metis linorder_neqE)
  note u = u [unfolded this]
  have b32: "b < 32768" by (rule nblocks_bound [OF r b(2)])
  have sn: "slot \<noteq> s_nblocks"
  proof
    assume e: "slot = s_nblocks"
    have "PGNUM f = PGNUM SUPER" using sl(1) e by (simp add: PGNUM_super)
    then have "unat f div 4096 = 65537" using PGNUM_super(5) by (simp add: word_eq_unat unat_PGNUM)
    then have "268439552 \<le> unat f" by linarith
    moreover have "unat f mod 4096 + (136 + 4 * i) < 4096" using l i by (simp add: laid_out_def)
    moreover have "off f (136 + 4 * i) = s_nblocks" using e by (simp add: slot_def f_direct_def add.assoc)
    moreover have "unat s_nblocks = 268439556" by (simp add: s_nblocks_def SUPER_def DISKMAP_def BLKSIZE_def)
    ultimately have "268439552 \<le> unat f" "unat f + (136 + 4 * i) = 268439556" using page_offset(2) [of f "136 + 4 * i"] by simp_all
    then show False by simp
  qed
  have nu: "nblocks u = nblocks s" using u(6) bitmap_word_page(2) [OF b32] bitmap_word_neq [OF b32]
    by (simp add: take_block_def get32_store32_other super_aligned)
  have iu: "in_use (view u) c" if "in_use (view s) c" "c < 32768" for c
    using that take_block_in_use [OF b32 that(2)] u(6) by simp
  have fl: "in_map slot" "blk slot = blk f" using same_page_block [OF _ sl(1)] l by (auto simp: laid_out_def)
  have "reachable_addr u slot"
    using l fl nu iu [of "blk f"] nblocks_bound [OF r, of "blk f"] by (simp add: reachable_addr_def laid_out_def)
  then obtain w' where w': "st32 slot b u = Some w'" "view w' = store32 slot b (view u)" "grown u w'"
    using st32_ok [OF grown_ready [OF u(7)] _ sl(2) sn] by blast
  have p: "present w' (PGNUM slot)"
    using w'(1) touch_ok [OF grown_ready [OF u(7)] \<open>reachable_addr u slot\<close>] by (auto simp: st32_def Option.bind_eq_Some_conv)
  have lw: "ld32 slot w' = Some (b, w')" using ld32_present [OF p sl(2)] w'(2) by (simp add: get32_store32)
  have "nblocks w' = nblocks s" using w'(2) nu get32_store32_other [OF sl(2) super_aligned(1) sn] by simp
  then have "diskaddr b w' = Some (block_base b, w')"
    using diskaddr_ok [OF grown_ready [OF w'(3)], of b] b(1,2) by (cases "b = 0") (auto simp: block_base_def)
  then show ?thesis
    using w t u(1,6) w' lw grown_trans [OF t(3) grown_trans [OF u(7) w'(3)]]
    by (auto simp: file_get_block_def slot_def [symmetric])
qed

section \<open>Negative offsets\<close>

text \<open>
  A negative offset passes the test against the size. The quotient by the block size is rounded
  towards zero, so block 0 of the file is taken, and the negative remainder leads to bytes in front
  of it.
\<close>

lemma sint_neg_word:
  assumes "1 \<le> n" "n \<le> 4095"
  shows "sint (- of_nat n :: u32) = - int n" "unat (- of_nat n :: u32) = 4294967296 - n"
proof -
  have "(- of_nat n :: u32) = word_of_int (- int n)" by simp
  then show s: "sint (- of_nat n :: u32) = - int n"
    using assms by (simp only: signed_of_int) (simp add: signed_take_bit_int_eq_self)
  have "of_nat n + of_nat (4294967296 - n) = (of_nat 4294967296 :: u32)" using assms by (simp only: flip: of_nat_add) simp
  also have "\<dots> = 0" by simp
  finally have "(- of_nat n :: u32) = of_nat (4294967296 - n)" by (simp only: neg_eq_iff_add_eq_0)
  then show "unat (- of_nat n :: u32) = 4294967296 - n" using assms by (simp only: unat_of_nat_32)
qed

lemma read_negative:
  assumes r: "fs_ready s" and l: "laid_out (view s) f k" "0 < k" and n: "1 \<le> c" "c < n" "n \<le> 4095"
    and sz: "unat (get32 (view s) (f_size f)) < 2147483648"
    and prev: "\<And>i. i < c \<Longrightarrow> reachable_addr s (block_base (fblock (view s) f 0) - of_nat n + of_nat i)"
    and b: "unat buf + c \<le> 268435456" "\<And>i. i < c \<Longrightarrow> present s (PGNUM (off buf i))"
  shows "\<exists>s'. file_read f buf (of_nat c) (- of_nat n) s = Some (Inr (of_nat c), s') \<and>
    (\<forall>i < c. view s' (off buf i) = view s (block_base (fblock (view s) f 0) - of_nat n + of_nat i))"
proof -
  let ?sz = "get32 (view s) (f_size f)" and ?o = "- of_nat n :: u32" and ?b = "block_base (fblock (view s) f 0)"
  have o: "sint ?o = - int n" "unat ?o = 4294967296 - n" using sint_neg_word [of n] n by simp_all
  have uc: "unat (of_nat c :: u32) = c" using n by simp
  obtain t where t: "ld32 (f_size f) s = Some (?sz, t)" "view t = view s" "grown s t"
    using ld32_ok [OF r file_reachable [OF l(1) file_words(1) [OF l(1)]] file_words(2) [OF l(1)]] by blast
  have lt: "laid_out (view t) f k" using l t(2) by simp
  have "\<not> sint ?sz \<le> sint ?o" unfolding signed_unat [OF sz] o using n by linarith
  have "unat (?sz - ?o) = unat ?sz + n"
  proof -
    have "?sz - ?o = ?sz + of_nat n" by simp
    then show ?thesis using sz n by (simp add: unat_add_32)
  qed
  then have mn: "min (of_nat c) (?sz - ?o) = of_nat c" using n uc by (intro min_absorb1) (simp add: word_le_nat_alt)
  have lim: "unat (?o + of_nat c) = 4294967296 - n + c" using n o(2) uc by (subst unat_add_no_wrap) simp_all
  then have lt': "?o < ?o + of_nat c" using n by (simp only: word_less_nat_alt o)
  have q: "word_of_int (c_quot (sint ?o) 4096) = (of_nat 0 :: u32)" "word_of_int (c_rem (sint ?o) 4096) = ?o"
    using n unfolding o by (simp_all add: c_quot_def c_rem_def)
  obtain u where u: "file_get_block f (of_nat 0) t = Some (Inr ?b, u)" "view u = view t" "grown t u"
    using get_block_ok [OF grown_ready [OF t(3)] lt l(2)] t(2) by auto
  note g = grown_trans [OF t(3) u(3)]
  have sm: "same_meta (view s) (view u)" using t(2) u(2) by (simp add: same_meta_def)
  have bo: "unat (BLKSIZE - ?o) = 4096 + n"
  proof -
    have "BLKSIZE - ?o = BLKSIZE + of_nat n" by simp
    then show ?thesis using n by (simp add: unat_add_32 BLKSIZE_def)
  qed
  have bn: "min (BLKSIZE - ?o) (?o + of_nat c - ?o) = of_nat c"
  proof -
    have "of_nat c \<le> BLKSIZE - ?o" unfolding word_le_nat_alt bo uc using n by linarith
    then have "min (BLKSIZE - ?o) (of_nat c) = of_nat c" by (rule min_absorb2)
    then show ?thesis by simp
  qed
  have buf: "plain (off buf i)" "\<not> in_map (off buf i)" "reachable_addr u (off buf i)" if "i < c" for i
  proof -
    have "buffer s f k buf c" by (rule low_buffer [OF l(1) r b])
    from buffer_props [OF this that] show "plain (off buf i)" "reachable_addr u (off buf i)"
      using reachable_grown [OF g sm r] by simp_all
    have "unat buf + i < 268435456" using b(1) that by simp
    then show "\<not> in_map (off buf i)" by (simp add: unat_in_map unat_add_32)
  qed
  have "\<exists>s'. copy_bytes c buf (?b + ?o) u = Some s' \<and> grown u s' \<and>
      (\<forall>i < c. view s' (off buf i) = view u (off (?b + ?o) i)) \<and> (\<forall>a. (\<forall>i < c. a \<noteq> off buf i) \<longrightarrow> view s' a = view u a)"
  proof (rule copy_bytes_ok [OF grown_ready [OF u(3)]])
    show "c < 4294967296" using n by simp
    show "reachable_addr u (off (?b + ?o) i)" if "i < c" for i using reachable_grown [OF g sm r prev [OF that]] by simp
    show "reachable_addr u (off buf i) \<and> plain (off buf i)" if "i < c" for i using buf [OF that] by simp
    show "off buf i \<noteq> off (?b + ?o) j" if "i < c" "j < c" for i j
    proof -
      have nb: "get32 (view s) s_nblocks \<le> 32768" using r by (simp add: fs_ready_def)
      have g0: "fblock (view s) f 0 < 32768" "2 < unat (fblock (view s) f 0)"
        using good_block_bound [OF _ nb, of "fblock (view s) f 0"] l by (auto simp: laid_out_def)
      have ub: "unat ?b = 268435456 + unat (fblock (view s) f 0) * 4096" using block_addr0(1) [OF g0(1)] by (simp add: block_base_def)
      have "of_nat n \<le> ?b" using n ub by (simp add: word_le_nat_alt)
      then have "unat (?b - of_nat n) = unat ?b - n" using n by (simp add: unat_sub_no_wrap)
      moreover have "unat (fblock (view s) f 0) < 32768" using g0(1) by (simp add: word_less_nat_alt)
      ultimately have "unat (?b - of_nat n + of_nat j) = unat ?b - n + j" using n that ub by (subst unat_add_no_wrap) simp_all
      then have "in_map (off (?b + ?o) j)" using ub g0 n that \<open>unat (fblock (view s) f 0) < 32768\<close> by (simp add: unat_in_map) linarith
      with buf(2) [OF that(1)] show ?thesis by metis
    qed
  qed
  then obtain s' where s': "copy_bytes c buf (?b + ?o) u = Some s'" "\<forall>i < c. view s' (off buf i) = view u (off (?b + ?o) i)" by blast
  have "file_loop (\<lambda>buf a n. copy_bytes (unat n) buf a) f buf (?o + of_nat c) ?o t = Some (Inr (), s')"
    using lt' u(1) q bn s'(1) uc by (subst file_loop.simps) (simp add: Let_def, subst file_loop.simps, simp)
  then show ?thesis using t s'(2) u(2) mn \<open>\<not> sint ?sz \<le> sint ?o\<close> by (auto simp: file_read_def Let_def)
qed

end
