(* ===== verification/Jos_Fs_Properties.thy ===== *)
theory Jos_Fs_Properties
  imports Jos_Fs_Transfer
begin

text \<open>
  Properties of the file server's block cache and file system, with a small disk of 16 blocks as the
  example: block 3 holds a directory entry whose file has the blocks 4 and 5, block 6 is free.
\<close>

definition ex_fs :: fsmem where
  "ex_fs = \<lparr>fmem = (\<lambda>_. 0)(0x10001004 := 16, 0x10002000 := 64, 0x10003081 := 0x20, 0x10003088 := 4, 0x1000308C := 5,
       0x10004000 := 7, 0x0FFFF000 := 42, 0x10006010 := 99),
     present = (\<lambda>p. p \<noteq> 0x10005), dirty = (\<lambda>_. True), disk = (\<lambda>_ _. 0), frames = 1, super_set = True, bitmap_set = True\<rparr>"

lemma view_ex_fs: "view ex_fs = fmem ex_fs"
proof
  fix a
  show "view ex_fs a = fmem ex_fs a"
  proof (cases "PGNUM a = 0x10005")
    case True
    then have "unat a div 4096 = 65541" by (simp add: word_eq_unat unat_PGNUM)
    then have "268455936 \<le> unat a" "unat a < 268460032" by linarith+
    then have "fmem ex_fs a = 0" by (auto simp: ex_fs_def)
    then show ?thesis by (simp add: view_def disk_byte_def Let_def) (simp add: ex_fs_def)
  next
    case False
    then show ?thesis by (simp add: view_def ex_fs_def)
  qed
qed

lemma ex_fs_nblocks: "get32 (view ex_fs) s_nblocks = 16"
  by (simp add: view_ex_fs get32_def s_nblocks_def SUPER_def DISKMAP_def BLKSIZE_def) (simp add: ex_fs_def)

lemma ex_fs_ready: "fs_ready ex_fs"
proof -
  have "absent ex_fs = {0x10005}" by (auto simp: absent_def ex_fs_def)
  moreover have "frames ex_fs = 1" "super_set ex_fs" "bitmap_set ex_fs" "present ex_fs (PGNUM SUPER)" "present ex_fs (PGNUM BITMAP)"
    by (simp_all add: ex_fs_def PGNUM_super)
  moreover have "clean ex_fs" by (simp add: clean_def ex_fs_def)
  ultimately show ?thesis by (simp add: fs_ready_def ex_fs_nblocks)
qed

lemma ex_fs_words:
  "get32 (view ex_fs) (f_size 0x10003000) = 8192" "get32 (view ex_fs) (f_indirect 0x10003000) = 0"
  "fblock (view ex_fs) 0x10003000 0 = 4" "fblock (view ex_fs) 0x10003000 1 = 5" "fblock (view ex_fs) 0x10003000 2 = 0"
  "get32 (view ex_fs) BITMAP = 64"
  by (simp_all add: view_ex_fs fblock_def get32_def f_size_def f_indirect_def f_direct_def BITMAP_def DISKMAP_def BLKSIZE_def)
    (simp_all add: ex_fs_def)

lemma ex_fs_in_use: "b < 16 \<Longrightarrow> in_use (view ex_fs) b \<longleftrightarrow> b \<noteq> 6"
proof -
  assume b: "b < 16"
  then have u: "unat b < 16" by (simp add: word_less_nat_alt)
  then have "b div 32 = 0" "unat (b mod 32) = unat b" by (simp_all add: word_eq_unat unat_div unat_mod)
  then have "in_use (view ex_fs) b \<longleftrightarrow> \<not> bit (64 :: u32) (unat b)" by (simp add: in_use_def bitmap_word_def ex_fs_words(6))
  also have "\<dots> \<longleftrightarrow> unat b \<noteq> 6"
  proof -
    have "(64 :: u32) = 2 ^ 6" by simp
    then have "bit (64 :: u32) (unat b) \<longleftrightarrow> unat b = 6" using u by (simp only: bit_exp_iff) auto
    then show ?thesis by simp
  qed
  finally show ?thesis by (simp add: word_eq_unat)
qed

lemma ex_fs_laid_out: "laid_out (view ex_fs) 0x10003000 2"
proof -
  have i: "i < 2 \<Longrightarrow> i = 0 \<or> i = 1" for i :: nat by auto
  have "good_block (view ex_fs) 4" "good_block (view ex_fs) 5" by (simp_all add: good_block_def ex_fs_nblocks ex_fs_in_use)
  then show ?thesis
    by (auto simp: laid_out_def ex_fs_nblocks ex_fs_in_use ex_fs_words ex_fs_words(4) [simplified] inj_on_def in_map_def blk_def DISKMAP_def DISKSIZE_def BLKSIZE_def
      dest!: i)
qed

text \<open>
  C9. The block cache is transparent: a byte read through it is the byte of \<open>view\<close>, whether or not the
  block was present, and storing a byte outside the super block and the bitmap updates just that byte
  of \<open>view\<close>. Both succeed for every block in use and keep the cache consistent.
\<close>

theorem cache_refines:
  assumes "fs_ready s" "reachable_addr s a" "PGNUM a \<noteq> PGNUM SUPER" "PGNUM a \<noteq> PGNUM BITMAP"
  shows "(\<exists>s'. ld8 a s = Some (view s a, s') \<and> view s' = view s \<and> fs_ready s') \<and>
    (\<exists>s'. st8 a v s = Some s' \<and> view s' = (view s)(a := v) \<and> fs_ready s')"
  using ld8_ok [OF assms(1,2)] st8_ok [OF assms(1,2) plain_not_nblocks, of v] assms(3,4) by (auto simp: plain_def grown_def)

theorem cache_refines_witness:
  "\<not> present ex_fs (PGNUM 0x10005000) \<and> (\<exists>s'. ld8 0x10005000 ex_fs = Some (0, s') \<and> fs_ready s')"
proof -
  have p: "\<not> present ex_fs (PGNUM 0x10005000)" by (simp add: ex_fs_def PGNUM_def)
  have r: "reachable_addr ex_fs 0x10005000"
    by (simp add: reachable_addr_def ex_fs_nblocks ex_fs_in_use in_map_def blk_def DISKMAP_def DISKSIZE_def BLKSIZE_def)
  have "view ex_fs 0x10005000 = 0" by (simp add: view_ex_fs) (simp add: ex_fs_def)
  moreover have "PGNUM 0x10005000 \<noteq> PGNUM SUPER" "PGNUM 0x10005000 \<noteq> PGNUM BITMAP" unfolding PGNUM_super by (simp_all add: PGNUM_def)
  ultimately show ?thesis using p cache_refines [OF ex_fs_ready r, of 0] by auto
qed

text \<open>
  C24. \<open>alloc_block\<close> always returns: either the lowest free block above 0, which it marks as used
  while the bit of every other block stays as it was, or \<open>E_NO_DISK\<close>, with nothing changed, exactly when
  no block is free.
\<close>

theorem alloc_block_lowest:
  assumes "fs_ready s" "1 \<le> get32 (view s) s_nblocks"
  shows "(\<exists>b s'. alloc_block s = Some (Inr b, s') \<and> 1 \<le> b \<and> b < get32 (view s) s_nblocks \<and> \<not> in_use (view s) b \<and>
      (\<forall>c. 1 \<le> c \<longrightarrow> c < b \<longrightarrow> in_use (view s) c) \<and> fs_ready s' \<and>
      (\<forall>c < 32768. in_use (view s') c \<longleftrightarrow> c = b \<or> in_use (view s) c)) \<or>
    alloc_block s = Some (Inl E_NO_DISK, s) \<and> (\<forall>c. 1 \<le> c \<longrightarrow> c < get32 (view s) s_nblocks \<longrightarrow> in_use (view s) c)"
proof -
  have "in_use (take_block b (view s)) c \<longleftrightarrow> c = b \<or> in_use (view s) c" if "b < get32 (view s) s_nblocks" "c < 32768" for b c
    using take_block_in_use [OF nblocks_bound [OF assms(1) that(1)] that(2)] .
  then show ?thesis
    using alloc_block_loop_ok [OF assms] unfolding alloc_block_def by (elim disjE exE conjE) (auto simp: grown_def)
qed

theorem alloc_block_lowest_witness: "\<exists>s'. alloc_block ex_fs = Some (Inr 6, s') \<and> in_use (view s') 6"
proof -
  have n: "1 \<le> get32 (view ex_fs) s_nblocks" by (simp add: ex_fs_nblocks)
  have "\<not> in_use (view ex_fs) 6" by (simp add: ex_fs_in_use)
  then obtain b s' where b: "alloc_block ex_fs = Some (Inr b, s')" "b < 16" "\<not> in_use (view ex_fs) b"
      "\<forall>c < 32768. in_use (view s') c \<longleftrightarrow> c = b \<or> in_use (view ex_fs) c"
    using alloc_block_lowest [OF ex_fs_ready n] by (auto simp: ex_fs_nblocks)
  then have "b = 6" using ex_fs_in_use [of b] by simp
  then show ?thesis using b by auto
qed



text \<open>
  C6. Writing \<open>count\<close> bytes at an offset inside a file and reading them back returns \<open>count\<close> both times
  and gives the bytes that were written, for buffers below the disk map, across block boundaries and
  through the indirect block, whichever blocks are in the cache.
\<close>

theorem file_write_read:
  assumes "fs_ready s" "laid_out (view s) f k" "unat (get32 (view s) (f_size f)) \<le> k * 4096"
    "unat offset + unat count \<le> unat (get32 (view s) (f_size f))" "0 < count"
    "unat buf + unat count \<le> 268435456" "\<And>i. i < unat count \<Longrightarrow> present s (PGNUM (buf + of_nat i))"
    "unat buf' + unat count \<le> 268435456" "\<And>i. i < unat count \<Longrightarrow> present s (PGNUM (buf' + of_nat i))"
  shows "\<exists>s1 s2. file_write f buf count offset s = Some (Inr count, s1) \<and>
    file_read f buf' count offset s1 = Some (Inr count, s2) \<and>
    (\<forall>i < unat count. view s2 (buf' + of_nat i) = view s (buf + of_nat i))"
proof -
  have nb: "get32 (view s) s_nblocks \<le> 32768" using assms(1) by (simp add: fs_ready_def)
  obtain s1 where s1: "file_write f buf count offset s = Some (Inr count, s1)" "grown s s1"
    "\<forall>i < unat count. view s1 (fbyte (view s) f (unat offset + i)) = view s (off buf i)"
    "\<forall>a. (\<forall>i < unat count. a \<noteq> fbyte (view s) f (unat offset + i)) \<longrightarrow> view s1 a = view s a"
    using file_write_ok [OF assms(1,2,4,3) low_buffer [OF assms(2,1,6,7)]] by blast
  have d: "view s1 a = view s a" if "desc_page (view s) f k a" for a
  proof -
    have "a \<noteq> fbyte (view s) f (unat offset + i)" if "i < unat count" for i
      using fbyte_not_desc [OF assms(2) nb, of "unat offset + i"] \<open>desc_page (view s) f k a\<close> that assms(3,4) by auto
    then show ?thesis using s1(4) by blast
  qed
  note lc = layout_cong [OF assms(2) nb d]
  have "buffer s1 f k buf' (unat count)"
    using assms(8,9) s1(2) by (intro low_buffer [OF lc(1) grown_ready [OF s1(2)]]) (auto simp: grown_def)
  then obtain s2 where s2: "file_read f buf' count offset s1 = Some (Inr count, s2)"
    "\<forall>i < unat count. view s2 (off buf' i) = view s1 (fbyte (view s1) f (unat offset + i))"
    using file_read_ok [OF grown_ready [OF s1(2)] lc(1) _ _ assms(5), of offset buf'] assms(3,4) lc(4) by auto
  have "fbyte (view s1) f (unat offset + i) = fbyte (view s) f (unat offset + i)" if "i < unat count" for i
    using fbyte_cong [OF assms(2) nb d] that assms(3,4) by simp
  then show ?thesis using s1(1,3) s2 by auto
qed

theorem file_write_read_witness:
  "\<exists>s1 s2. file_write 0x10003000 0x0FFFF000 4 4094 ex_fs = Some (Inr 4, s1) \<and>
    file_read 0x10003000 0x0FFFF800 4 4094 s1 = Some (Inr 4, s2) \<and> view s2 0x0FFFF800 = 42"
proof -
  have p: "present ex_fs (PGNUM (b + of_nat i))" if "unat b + i < 268435456" for b i
  proof -
    have "(unat b + i) div 4096 < 65536" using that by simp
    moreover have "unat (b + of_nat i) = unat b + i" using that by (simp add: unat_add_32)
    ultimately have "unat (PGNUM (b + of_nat i)) < 65536" by (simp only: unat_PGNUM)
    then show ?thesis by (auto simp: ex_fs_def)
  qed
  have "\<exists>s1 s2. file_write 0x10003000 0x0FFFF000 4 4094 ex_fs = Some (Inr 4, s1) \<and>
    file_read 0x10003000 0x0FFFF800 4 4094 s1 = Some (Inr 4, s2) \<and>
    (\<forall>i < unat (4 :: u32). view s2 (0x0FFFF800 + of_nat i) = view ex_fs (0x0FFFF000 + of_nat i))"
    by (rule file_write_read [OF ex_fs_ready ex_fs_laid_out]) (simp_all add: ex_fs_words(1) p)
  then obtain s1 s2 where s: "file_write 0x10003000 0x0FFFF000 4 4094 ex_fs = Some (Inr 4, s1)"
    "file_read 0x10003000 0x0FFFF800 4 4094 s1 = Some (Inr 4, s2)"
    "\<forall>i < unat (4 :: u32). view s2 (0x0FFFF800 + of_nat i) = view ex_fs (0x0FFFF000 + of_nat i)" by blast
  have "view s2 0x0FFFF800 = view ex_fs 0x0FFFF000" using s(3) [rule_format, of 0] by simp
  then show ?thesis using s by (intro exI [of _ s1] exI [of _ s2]) (simp add: view_ex_fs, simp add: ex_fs_def)
qed

text \<open>
  C36. When the disk is full and a file needs its indirect block, \<open>file_block_walk\<close> does not return
  \<open>E_NO_DISK\<close>: it takes the error code for a block number and the server panics.
\<close>

theorem file_block_walk_full_disk:
  assumes "fs_ready s" "laid_out (view s) f k" "NDIRECT \<le> filebno" "filebno < NDIRECT + NINDIRECT"
    "get32 (view s) (f_indirect f) = 0" "\<And>c. \<lbrakk>1 \<le> c; c < get32 (view s) s_nblocks\<rbrakk> \<Longrightarrow> in_use (view s) c"
  shows "file_block_walk f filebno True s = None"
  using assms by (rule walk_full_panics)

definition ex_full_fs :: fsmem where
  "ex_full_fs = ex_fs\<lparr>fmem := (fmem ex_fs)(0x10002000 := 0), present := \<lambda>_. True\<rparr>"

theorem file_block_walk_full_disk_witness: "file_block_walk 0x10003000 10 True ex_full_fs = None"
proof -
  have v: "view ex_full_fs = (fmem ex_fs)(0x10002000 := 0)" by (auto simp: view_def ex_full_fs_def)
  have n: "get32 (view ex_full_fs) s_nblocks = 16"
    by (simp add: v get32_def s_nblocks_def SUPER_def DISKMAP_def BLKSIZE_def) (simp add: ex_fs_def)
  have z: "get32 (view ex_full_fs) (f_indirect 0x10003000) = 0" "get32 (view ex_full_fs) BITMAP = 0"
    by (simp_all add: v get32_def f_indirect_def BITMAP_def DISKMAP_def BLKSIZE_def) (simp_all add: ex_fs_def)
  have u: "in_use (view ex_full_fs) c" if "c < 16" for c
  proof -
    have "unat c < 16" using that by (simp add: word_less_nat_alt)
    then have "c div 32 = 0" by (simp add: word_eq_unat unat_div)
    then show ?thesis by (simp add: in_use_def bitmap_word_def z(2))
  qed
  have r: "fs_ready ex_full_fs"
    using n by (simp add: fs_ready_def absent_def clean_def) (simp add: ex_full_fs_def ex_fs_def)
  have l: "laid_out (view ex_full_fs) 0x10003000 0"
    by (simp add: laid_out_def n u in_map_def blk_def DISKMAP_def DISKSIZE_def BLKSIZE_def)
  show ?thesis by (rule file_block_walk_full_disk [OF r l]) (simp_all add: NDIRECT_def NINDIRECT_def BLKSIZE_def z n u)
qed

text \<open>
  C37. A block that \<open>file_get_block\<close> allocates for a hole of a file is not cleared: the new block of the
  file starts out with the bytes its previous owner left in it.
\<close>

theorem file_get_block_stale:
  assumes "fs_ready s" "laid_out (view s) f k" "i < 10" "fblock (view s) f i = 0"
    "1 \<le> b" "b < get32 (view s) s_nblocks" "\<not> in_use (view s) b" "\<And>c. \<lbrakk>1 \<le> c; c < b\<rbrakk> \<Longrightarrow> in_use (view s) c"
    "2 < b" "b \<noteq> blk f" "j < 4096"
  shows "\<exists>s'. file_get_block f (of_nat i) s = Some (Inr (block_base b), s') \<and>
    view s' (block_base b + of_nat j) = view s (block_base b + of_nat j)"
proof -
  obtain s' where s': "file_get_block f (of_nat i) s = Some (Inr (block_base b), s')"
    "view s' = store32 (f_direct f + 4 * of_nat i) b (take_block b (view s))"
    using get_block_new [OF assms(1-8)] by blast
  have b: "b < 32768" by (rule nblocks_bound [OF assms(1,6)])
  let ?x = "block_base b + of_nat j"
  have x: "in_map ?x" "blk ?x = b" using block_addr [OF b assms(11)] by (simp_all add: block_base_def)
  have slot: "PGNUM (f_direct f + 4 * of_nat i) = PGNUM f" "unat (f_direct f + 4 * of_nat i) mod 4 = 0"
    using file_words(5) [OF assms(2,3)] by simp_all
  have "PGNUM ?x \<noteq> PGNUM f" using block_page [OF x(1), of f] x(2) assms(2,10) by (auto simp: laid_out_def)
  moreover have "PGNUM ?x \<noteq> PGNUM (bitmap_word b)"
    using page_block [OF x(1)] x(2) assms(9) bitmap_word_page(1) [OF b] by (auto simp: PGNUM_super word_less_nat_alt)
  ultimately have "view s' ?x = view s ?x"
    using word_page [OF slot(2)] word_page [OF bitmap_word_page(2) [OF b]] slot(1) bitmap_word_page(1) [OF b]
    unfolding s'(2) take_block_def store32_def by auto
  with s'(1) show ?thesis by blast
qed

theorem file_get_block_stale_witness:
  "\<exists>s'. file_get_block 0x10003000 2 ex_fs = Some (Inr 0x10006000, s') \<and> view s' 0x10006010 = 99"
proof -
  have b6: "block_base 6 = 0x10006000" by (simp add: block_base_def DISKMAP_def BLKSIZE_def)
  have u: "in_use (view ex_fs) c" if "1 \<le> c" "c < 6" for c
    using that ex_fs_in_use [of c] by (auto simp: word_less_nat_alt)
  have "\<exists>s'. file_get_block 0x10003000 (of_nat 2) ex_fs = Some (Inr (block_base 6), s') \<and>
      view s' (block_base 6 + of_nat 16) = view ex_fs (block_base 6 + of_nat 16)"
    by (rule file_get_block_stale [OF ex_fs_ready ex_fs_laid_out])
      (simp_all add: ex_fs_words ex_fs_nblocks ex_fs_in_use u blk_def DISKMAP_def BLKSIZE_def)
  moreover have "view ex_fs 0x10006010 = 99" by (simp add: view_ex_fs) (simp add: ex_fs_def)
  ultimately show ?thesis by (simp add: b6)
qed

text \<open>
  A read at a negative offset, which the test against the file size lets through, returns bytes of
  the disk in front of the first block of the file, so bytes of other files.
\<close>

theorem file_read_negative_offset:
  assumes "fs_ready s" "laid_out (view s) f k" "0 < k" "1 \<le> c" "c < n" "n \<le> 4095"
    "unat (get32 (view s) (f_size f)) < 2147483648"
    "\<And>i. i < c \<Longrightarrow> reachable_addr s (block_base (fblock (view s) f 0) - of_nat n + of_nat i)"
    "unat buf + c \<le> 268435456" "\<And>i. i < c \<Longrightarrow> present s (PGNUM (buf + of_nat i))"
  shows "\<exists>s'. file_read f buf (of_nat c) (- of_nat n) s = Some (Inr (of_nat c), s') \<and>
    (\<forall>i < c. view s' (buf + of_nat i) = view s (block_base (fblock (view s) f 0) - of_nat n + of_nat i))"
  using assms by (rule read_negative)

theorem file_read_negative_offset_witness:
  "\<exists>s'. file_read 0x10003000 0x0FFFF000 1 (- 0xF7F) ex_fs = Some (Inr 1, s') \<and> view s' 0x0FFFF000 = 0x20"
proof -
  have b: "block_base 4 = 0x10004000" by (simp add: block_base_def DISKMAP_def BLKSIZE_def)
  have r: "reachable_addr ex_fs (0x10004000 - 0xF7F)" by (simp add: reachable_addr_def ex_fs_def PGNUM_def)
  have p: "present ex_fs (PGNUM 0x0FFFF000)" by (simp add: ex_fs_def PGNUM_def)
  have "\<exists>s'. file_read 0x10003000 0x0FFFF000 (of_nat 1) (- of_nat 0xF7F) ex_fs = Some (Inr (of_nat 1), s') \<and>
      (\<forall>i < 1. view s' (0x0FFFF000 + of_nat i) = view ex_fs (block_base (fblock (view ex_fs) 0x10003000 0) - of_nat 0xF7F + of_nat i))"
    using r p by (intro file_read_negative_offset [OF ex_fs_ready ex_fs_laid_out]) (simp_all add: ex_fs_words b)
  moreover have "view ex_fs 0x10003081 = 0x20" by (simp add: view_ex_fs) (simp add: ex_fs_def)
  ultimately show ?thesis by (auto simp: ex_fs_words b)
qed

end
