(* ===== verification/Jos_User.thy ===== *)
theory Jos_User
  imports Jos_Syscall
begin

text \<open>
  The system as the user library of JOS sees it: environments with page mappings onto shared frames,
  and the system calls of \<open>lib/syscall.c\<close> with the effects \<open>kern/syscall.c\<close> gives them for
  environments the caller controls. A frame is a number; \<open>uref\<close> are the reference counts that
  \<open>pageref\<close> reads from the array \<open>pages\<close>, \<open>ufree\<close> is the free list. A mapping in a region
  without a page table takes a frame for the table.
\<close>

record uworld =
  uspace :: "nat \<Rightarrow> u32 \<Rightarrow> (nat \<times> u32) option"
  utab :: "nat \<Rightarrow> u32 \<Rightarrow> bool"
  ubyte :: "nat \<Rightarrow> u32 \<Rightarrow> u8"
  uref :: "nat \<Rightarrow> nat"
  ufree :: "nat list"
  ufree_envs :: "nat list"
  ustatus :: "nat \<Rightarrow> u32"
  uupcall :: "nat \<Rightarrow> u32"

definition page_drop :: "nat \<Rightarrow> u32 \<Rightarrow> uworld \<Rightarrow> uworld" where
  "page_drop e pn w =
     (case uspace w e pn of
        None \<Rightarrow> w
      | Some (f, _) \<Rightarrow> w\<lparr>uspace := (uspace w)(e := (uspace w e)(pn := None)), uref := (uref w)(f := uref w f - 1),
          ufree := (if uref w f = 1 then f # ufree w else ufree w)\<rparr>)"

definition page_table :: "nat \<Rightarrow> u32 \<Rightarrow> uworld \<Rightarrow> uworld option" where
  "page_table e pn w =
     (let t = drop_bit 10 pn in
      if utab w e t then Some w
      else case ufree w of
        [] \<Rightarrow> None
      | _ # fs \<Rightarrow> Some (w\<lparr>utab := (utab w)(e := (utab w e)(t := True)), ufree := fs\<rparr>))"

definition page_put :: "nat \<Rightarrow> u32 \<Rightarrow> nat \<Rightarrow> u32 \<Rightarrow> uworld \<Rightarrow> (jos_error + unit) \<times> uworld" where
  "page_put e pn f perm w =
     (case page_table e pn w of
        None \<Rightarrow> (Inl E_NO_MEM, w)
      | Some w \<Rightarrow>
          let w = page_drop e pn (w\<lparr>uref := (uref w)(f := Suc (uref w f))\<rparr>)
          in (Inr (), w\<lparr>uspace := (uspace w)(e := (uspace w e)(pn \<mapsto> (f, perm OR PTE_P)))\<rparr>))"

section \<open>System calls\<close>

definition usys_page_alloc :: "nat \<Rightarrow> u32 \<Rightarrow> u32 \<Rightarrow> uworld \<Rightarrow> (jos_error + unit) \<times> uworld" where
  "usys_page_alloc e va perm w =
     (if bad_va va \<or> bad_perm perm then (Inl E_INVAL, w)
      else case ufree w of
        [] \<Rightarrow> (Inl E_NO_MEM, w)
      | f # fs \<Rightarrow> page_put e (PGNUM va) f perm (w\<lparr>ufree := fs, ubyte := (ubyte w)(f := (\<lambda>_. 0))\<rparr>))"

definition usys_page_map :: "nat \<Rightarrow> u32 \<Rightarrow> nat \<Rightarrow> u32 \<Rightarrow> u32 \<Rightarrow> uworld \<Rightarrow> (jos_error + unit) \<times> uworld" where
  "usys_page_map se sva de dva perm w =
     (if bad_va sva \<or> bad_va dva \<or> bad_perm perm then (Inl E_INVAL, w)
      else case uspace w se (PGNUM sva) of
        None \<Rightarrow> (Inl E_INVAL, w)
      | Some (f, pte) \<Rightarrow>
          if perm AND PTE_W \<noteq> 0 \<and> pte AND PTE_W = 0 then (Inl E_INVAL, w)
          else page_put de (PGNUM dva) f perm w)"

definition usys_page_unmap :: "nat \<Rightarrow> u32 \<Rightarrow> uworld \<Rightarrow> (jos_error + unit) \<times> uworld" where
  "usys_page_unmap e va w = (if bad_va va then (Inl E_INVAL, w) else (Inr (), page_drop e (PGNUM va) w))"

text \<open>A new environment takes a frame for its page directory; its user address space is empty.\<close>

definition usys_exofork :: "uworld \<Rightarrow> (jos_error + nat) \<times> uworld" where
  "usys_exofork w =
     (case ufree_envs w of
        [] \<Rightarrow> (Inl E_NO_FREE_ENV, w)
      | c # cs \<Rightarrow>
          (case ufree w of
             [] \<Rightarrow> (Inl E_NO_MEM, w)
           | _ # fs \<Rightarrow> (Inr c, w\<lparr>ufree := fs, ufree_envs := cs, ustatus := (ustatus w)(c := ENV_NOT_RUNNABLE),
               utab := (utab w)(c := (\<lambda>_. False)), uupcall := (uupcall w)(c := 0)\<rparr>)))"

text \<open>\<open>uvpt\<close>: the flags of a page table entry, 0 when the page is not mapped.\<close>

definition uvpt :: "nat \<Rightarrow> u32 \<Rightarrow> uworld \<Rightarrow> u32" where
  "uvpt e pn w = (case uspace w e pn of None \<Rightarrow> 0 | Some (_, pte) \<Rightarrow> pte)"

definition mapped :: "nat \<Rightarrow> u32 \<Rightarrow> uworld \<Rightarrow> bool" where
  "mapped e va w \<longleftrightarrow> uspace w e (PGNUM va) \<noteq> None"

definition pageref :: "nat \<Rightarrow> u32 \<Rightarrow> uworld \<Rightarrow> nat" where
  "pageref e va w = (case uspace w e (PGNUM va) of None \<Rightarrow> 0 | Some (f, _) \<Rightarrow> uref w f)"

section \<open>Loads and stores\<close>

text \<open>\<^const>\<open>None\<close> is a page fault.\<close>

definition uload :: "nat \<Rightarrow> u32 \<Rightarrow> uworld \<Rightarrow> u8 option" where
  "uload e va w = do {
     (f, pte) \<leftarrow> uspace w e (PGNUM va);
     c_assert (pte AND PTE_U \<noteq> 0);
     Some (ubyte w f (PGOFF va))
   }"

definition ustore :: "nat \<Rightarrow> u32 \<Rightarrow> u8 \<Rightarrow> uworld \<Rightarrow> uworld option" where
  "ustore e va c w = do {
     (f, pte) \<leftarrow> uspace w e (PGNUM va);
     c_assert (pte AND PTE_U \<noteq> 0 \<and> pte AND PTE_W \<noteq> 0);
     Some (w\<lparr>ubyte := (ubyte w)(f := (ubyte w f)(PGOFF va := c))\<rparr>)
   }"

definition uload32 :: "nat \<Rightarrow> u32 \<Rightarrow> uworld \<Rightarrow> u32 option" where
  "uload32 e va w = do {
     a \<leftarrow> uload e va w; b \<leftarrow> uload e (va + 1) w; c \<leftarrow> uload e (va + 2) w; d \<leftarrow> uload e (va + 3) w;
     Some (ucast a OR push_bit 8 (ucast b) OR push_bit 16 (ucast c) OR push_bit 24 (ucast d))
   }"

definition ustore32 :: "nat \<Rightarrow> u32 \<Rightarrow> u32 \<Rightarrow> uworld \<Rightarrow> uworld option" where
  "ustore32 e va v w = do {
     w \<leftarrow> ustore e va (ucast v) w;
     w \<leftarrow> ustore e (va + 1) (ucast (drop_bit 8 v)) w;
     w \<leftarrow> ustore e (va + 2) (ucast (drop_bit 16 v)) w;
     ustore e (va + 3) (ucast (drop_bit 24 v)) w
   }"

primrec ustore_bytes :: "nat \<Rightarrow> u8 list \<Rightarrow> u32 \<Rightarrow> uworld \<Rightarrow> uworld option" where
  "ustore_bytes e [] va w = Some w"
| "ustore_bytes e (c # cs) va w = do { w \<leftarrow> ustore e va c w; ustore_bytes e cs (va + 1) w }"

section \<open>Reference counts\<close>

text \<open>\<open>umaps\<close> is the frame of each page of each environment.\<close>

definition umaps :: "uworld \<Rightarrow> nat \<times> u32 \<Rightarrow> nat option" where
  "umaps w = (\<lambda>(e, pn). map_option fst (uspace w e pn))"

definition uworld_ok :: "uworld \<Rightarrow> bool" where
  "uworld_ok w \<longleftrightarrow> finite (dom (umaps w)) \<and> (\<forall>f. uref w f = occ (umaps w) f) \<and>
     distinct (ufree w) \<and> (\<forall>f \<in> set (ufree w). uref w f = 0)"

lemma umaps_upd: "umaps (w\<lparr>uspace := (uspace w)(e := (uspace w e)(pn := m))\<rparr>) = (umaps w)((e, pn) := map_option fst m)"
  by (auto simp: umaps_def fun_eq_iff)

lemma umaps_cong [simp]:
  "umaps (w\<lparr>utab := t\<rparr>) = umaps w" "umaps (w\<lparr>ubyte := b\<rparr>) = umaps w" "umaps (w\<lparr>uref := r\<rparr>) = umaps w"
  "umaps (w\<lparr>ufree := fs\<rparr>) = umaps w"
  by (simp_all add: umaps_def)

lemma umaps_eq: "umaps w (e, pn) = map_option fst (uspace w e pn)"
  by (simp add: umaps_def)

lemma free_unmapped: "\<lbrakk>uworld_ok w; f \<in> set (ufree w)\<rbrakk> \<Longrightarrow> uspace w e pn \<noteq> Some (f, p)"
  by (auto simp: uworld_ok_def umaps_eq occ_zero_iff dest!: bspec intro!: ranI [of "umaps w" "(e, pn)"])

lemma page_drop_space:
  "uspace (page_drop e pn w) = (uspace w)(e := (uspace w e)(pn := None))" "ubyte (page_drop e pn w) = ubyte w"
  "ustatus (page_drop e pn w) = ustatus w" "utab (page_drop e pn w) = utab w"
  by (auto simp: page_drop_def fun_eq_iff split: option.splits prod.splits)

lemma page_drop_ok:
  assumes "uworld_ok w"
  shows "uworld_ok (page_drop e pn w)"
proof (cases "uspace w e pn")
  case None
  then show ?thesis using assms by (simp add: page_drop_def)
next
  case (Some m)
  then obtain f p where m: "uspace w e pn = Some (f, p)" by (cases m) auto
  have fin: "finite (dom (umaps w))" and ref: "\<And>g. uref w g = occ (umaps w) g" and fr: "distinct (ufree w)" "\<forall>g \<in> set (ufree w). uref w g = 0"
    using assms by (auto simp: uworld_ok_def)
  let ?w = "page_drop e pn w"
  have u: "umaps ?w = (umaps w)((e, pn) := None)" by (simp add: umaps_def page_drop_space fun_eq_iff)
  have o: "occ (umaps ?w) g = occ (umaps w) g - (if g = f then 1 else 0)" for g
    using occ_upd [OF fin, of "(e, pn)" None g] m unfolding u by (auto simp: umaps_eq)
  have pos: "0 < uref w f" using occ_pos [OF fin, of "(e, pn)" f] m ref by (simp add: umaps_eq)
  have r: "uref ?w g = uref w g - (if g = f then 1 else 0)" for g by (simp add: page_drop_def m)
  have "finite (dom (umaps ?w))" using fin unfolding u by simp
  moreover have "distinct (ufree ?w) \<and> (\<forall>g \<in> set (ufree ?w). uref ?w g = 0)" using fr pos by (auto simp: page_drop_def m)
  ultimately show ?thesis using o r ref by (simp add: uworld_ok_def)
qed

lemma page_table_ok:
  assumes "uworld_ok w" "page_table e pn w = Some w'"
  shows "uworld_ok w' \<and> uspace w' = uspace w \<and> ubyte w' = ubyte w \<and> uref w' = uref w \<and> set (ufree w') \<subseteq> set (ufree w) \<and>
    ustatus w' = ustatus w"
  using assms by (auto simp: page_table_def uworld_ok_def Let_def split: if_splits list.splits)

text \<open>A frame that is not on the free list, or has just been taken from it, can be mapped.\<close>

lemma page_put_ok:
  assumes "uworld_ok w" "f \<notin> set (ufree w)" "page_put e pn f perm w = (r, w')"
  shows "(r = Inl E_NO_MEM \<and> w' = w) \<or>
    (r = Inr () \<and> uworld_ok w' \<and> uspace w' = (uspace w)(e := (uspace w e)(pn \<mapsto> (f, perm OR PTE_P))) \<and>
      ubyte w' = ubyte w \<and> ustatus w' = ustatus w)"
proof (cases "page_table e pn w")
  case None
  then show ?thesis using assms(3) by (simp add: page_put_def)
next
  case (Some w1)
  note t = page_table_ok [OF assms(1) Some]
  define w2 where "w2 = page_drop e pn w1"
  have ok2: "uworld_ok w2" using page_drop_ok t unfolding w2_def by blast
  have sp: "uspace w2 = (uspace w)(e := (uspace w e)(pn := None))" using t by (simp add: w2_def page_drop_space)
  define w3 where "w3 = page_drop e pn (w1\<lparr>uref := (uref w1)(f := Suc (uref w1 f))\<rparr>)"
  have w': "r = Inr ()" "w' = w3\<lparr>uspace := (uspace w3)(e := (uspace w3 e)(pn \<mapsto> (f, perm OR PTE_P)))\<rparr>"
    using assms(3) Some by (simp_all add: page_put_def Let_def w3_def)
  have sp3: "uspace w3 = uspace w2" "ubyte w3 = ubyte w" "ustatus w3 = ustatus w"
    using t by (simp_all add: w3_def w2_def page_drop_space)
  have u: "umaps w' = (umaps w2)((e, pn) \<mapsto> f)" using sp3(1) by (auto simp: w' umaps_def fun_eq_iff)
  have fin: "finite (dom (umaps w2))" and ref2: "\<And>g. uref w2 g = occ (umaps w2) g" using ok2 by (auto simp: uworld_ok_def)
  have none: "umaps w2 (e, pn) = None" by (simp add: umaps_eq sp)
  have pos1: "0 < uref w1 g" if "uspace w1 e pn = Some (g, p)" for g p
    using occ_pos [of "umaps w1" "(e, pn)" g] t that by (auto simp: uworld_ok_def umaps_eq)
  have r3: "uref w3 g = uref w2 g + (if g = f then 1 else 0)" for g
    using pos1 by (auto simp: w3_def w2_def page_drop_def split: option.splits prod.splits)
  have o: "occ (umaps w') g = occ (umaps w2) g + (if g = f then 1 else 0)" for g
    using occ_upd [OF fin, of "(e, pn)" "Some f" g] none unfolding u by (auto split: if_splits)
  have f1: "f \<notin> set (ufree w1)" using t assms(2) by blast
  have d1: "distinct (ufree w1)" using t by (simp add: uworld_ok_def)
  have d2: "distinct (ufree w2)" "\<forall>g \<in> set (ufree w2). uref w2 g = 0" using ok2 unfolding uworld_ok_def by blast+
  have "distinct (ufree w3) \<and> set (ufree w3) \<subseteq> set (ufree w2) - {f}"
    using d1 d2(1) f1 pos1 unfolding w3_def w2_def page_drop_def by (auto split: option.splits prod.splits if_splits)
  then have "distinct (ufree w3) \<and> (\<forall>g \<in> set (ufree w3). uref w3 g = 0)" using d2(2) r3 by auto
  then have "uworld_ok w'" using fin o ref2 r3 by (simp add: uworld_ok_def u) (simp add: w')
  moreover have "uspace w' = (uspace w)(e := (uspace w e)(pn \<mapsto> (f, perm OR PTE_P)))" using sp sp3(1) by (simp add: w' fun_eq_iff)
  ultimately show ?thesis using w' sp3 by simp
qed

text \<open>The calls, in one form: nothing is mapped on an error.\<close>

lemma usys_page_alloc_ok:
  assumes "uworld_ok w" "usys_page_alloc e va perm w = (r, w')"
  shows "uworld_ok w' \<and> ustatus w' = ustatus w \<and> (\<exists>f. (\<forall>d pn p. uspace w d pn \<noteq> Some (f, p)) \<and>
      ubyte w' = (ubyte w)(f := ubyte w' f) \<and>
    ((\<exists>er. r = Inl er) \<and> uspace w' = uspace w \<or>
     r = Inr () \<and> \<not> bad_va va \<and> ubyte w' f = (\<lambda>_. 0) \<and>
       uspace w' = (uspace w)(e := (uspace w e)(PGNUM va \<mapsto> (f, perm OR PTE_P)))))"
proof (cases "bad_va va \<or> bad_perm perm \<or> ufree w = []")
  case True
  have inf: "\<exists>f. \<forall>d pn p. uspace w d pn \<noteq> Some (f, p)"
  proof -
    have "finite (ran (umaps w))" using assms(1) by (simp add: uworld_ok_def finite_ran)
    then obtain f where "f \<notin> ran (umaps w)" using ex_new_if_finite [OF infinite_UNIV_nat] by blast
    then have "uspace w d pn \<noteq> Some (f, p)" for d pn p by (auto simp: umaps_eq ran_def)
    then show ?thesis by blast
  qed
  have "w' = w" "\<exists>er. r = Inl er" using True assms(2) by (auto simp: usys_page_alloc_def split: if_splits list.splits)
  then show ?thesis using assms(1) inf by auto
next
  case False
  then obtain f fs where f: "ufree w = f # fs" by (cases "ufree w") auto
  let ?w = "w\<lparr>ufree := fs, ubyte := (ubyte w)(f := (\<lambda>_. 0))\<rparr>"
  have ok: "uworld_ok ?w" "f \<notin> set (ufree ?w)" using assms(1) f by (auto simp: uworld_ok_def)
  have un: "\<forall>d pn p. uspace w d pn \<noteq> Some (f, p)" using free_unmapped [OF assms(1), of f] f by simp
  have "page_put e (PGNUM va) f perm ?w = (r, w')" using assms(2) False f by (simp add: usys_page_alloc_def)
  from page_put_ok [OF ok this] show ?thesis
  proof
    assume "r = Inl E_NO_MEM \<and> w' = ?w"
    then show ?thesis using ok(1) un by auto
  next
    assume "r = Inr () \<and> uworld_ok w' \<and> uspace w' = (uspace ?w)(e := (uspace ?w e)(PGNUM va \<mapsto> (f, perm OR PTE_P))) \<and>
      ubyte w' = ubyte ?w \<and> ustatus w' = ustatus ?w"
    then show ?thesis using un False by auto
  qed
qed

lemma usys_page_map_ok:
  assumes "uworld_ok w" "usys_page_map se sva de dva perm w = (r, w')"
  shows "uworld_ok w' \<and> ustatus w' = ustatus w \<and> ubyte w' = ubyte w \<and>
    ((\<exists>er. r = Inl er) \<and> w' = w \<or>
     r = Inr () \<and> \<not> bad_va sva \<and> \<not> bad_va dva \<and> (\<exists>f pte. uspace w se (PGNUM sva) = Some (f, pte) \<and>
       (perm AND PTE_W \<noteq> 0 \<longrightarrow> pte AND PTE_W \<noteq> 0) \<and>
       uspace w' = (uspace w)(de := (uspace w de)(PGNUM dva \<mapsto> (f, perm OR PTE_P)))))"
proof (cases "usys_page_map se sva de dva perm w = (Inl E_INVAL, w)")
  case True
  then show ?thesis using assms by auto
next
  case False
  then obtain f pte where f: "uspace w se (PGNUM sva) = Some (f, pte)" "perm AND PTE_W \<noteq> 0 \<longrightarrow> pte AND PTE_W \<noteq> 0"
      "\<not> bad_va sva" "\<not> bad_va dva" "page_put de (PGNUM dva) f perm w = (r, w')"
    using assms(2) by (auto simp: usys_page_map_def split: if_splits option.splits prod.splits)
  have "f \<notin> set (ufree w)" using free_unmapped [OF assms(1)] f(1) by blast
  from page_put_ok [OF assms(1) this f(5)] show ?thesis using f assms(1) by auto
qed

lemma usys_page_unmap_ok:
  assumes "uworld_ok w" "usys_page_unmap e va w = (r, w')"
  shows "uworld_ok w' \<and> ustatus w' = ustatus w \<and> ubyte w' = ubyte w \<and>
    uspace w' = (if bad_va va then uspace w else (uspace w)(e := (uspace w e)(PGNUM va := None)))"
  using assms page_drop_ok [OF assms(1)] by (auto simp: usys_page_unmap_def page_drop_space split: if_splits)

end
