(* ===== verification/Jos_Fd.thy ===== *)
theory Jos_Fd
  imports Jos_User
begin

text \<open>
  File descriptors of the user library (\<open>lib/fd.c\<close>): descriptor \<open>i\<close> is the page \<open>INDEX2FD i\<close>, with a
  page for the data of its device at \<open>INDEX2DATA i\<close>. \<open>e\<close> is the environment that runs the code. The
  devices are records of functions, as in the source; \<open>devtab\<close> is the table of devices. Counts and
  addresses are words; the arguments of type \<open>int\<close> are read with their sign.
\<close>

definition MAXFD :: nat where "MAXFD = 32"
definition FDTABLE :: u32 where "FDTABLE = 0xD0000000"
definition FILEDATA :: u32 where "FILEDATA = FDTABLE + of_nat MAXFD * PGSIZE"

definition INDEX2FD :: "u32 \<Rightarrow> u32" where
  "INDEX2FD i = FDTABLE + i * PGSIZE"

definition INDEX2DATA :: "u32 \<Rightarrow> u32" where
  "INDEX2DATA i = FILEDATA + i * PGSIZE"

definition fd2num :: "u32 \<Rightarrow> u32" where
  "fd2num fd = (fd - FDTABLE) div PGSIZE"

definition fd2data :: "u32 \<Rightarrow> u32" where
  "fd2data fd = INDEX2DATA (fd2num fd)"

text \<open>The fields of \<open>struct Fd\<close> and of \<open>struct Stat\<close>, by their addresses.\<close>

definition fd_dev_id :: "u32 \<Rightarrow> u32" where "fd_dev_id fd = fd"
definition fd_offset :: "u32 \<Rightarrow> u32" where "fd_offset fd = fd + 4"
definition fd_omode :: "u32 \<Rightarrow> u32" where "fd_omode fd = fd + 8"
definition fd_file_id :: "u32 \<Rightarrow> u32" where "fd_file_id fd = fd + 12"
definition st_name :: "u32 \<Rightarrow> u32" where "st_name st = st"
definition st_size :: "u32 \<Rightarrow> u32" where "st_size st = st + 128"
definition st_isdir :: "u32 \<Rightarrow> u32" where "st_isdir st = st + 132"
definition st_dev :: "u32 \<Rightarrow> u32" where "st_dev st = st + 136"

definition O_RDONLY :: u32 where "O_RDONLY = 0"
definition O_WRONLY :: u32 where "O_WRONLY = 1"
definition O_RDWR :: u32 where "O_RDWR = 2"
definition O_ACCMODE :: u32 where "O_ACCMODE = 3"

type_synonym 'r ucall = "uworld \<Rightarrow> ((jos_error + 'r) \<times> uworld) option"

record Dev =
  dev_ptr :: u32
  dev_id :: u32
  dev_read :: "(nat \<Rightarrow> u32 \<Rightarrow> u32 \<Rightarrow> u32 \<Rightarrow> u32 ucall) option"
  dev_write :: "(nat \<Rightarrow> u32 \<Rightarrow> u32 \<Rightarrow> u32 \<Rightarrow> u32 ucall) option"
  dev_close :: "(nat \<Rightarrow> u32 \<Rightarrow> u32 ucall) option"
  dev_stat :: "(nat \<Rightarrow> u32 \<Rightarrow> u32 \<Rightarrow> u32 ucall) option"
  dev_trunc :: "(nat \<Rightarrow> u32 \<Rightarrow> u32 \<Rightarrow> u32 ucall) option"

section \<open>Descriptors\<close>

definition fd_alloc :: "nat \<Rightarrow> uworld \<Rightarrow> jos_error + u32" where
  "fd_alloc e w =
     (case List.find (\<lambda>i. \<not> mapped e (INDEX2FD (of_nat i)) w) [0..<MAXFD] of
        None \<Rightarrow> Inl E_MAX_OPEN
      | Some i \<Rightarrow> Inr (INDEX2FD (of_nat i)))"

definition fd_lookup :: "u32 \<Rightarrow> nat \<Rightarrow> uworld \<Rightarrow> jos_error + u32" where
  "fd_lookup fdnum e w =
     (if sint fdnum < 0 \<or> int MAXFD \<le> sint fdnum then Inl E_INVAL
      else if \<not> mapped e (INDEX2FD fdnum) w then Inl E_INVAL
      else Inr (INDEX2FD fdnum))"

definition dev_lookup :: "Dev list \<Rightarrow> u32 \<Rightarrow> jos_error + Dev" where
  "dev_lookup devtab did = (case List.find (\<lambda>d. dev_id d = did) devtab of None \<Rightarrow> Inl E_INVAL | Some d \<Rightarrow> Inr d)"

definition fd_close :: "Dev list \<Rightarrow> nat \<Rightarrow> u32 \<Rightarrow> bool \<Rightarrow> u32 ucall" where
  "fd_close devtab e fd must_exist w =
     (case fd_lookup (fd2num fd) e w of
        Inl r \<Rightarrow> Some (if must_exist then Inl r else Inr 0, w)
      | Inr fd2 \<Rightarrow>
          if fd \<noteq> fd2 then Some (Inr 0, w)
          else do {
            did \<leftarrow> uload32 e (fd_dev_id fd) w;
            (r, w) \<leftarrow> (case dev_lookup devtab did of
                Inl er \<Rightarrow> Some (Inl er, w)
              | Inr dev \<Rightarrow> (case dev_close dev of Some c \<Rightarrow> c e fd w | None \<Rightarrow> Some (Inr 0, w)));
            Some (r, snd (usys_page_unmap e fd w))
          })"

definition close :: "Dev list \<Rightarrow> nat \<Rightarrow> u32 \<Rightarrow> u32 ucall" where
  "close devtab e fdnum w =
     (case fd_lookup fdnum e w of
        Inl r \<Rightarrow> Some (Inl r, w)
      | Inr fd \<Rightarrow> fd_close devtab e fd True w)"

definition close_all :: "Dev list \<Rightarrow> nat \<Rightarrow> uworld \<Rightarrow> uworld option" where
  "close_all devtab e w = ofold (\<lambda>i w. do { (_, w) \<leftarrow> close devtab e (of_nat i) w; Some w }) [0..<MAXFD] w"

text \<open>
  \<open>dup\<close>, in the order of its system calls: first the data page, then the descriptor page, so that a
  descriptor page is never there without its data page.
\<close>

definition dup_fail :: "nat \<Rightarrow> u32 \<Rightarrow> u32 \<Rightarrow> uworld \<Rightarrow> uworld" where
  "dup_fail e newfd nva w = snd (usys_page_unmap e nva (snd (usys_page_unmap e newfd w)))"

definition dup_data :: "nat \<Rightarrow> u32 \<Rightarrow> u32 \<Rightarrow> uworld \<Rightarrow> (jos_error + unit) \<times> uworld" where
  "dup_data e ova nva w =
     (if mapped e ova w then usys_page_map e ova e nva (uvpt e (PGNUM ova) w AND PTE_SYSCALL) w else (Inr (), w))"

definition dup :: "Dev list \<Rightarrow> nat \<Rightarrow> u32 \<Rightarrow> u32 \<Rightarrow> u32 ucall" where
  "dup devtab e oldfdnum newfdnum w =
     (case fd_lookup oldfdnum e w of
        Inl r \<Rightarrow> Some (Inl r, w)
      | Inr oldfd \<Rightarrow> do {
          (_, w) \<leftarrow> close devtab e newfdnum w;
          let newfd = INDEX2FD newfdnum;
          let ova = fd2data oldfd;
          let nva = fd2data newfd;
          Some (case dup_data e ova nva w of
              (Inl r, w) \<Rightarrow> (Inl r, dup_fail e newfd nva w)
            | (Inr _, w) \<Rightarrow>
                (case usys_page_map e oldfd e newfd (uvpt e (PGNUM oldfd) w AND PTE_SYSCALL) w of
                   (Inl r, w) \<Rightarrow> (Inl r, dup_fail e newfd nva w)
                 | (Inr _, w) \<Rightarrow> (Inr newfdnum, w)))
        })"

section \<open>Operations of the device\<close>

text \<open>The lookups with which the operations start.\<close>

definition with_fd :: "Dev list \<Rightarrow> nat \<Rightarrow> u32 \<Rightarrow> (u32 \<Rightarrow> Dev \<Rightarrow> u32 ucall) \<Rightarrow> u32 ucall" where
  "with_fd devtab e fdnum k w =
     (case fd_lookup fdnum e w of
        Inl r \<Rightarrow> Some (Inl r, w)
      | Inr fd \<Rightarrow> do {
          did \<leftarrow> uload32 e (fd_dev_id fd) w;
          case dev_lookup devtab did of
            Inl r \<Rightarrow> Some (Inl r, w)
          | Inr dev \<Rightarrow> k fd dev w
        })"

definition read :: "Dev list \<Rightarrow> nat \<Rightarrow> u32 \<Rightarrow> u32 \<Rightarrow> u32 \<Rightarrow> u32 ucall" where
  "read devtab e fdnum buf n = with_fd devtab e fdnum (\<lambda>fd dev w. do {
     mode \<leftarrow> uload32 e (fd_omode fd) w;
     if mode AND O_ACCMODE = O_WRONLY then Some (Inl E_INVAL, w)
     else case dev_read dev of
       None \<Rightarrow> Some (Inl E_NOT_SUPP, w)
     | Some rd \<Rightarrow> rd e fd buf n w
   })"

text \<open>\<open>readn\<close> stops at the end of the file; \<open>tot\<close> is compared without sign.\<close>

partial_function (option) readn_loop :: "(u32 \<Rightarrow> u32 \<Rightarrow> u32 ucall) \<Rightarrow> u32 \<Rightarrow> u32 \<Rightarrow> u32 \<Rightarrow> u32 ucall" where
  "readn_loop rd buf n tot w =
     (if tot < n then do {
        (r, w) \<leftarrow> rd (buf + tot) (n - tot) w;
        case r of
          Inl er \<Rightarrow> Some (Inl er, w)
        | Inr m \<Rightarrow> if m = 0 then Some (Inr tot, w) else readn_loop rd buf n (tot + m) w
      }
      else Some (Inr tot, w))"

definition readn :: "Dev list \<Rightarrow> nat \<Rightarrow> u32 \<Rightarrow> u32 \<Rightarrow> u32 \<Rightarrow> u32 ucall" where
  "readn devtab e fdnum buf n = readn_loop (read devtab e fdnum) buf n 0"

definition fd_write :: "Dev list \<Rightarrow> nat \<Rightarrow> u32 \<Rightarrow> u32 \<Rightarrow> u32 \<Rightarrow> u32 ucall" where
  "fd_write devtab e fdnum buf n = with_fd devtab e fdnum (\<lambda>fd dev w. do {
     mode \<leftarrow> uload32 e (fd_omode fd) w;
     if mode AND O_ACCMODE = O_RDONLY then Some (Inl E_INVAL, w)
     else case dev_write dev of
       None \<Rightarrow> Some (Inl E_NOT_SUPP, w)
     | Some wr \<Rightarrow> wr e fd buf n w
   })"

definition seek :: "nat \<Rightarrow> u32 \<Rightarrow> u32 \<Rightarrow> u32 ucall" where
  "seek e fdnum offset w =
     (case fd_lookup fdnum e w of
        Inl r \<Rightarrow> Some (Inl r, w)
      | Inr fd \<Rightarrow> do { w \<leftarrow> ustore32 e (fd_offset fd) offset w; Some (Inr 0, w) })"

definition ftruncate :: "Dev list \<Rightarrow> nat \<Rightarrow> u32 \<Rightarrow> u32 \<Rightarrow> u32 ucall" where
  "ftruncate devtab e fdnum newsize = with_fd devtab e fdnum (\<lambda>fd dev w. do {
     mode \<leftarrow> uload32 e (fd_omode fd) w;
     if mode AND O_ACCMODE = O_RDONLY then Some (Inl E_INVAL, w)
     else case dev_trunc dev of
       None \<Rightarrow> Some (Inl E_NOT_SUPP, w)
     | Some tr \<Rightarrow> tr e fd newsize w
   })"

definition fstat :: "Dev list \<Rightarrow> nat \<Rightarrow> u32 \<Rightarrow> u32 \<Rightarrow> u32 ucall" where
  "fstat devtab e fdnum st = with_fd devtab e fdnum (\<lambda>fd dev w.
     case dev_stat dev of
       None \<Rightarrow> Some (Inl E_NOT_SUPP, w)
     | Some sf \<Rightarrow> do {
         w \<leftarrow> ustore e (st_name st) 0 w;
         w \<leftarrow> ustore32 e (st_size st) 0 w;
         w \<leftarrow> ustore32 e (st_isdir st) 0 w;
         w \<leftarrow> ustore32 e (st_dev st) (dev_ptr dev) w;
         sf e fd st w
       })"

text \<open>\<open>stat\<close>, over the function that opens a path.\<close>

definition stat :: "Dev list \<Rightarrow> (nat \<Rightarrow> u32 \<Rightarrow> u32 \<Rightarrow> u32 ucall) \<Rightarrow> nat \<Rightarrow> u32 \<Rightarrow> u32 \<Rightarrow> u32 ucall" where
  "stat devtab open_path e path st w = do {
     (r, w) \<leftarrow> open_path e path O_RDONLY w;
     case r of
       Inl er \<Rightarrow> Some (Inl er, w)
     | Inr fd \<Rightarrow> do {
         (r, w) \<leftarrow> fstat devtab e fd st w;
         (_, w) \<leftarrow> close devtab e fd w;
         Some (r, w)
       }
   }"

section \<open>Addresses\<close>

text \<open>The page numbers of descriptor \<open>i\<close> and of its data.\<close>

definition fd_pn :: "nat \<Rightarrow> u32" where "fd_pn i = 0xD0000 + of_nat i"
definition data_pn :: "nat \<Rightarrow> u32" where "data_pn i = 0xD0020 + of_nat i"

lemma unat_page_addr:
  fixes b i :: nat
  assumes "b + i < 0x100000"
  shows "unat (of_nat b * PGSIZE + of_nat i * PGSIZE :: u32) = (b + i) * 4096"
proof -
  have "(of_nat b * PGSIZE + of_nat i * PGSIZE :: u32) = of_nat ((b + i) * 4096)" by (simp add: algebra_simps)
  moreover have "(b + i) * 4096 < 4294967296" using assms by simp
  ultimately show ?thesis by (simp only: unat_of_nat_32)
qed

lemma fd_addr:
  assumes "i < 32"
  shows "unat (INDEX2FD (of_nat i)) = (0xD0000 + i) * 4096" "unat (INDEX2DATA (of_nat i)) = (0xD0020 + i) * 4096"
  using unat_page_addr [of "0xD0000" i] unat_page_addr [of "0xD0020" i] assms
  by (simp_all add: INDEX2FD_def INDEX2DATA_def FILEDATA_def FDTABLE_def MAXFD_def)

lemma unat_fd_pn: "i < 32 \<Longrightarrow> unat (fd_pn i) = 0xD0000 + i" "i < 32 \<Longrightarrow> unat (data_pn i) = 0xD0020 + i"
  by (simp_all add: fd_pn_def data_pn_def unat_add_32 unat_of_nat_32)

lemma fd_page [simp]:
  assumes "i < 32"
  shows "PGNUM (INDEX2FD (of_nat i)) = fd_pn i" "PGNUM (INDEX2DATA (of_nat i)) = data_pn i"
  using assms by (simp_all add: word_eq_unat unat_PGNUM fd_addr unat_fd_pn)

lemma fd_good [simp]:
  assumes "i < 32"
  shows "\<not> bad_va (INDEX2FD (of_nat i))" "\<not> bad_va (INDEX2DATA (of_nat i))"
proof -
  have "(0xD0000 + i) * 4096 < 4005560320" "(0xD0020 + i) * 4096 < 4005560320" using assms by simp_all
  then show "\<not> bad_va (INDEX2FD (of_nat i))" "\<not> bad_va (INDEX2DATA (of_nat i))"
    using fd_addr [OF assms] by (simp_all add: bad_va_def UTOP_def UENVS_def UPAGES_def UVPT_def ULIM_def MMIOBASE_def MMIOLIM_def
      KERNBASE_def KSTACKTOP_def word_le_nat_alt word_eq_unat unat_PGOFF)
qed

lemma fd2num_index [simp]: "i < 32 \<Longrightarrow> fd2num (INDEX2FD (of_nat i)) = of_nat i"
proof -
  assume i: "i < 32"
  have "INDEX2FD (of_nat i) - FDTABLE = of_nat 0 * PGSIZE + of_nat i * PGSIZE" by (simp add: INDEX2FD_def)
  then have "unat (INDEX2FD (of_nat i) - FDTABLE) = i * 4096" using unat_page_addr [of 0 i] i by simp
  then have "unat (fd2num (INDEX2FD (of_nat i))) = i" by (simp add: fd2num_def unat_div)
  then show ?thesis using i by (simp add: word_eq_unat unat_of_nat_32)
qed

lemma fd2data_index [simp]: "i < 32 \<Longrightarrow> fd2data (INDEX2FD (of_nat i)) = INDEX2DATA (of_nat i)"
  by (simp add: fd2data_def)

lemma fd_pn_inj [simp]:
  assumes "i < 32" "j < 32"
  shows "fd_pn i = fd_pn j \<longleftrightarrow> i = j" "data_pn i = data_pn j \<longleftrightarrow> i = j" "fd_pn i \<noteq> data_pn j" "data_pn j \<noteq> fd_pn i"
  using assms by (auto simp: word_eq_unat unat_fd_pn)

lemma fd_lookup_index:
  assumes "i < 32"
  shows "fd_lookup (of_nat i) e w = (if uspace w e (fd_pn i) = None then Inl E_INVAL else Inr (INDEX2FD (of_nat i)))"
proof -
  have "sint (of_nat i :: u32) = int i" using assms signed_unat [of "of_nat i"] by (simp add: unat_of_nat_32)
  then show ?thesis using assms by (simp add: fd_lookup_def mapped_def MAXFD_def)
qed

section \<open>Properties\<close>

lemma fd_alloc_lowest:
  "(\<exists>i < 32. fd_alloc e w = Inr (INDEX2FD (of_nat i)) \<and> uspace w e (fd_pn i) = None \<and> (\<forall>j < i. uspace w e (fd_pn j) \<noteq> None)) \<or>
   fd_alloc e w = Inl E_MAX_OPEN \<and> (\<forall>j < 32. uspace w e (fd_pn j) \<noteq> None)"
proof (cases "List.find (\<lambda>i. \<not> mapped e (INDEX2FD (of_nat i)) w) [0..<MAXFD]")
  case None
  then have "\<forall>j < 32. mapped e (INDEX2FD (of_nat j)) w" by (auto simp: find_None_iff MAXFD_def)
  then show ?thesis using None by (intro disjI2) (simp add: fd_alloc_def, simp add: mapped_def)
next
  case (Some i)
  then have i: "i < 32" "\<not> mapped e (INDEX2FD (of_nat i)) w" "\<forall>j < i. mapped e (INDEX2FD (of_nat j)) w"
    by (auto simp: find_Some_iff MAXFD_def)
  then have "uspace w e (fd_pn i) = None" "\<forall>j < i. uspace w e (fd_pn j) \<noteq> None" by (auto simp add: mapped_def simp del: not_None_eq)
  then show ?thesis using Some i(1) by (intro disjI1 exI [of _ i]) (simp add: fd_alloc_def)
qed

lemma fd_close_unmaps:
  assumes "uworld_ok w" "i < 32" "fd_close devtab e (INDEX2FD (of_nat i)) must w = Some (r, w')" "uspace w e (fd_pn i) \<noteq> None"
    "\<And>d c fd v s v'. \<lbrakk>d \<in> set devtab; dev_close d = Some c; uworld_ok s; c e fd s = Some (v, v')\<rbrakk> \<Longrightarrow> uworld_ok v'"
  shows "uworld_ok w' \<and> fd_lookup (of_nat i) e w' = Inl E_INVAL"
proof -
  obtain did v where v: "uload32 e (fd_dev_id (INDEX2FD (of_nat i))) w = Some did"
      "(case dev_lookup devtab did of Inl er \<Rightarrow> Some (Inl er, w)
         | Inr dev \<Rightarrow> (case dev_close dev of Some c \<Rightarrow> c e (INDEX2FD (of_nat i)) w | None \<Rightarrow> Some (Inr 0, w))) = Some (r, v)"
      "w' = snd (usys_page_unmap e (INDEX2FD (of_nat i)) v)"
    using assms(2-4) by (auto simp: fd_close_def fd_lookup_index Option.bind_eq_Some_conv)
  have "uworld_ok v"
  proof (cases "dev_lookup devtab did")
    case (Inr dev)
    then have "dev \<in> set devtab" by (auto simp: dev_lookup_def find_Some_iff split: option.splits)
    then show ?thesis using v(2) Inr assms(1,5) by (cases "dev_close dev") auto
  qed (use v(2) assms(1) in simp)
  then show ?thesis using usys_page_unmap_ok [of v e "INDEX2FD (of_nat i)"] assms(2) v(3)
    by (cases "usys_page_unmap e (INDEX2FD (of_nat i)) v") (auto simp: fd_lookup_index)
qed

text \<open>A duplicate shares the descriptor page, and with it the position in the file.\<close>

lemma dup_shares:
  assumes "uworld_ok w" "i < 32" "j < 32" "i \<noteq> j" "uspace w e (fd_pn i) = Some (f, p)" "uspace w e (fd_pn j) = None"
    "dup devtab e (of_nat i) (of_nat j) w = Some (Inr r, w')"
  shows "r = of_nat j \<and> uworld_ok w' \<and> (\<exists>q. uspace w' e (fd_pn j) = Some (f, q)) \<and>
    uspace w' e (fd_pn i) = Some (f, p) \<and>
    (\<forall>g q. uspace w e (data_pn i) = Some (g, q) \<longrightarrow> (\<exists>q'. uspace w' e (data_pn j) = Some (g, q')))"
proof -
  have c: "close devtab e (of_nat j) w = Some (Inl E_INVAL, w)" using assms(3,6) by (simp add: close_def fd_lookup_index)
  let ?o = "INDEX2FD (of_nat i)" and ?n = "INDEX2FD (of_nat j)" and ?ova = "INDEX2DATA (of_nat i)" and ?nva = "INDEX2DATA (of_nat j)"
  obtain r1 w1 where d: "dup_data e ?ova ?nva w = (r1, w1)" by fastforce
  obtain r2 w2 where m: "usys_page_map e ?o e ?n (uvpt e (fd_pn i) w1 AND PTE_SYSCALL) w1 = (r2, w2)" by fastforce
  have r: "r1 = Inr ()" "r2 = Inr ()" "r = of_nat j" "w' = w2"
    using assms(2,3,5,7) c d m by (auto simp: dup_def fd_lookup_index Let_def split: sum.splits)
  have w1: "uworld_ok w1 \<and> uspace w1 = (if uspace w e (data_pn i) = None then uspace w
      else (uspace w)(e := (uspace w e)(data_pn j \<mapsto> (fst (the (uspace w e (data_pn i))), uvpt e (data_pn i) w AND PTE_SYSCALL OR PTE_P))))"
  proof (cases "uspace w e (data_pn i) = None")
    case True
    then show ?thesis using d assms(1,2) by (auto simp: dup_data_def mapped_def)
  next
    case False
    then have "usys_page_map e ?ova e ?nva (uvpt e (data_pn i) w AND PTE_SYSCALL) w = (Inr (), w1)"
      using d assms(2) r(1) by (simp add: dup_data_def mapped_def)
    from usys_page_map_ok [OF assms(1) this] show ?thesis using False assms(2,3) by auto
  qed
  from usys_page_map_ok [OF conjunct1 [OF w1] m] have "uworld_ok w2"
    "uspace w2 = (uspace w1)(e := (uspace w1 e)(fd_pn j \<mapsto> (f, uvpt e (fd_pn i) w1 AND PTE_SYSCALL OR PTE_P)))"
    using r(2) assms(2,3,5) w1 by (auto split: if_splits)
  then show ?thesis using r w1 assms(2-5) by (auto split: if_splits)
qed

text \<open>\<open>dup\<close> of a descriptor onto itself closes it.\<close>

lemma dup_self:
  assumes "uworld_ok w" "i < 32" "uspace w e (fd_pn i) \<noteq> None" "close devtab e (of_nat i) w = Some (c, v)" "uworld_ok v"
    "uspace v e (fd_pn i) = None" "uspace v e (data_pn i) = None"
  shows "\<exists>w'. dup devtab e (of_nat i) (of_nat i) w = Some (Inl E_INVAL, w') \<and> fd_lookup (of_nat i) e w' = Inl E_INVAL"
proof -
  let ?o = "INDEX2FD (of_nat i)" and ?ova = "INDEX2DATA (of_nat i)"
  have m: "usys_page_map e ?o e ?o p v = (Inl E_INVAL, v)" for p using assms(2,6) by (simp add: usys_page_map_def)
  obtain x w1 where u1: "usys_page_unmap e ?o v = (x, w1)" by fastforce
  obtain y w2 where u2: "usys_page_unmap e ?ova w1 = (y, w2)" by fastforce
  note o1 = usys_page_unmap_ok [OF assms(5) u1] and o2 = usys_page_unmap_ok [OF _ u2]
  have "dup devtab e (of_nat i) (of_nat i) w = Some (Inl E_INVAL, w2)"
    using assms(2-4,7) m u1 u2 by (auto simp: dup_def fd_lookup_index dup_data_def mapped_def dup_fail_def)
  moreover have "uspace w2 e (fd_pn i) = None" using o1 o2 assms(2) by simp
  ultimately show ?thesis using assms(2) by (simp add: fd_lookup_index)
qed

end
