(* ===== verification/Jos_Pipe_Ends.thy ===== *)
theory Jos_Pipe_Ends
  imports Jos_Fd
begin

text \<open>
  The ends of a pipe (\<open>lib/pipe.c\<close>): making one, closing an end and finding out whether the other end
  is closed. Each end is a descriptor page, shared by its descriptors; the data page is mapped once for
  each descriptor of either end. An end is closed when the reference counts of the other descriptor page
  and of the data page agree. Environments run concurrently, one system call at a time.
\<close>

definition PTE_SHARE :: u32 where "PTE_SHARE = 0x400"

definition pipe_perm :: u32 where
  "pipe_perm = (PTE_P OR PTE_W OR PTE_U OR PTE_SHARE)"

definition devpipe_id :: u32 where "devpipe_id = 112"

definition undo :: "nat \<Rightarrow> u32 list \<Rightarrow> uworld \<Rightarrow> uworld" where
  "undo e vas w = fold (\<lambda>va w. snd (usys_page_unmap e va w)) vas w"

definition pipe_fds :: "nat \<Rightarrow> u32 \<Rightarrow> u32 \<Rightarrow> (u32 \<times> u32) ucall" where
  "pipe_fds e fd0 fd1 w = do {
     w \<leftarrow> ustore32 e (fd_dev_id fd0) devpipe_id w;
     w \<leftarrow> ustore32 e (fd_omode fd0) O_RDONLY w;
     w \<leftarrow> ustore32 e (fd_dev_id fd1) devpipe_id w;
     w \<leftarrow> ustore32 e (fd_omode fd1) O_WRONLY w;
     Some (Inr (fd2num fd0, fd2num fd1), w)
   }"

definition pipe_pages :: "nat \<Rightarrow> u32 \<Rightarrow> u32 \<Rightarrow> uworld \<Rightarrow> (jos_error + unit) \<times> uworld" where
  "pipe_pages e fd0 fd1 w =
     (let va = fd2data fd0 in
      case usys_page_alloc e va pipe_perm w of
        (Inl r, w) \<Rightarrow> (Inl r, undo e [fd1, fd0] w)
      | (Inr _, w) \<Rightarrow>
          (case usys_page_map e va e (fd2data fd1) pipe_perm w of
             (Inl r, w) \<Rightarrow> (Inl r, undo e [va, fd1, fd0] w)
           | (Inr _, w) \<Rightarrow> (Inr (), w)))"

definition pipe :: "nat \<Rightarrow> (u32 \<times> u32) ucall" where
  "pipe e w =
     (case fd_alloc e w of
        Inl r \<Rightarrow> Some (Inl r, w)
      | Inr fd0 \<Rightarrow>
     (case usys_page_alloc e fd0 pipe_perm w of
        (Inl r, w) \<Rightarrow> Some (Inl r, w)
      | (Inr _, w) \<Rightarrow>
     (case fd_alloc e w of
        Inl r \<Rightarrow> Some (Inl r, undo e [fd0] w)
      | Inr fd1 \<Rightarrow>
     (case usys_page_alloc e fd1 pipe_perm w of
        (Inl r, w) \<Rightarrow> Some (Inl r, undo e [fd0] w)
      | (Inr _, w) \<Rightarrow>
     (case pipe_pages e fd0 fd1 w of
        (Inl r, w) \<Rightarrow> Some (Inl r, w)
      | (Inr _, w) \<Rightarrow> pipe_fds e fd0 fd1 w)))))"

text \<open>
  One attempt of \<open>_pipeisclosed\<close> reads \<open>env_runs\<close>, the two reference counts, and \<open>env_runs\<close> again; the
  counts are read in the worlds \<open>w1\<close> and \<open>w2\<close>. It starts over while \<open>env_runs\<close> has changed.
\<close>

primrec pipeisclosed_loop :: "nat \<Rightarrow> u32 \<Rightarrow> u32 \<Rightarrow> (nat \<times> uworld \<times> uworld \<times> nat) list \<Rightarrow> bool option" where
  "pipeisclosed_loop e fd p [] = None"
| "pipeisclosed_loop e fd p (t # ts) =
     (case t of (n, w1, w2, nn) \<Rightarrow>
        if n = nn then Some (pageref e fd w1 = pageref e p w2) else pipeisclosed_loop e fd p ts)"

definition pipeisclosed :: "nat \<Rightarrow> u32 \<Rightarrow> uworld \<Rightarrow> (nat \<times> uworld \<times> uworld \<times> nat) list \<Rightarrow> (jos_error + bool) option" where
  "pipeisclosed e fdnum w ts =
     (case fd_lookup fdnum e w of
        Inl r \<Rightarrow> Some (Inl r)
      | Inr fd \<Rightarrow> map_option Inr (pipeisclosed_loop e fd (fd2data fd) ts))"

definition devpipe_stat :: "u32 \<Rightarrow> nat \<Rightarrow> u32 \<Rightarrow> u32 \<Rightarrow> u32 ucall" where
  "devpipe_stat self e fd st w = do {
     let p = fd2data fd;
     w \<leftarrow> ustore_bytes e (map (\<lambda>c. of_nat (of_char c)) ''<pipe>'' @ [0]) (st_name st) w;
     wpos \<leftarrow> uload32 e (p + 4) w;
     rpos \<leftarrow> uload32 e p w;
     w \<leftarrow> ustore32 e (st_size st) (wpos - rpos) w;
     w \<leftarrow> ustore32 e (st_isdir st) 0 w;
     w \<leftarrow> ustore32 e (st_dev st) self w;
     Some (Inr 0, w)
   }"

definition devpipe_close :: "nat \<Rightarrow> u32 \<Rightarrow> u32 ucall" where
  "devpipe_close e fd w =
     (let w = snd (usys_page_unmap e fd w); (r, w) = usys_page_unmap e (fd2data fd) w
      in Some (map_sum (\<lambda>er. er) (\<lambda>_. 0) r, w))"

section \<open>System calls of concurrent environments\<close>

datatype ucmd = UMap u32 u32 u32 | UUnmap u32

primrec run_cmd :: "nat \<Rightarrow> ucmd \<Rightarrow> uworld \<Rightarrow> (jos_error + unit) \<times> uworld" where
  "run_cmd e (UMap sva dva perm) w = usys_page_map e sva e dva perm w"
| "run_cmd e (UUnmap va) w = usys_page_unmap e va w"

text \<open>The calls of \<open>dup\<close> onto a closed descriptor, those after a failure, and the calls of \<open>close\<close> of a pipe.\<close>

definition dup_cmds :: "nat \<Rightarrow> nat \<Rightarrow> nat \<Rightarrow> uworld \<Rightarrow> ucmd list" where
  "dup_cmds e i j w =
     (let ova = INDEX2DATA (of_nat i); nva = INDEX2DATA (of_nat j); oldfd = INDEX2FD (of_nat i); newfd = INDEX2FD (of_nat j)
      in (if mapped e ova w then [UMap ova nva (uvpt e (PGNUM ova) w AND PTE_SYSCALL)] else []) @
         [UMap oldfd newfd (uvpt e (PGNUM oldfd) w AND PTE_SYSCALL)])"

definition close_cmds :: "nat \<Rightarrow> ucmd list" where
  "close_cmds i = [UUnmap (INDEX2FD (of_nat i)), UUnmap (INDEX2DATA (of_nat i))]"

primrec run_cmds :: "nat \<Rightarrow> ucmd list \<Rightarrow> ucmd list \<Rightarrow> uworld \<Rightarrow> (jos_error + unit) \<times> uworld" where
  "run_cmds e [] fl w = (Inr (), w)"
| "run_cmds e (c # cs) fl w =
     (case run_cmd e c w of
        (Inl r, w) \<Rightarrow> (Inl r, fold (\<lambda>c w. snd (run_cmd e c w)) fl w)
      | (Inr _, w) \<Rightarrow> run_cmds e cs fl w)"

text \<open>Run without interruption, the calls are \<open>dup\<close> and \<open>devpipe_close\<close>.\<close>

lemma uvpt_other: "\<lbrakk>uworld_ok w; usys_page_map e s e d p w = (r, w'); PGNUM d \<noteq> pn\<rbrakk> \<Longrightarrow> uvpt e pn w' = uvpt e pn w"
  using usys_page_map_ok [of w e s e d p r w'] by (auto simp: uvpt_def)

lemma dup_is_cmds:
  assumes "uworld_ok w" "i < 32" "j < 32" "i \<noteq> j" "uspace w e (fd_pn i) \<noteq> None" "uspace w e (fd_pn j) = None"
  shows "dup devtab e (of_nat i) (of_nat j) w =
    (case run_cmds e (dup_cmds e i j w) (close_cmds j) w of
       (Inl r, w) \<Rightarrow> Some (Inl r, w) | (Inr _, w) \<Rightarrow> Some (Inr (of_nat j), w))"
proof -
  have c: "close devtab e (of_nat j) w = Some (Inl E_INVAL, w)" using assms(3,6) by (simp add: close_def fd_lookup_index)
  obtain f p where f: "uspace w e (fd_pn i) = Some (f, p)" using assms(5) by auto
  have f': "dup_fail e (INDEX2FD (of_nat j)) (INDEX2DATA (of_nat j)) v = fold (\<lambda>c w. snd (run_cmd e c w)) (close_cmds j) v" for v
    by (simp add: dup_fail_def close_cmds_def)
  show ?thesis
  proof (cases "uspace w e (data_pn i) = None")
    case True
    then show ?thesis using assms(2,3) c f f'
      by (auto simp: dup_def fd_lookup_index dup_cmds_def mapped_def dup_data_def Let_def split: sum.splits prod.splits)
  next
    case False
    obtain r1 w1 where m: "usys_page_map e (INDEX2DATA (of_nat i)) e (INDEX2DATA (of_nat j)) (uvpt e (data_pn i) w AND PTE_SYSCALL) w = (r1, w1)"
      by fastforce
    have "uvpt e (fd_pn i) w1 = uvpt e (fd_pn i) w" using uvpt_other [OF assms(1) m] assms(2,3) by simp
    then show ?thesis using False assms(2,3) c f f' m
      by (auto simp: dup_def fd_lookup_index dup_cmds_def mapped_def dup_data_def Let_def split: sum.splits prod.splits)
  qed
qed

lemma close_is_cmds:
  assumes "i < 32"
  shows "devpipe_close e (INDEX2FD (of_nat i)) w = Some (Inr 0, fold (\<lambda>c w. snd (run_cmd e c w)) (close_cmds i) w)"
  using assms by (simp add: devpipe_close_def close_cmds_def usys_page_unmap_def)

text \<open>
  The state of the system: what each environment still has to do of the library call it is in.
  \<open>R\<close>, \<open>W\<close> and \<open>P\<close> are the frames of the descriptor pages for reading and for writing and of
  the data page. An environment that is not in such a call may do anything that does not concern the
  descriptor area or these frames.
\<close>

record usys =
  uw :: uworld
  todo :: "nat \<Rightarrow> ucmd list"
  onfail :: "nat \<Rightarrow> ucmd list"

definition same_fds :: "nat set \<Rightarrow> uworld \<Rightarrow> uworld \<Rightarrow> bool" where
  "same_fds F w w' \<longleftrightarrow> (\<forall>e i. i < 32 \<longrightarrow> uspace w' e (fd_pn i) = uspace w e (fd_pn i) \<and> uspace w' e (data_pn i) = uspace w e (data_pn i)) \<and>
     (\<forall>e pn f p. f \<in> F \<longrightarrow> uspace w' e pn = Some (f, p) \<longleftrightarrow> uspace w e pn = Some (f, p))"

inductive ends_step :: "nat \<Rightarrow> nat \<Rightarrow> nat \<Rightarrow> usys \<Rightarrow> usys \<Rightarrow> bool" for R W P where
  cmd: "\<lbrakk>todo s e = c # cs; run_cmd e c (uw s) = (r, w')\<rbrakk> \<Longrightarrow>
    ends_step R W P s (s\<lparr>uw := w', todo := (todo s)(e := (case r of Inl _ \<Rightarrow> onfail s e | Inr _ \<Rightarrow> cs)),
      onfail := (case r of Inl _ \<Rightarrow> (onfail s)(e := []) | Inr _ \<Rightarrow> onfail s)\<rparr>)"
| dup: "\<lbrakk>todo s e = []; i < 32; j < 32; uspace (uw s) e (fd_pn i) \<noteq> None; uspace (uw s) e (fd_pn j) = None\<rbrakk> \<Longrightarrow>
    ends_step R W P s (s\<lparr>todo := (todo s)(e := dup_cmds e i j (uw s)), onfail := (onfail s)(e := close_cmds j)\<rparr>)"
| close: "\<lbrakk>todo s e = []; i < 32; uspace (uw s) e (fd_pn i) = Some (f, p); f = R \<or> f = W\<rbrakk> \<Longrightarrow>
    ends_step R W P s (s\<lparr>todo := (todo s)(e := close_cmds i), onfail := (onfail s)(e := [])\<rparr>)"
| other: "\<lbrakk>uworld_ok w'; same_fds {R, W, P} (uw s) w'\<rbrakk> \<Longrightarrow> ends_step R W P s (s\<lparr>uw := w'\<rparr>)"

inductive ends_reach :: "nat \<Rightarrow> nat \<Rightarrow> nat \<Rightarrow> usys \<Rightarrow> usys \<Rightarrow> bool" for R W P s0 where
  refl: "ends_reach R W P s0 s0"
| step: "\<lbrakk>ends_reach R W P s0 s; ends_step R W P s s'\<rbrakk> \<Longrightarrow> ends_reach R W P s0 s'"

section \<open>The invariant\<close>

text \<open>It concerns each environment on its own; \<open>m\<close> is the address space of one.\<close>

type_synonym space = "u32 \<Rightarrow> (nat \<times> u32) option"

definition at_page :: "space \<Rightarrow> u32 \<Rightarrow> nat \<Rightarrow> bool" where
  "at_page m pn f \<longleftrightarrow> (\<exists>p. m pn = Some (f, p))"

definition end_at :: "nat \<Rightarrow> nat \<Rightarrow> space \<Rightarrow> nat \<Rightarrow> bool" where
  "end_at R W m i \<longleftrightarrow> at_page m (fd_pn i) R \<or> at_page m (fd_pn i) W"

text \<open>Every descriptor of the pipe has its data page; every mapping of the data page belongs to a descriptor, but for the target of the call in progress.\<close>

definition ends_have_data :: "nat \<Rightarrow> nat \<Rightarrow> nat \<Rightarrow> space \<Rightarrow> bool" where
  "ends_have_data R W P m \<longleftrightarrow> (\<forall>pn f. at_page m pn f \<longrightarrow> f = R \<or> f = W \<longrightarrow> (\<exists>i < 32. pn = fd_pn i)) \<and>
     (\<forall>i < 32. end_at R W m i \<longrightarrow> at_page m (data_pn i) P)"

definition data_has_end :: "nat \<Rightarrow> nat \<Rightarrow> nat \<Rightarrow> space \<Rightarrow> nat option \<Rightarrow> bool" where
  "data_has_end R W P m t \<longleftrightarrow> (\<forall>pn. at_page m pn P \<longrightarrow> (\<exists>i < 32. pn = data_pn i)) \<and>
     (\<forall>i < 32. at_page m (data_pn i) P \<longrightarrow> end_at R W m i \<or> t = Some i)"

inductive pending :: "nat \<Rightarrow> nat \<Rightarrow> nat \<Rightarrow> space \<Rightarrow> ucmd list \<Rightarrow> ucmd list \<Rightarrow> nat option \<Rightarrow> bool" for R W P m where
  idle: "pending R W P m [] fl None"
| dup_first: "\<lbrakk>i < 32; j < 32; i \<noteq> j; m (fd_pn j) = None\<rbrakk> \<Longrightarrow>
    pending R W P m [UMap (INDEX2DATA (of_nat i)) (INDEX2DATA (of_nat j)) p1, UMap (INDEX2FD (of_nat i)) (INDEX2FD (of_nat j)) p2]
      (close_cmds j) (Some j)"
| dup_second: "\<lbrakk>i < 32; j < 32; i \<noteq> j; m (fd_pn j) = None; at_page m (data_pn j) P = end_at R W m i\<rbrakk> \<Longrightarrow>
    pending R W P m [UMap (INDEX2FD (of_nat i)) (INDEX2FD (of_nat j)) p2] (close_cmds j) (Some j)"
| close_first: "j < 32 \<Longrightarrow> pending R W P m (close_cmds j) fl (Some j)"
| close_second: "\<lbrakk>j < 32; m (fd_pn j) = None\<rbrakk> \<Longrightarrow> pending R W P m [UUnmap (INDEX2DATA (of_nat j))] fl (Some j)"

definition space_inv :: "nat \<Rightarrow> nat \<Rightarrow> nat \<Rightarrow> space \<Rightarrow> ucmd list \<Rightarrow> ucmd list \<Rightarrow> bool" where
  "space_inv R W P m cs fl \<longleftrightarrow> ends_have_data R W P m \<and> (\<exists>t. pending R W P m cs fl t \<and> data_has_end R W P m t)"

definition ends_inv :: "nat \<Rightarrow> nat \<Rightarrow> nat \<Rightarrow> usys \<Rightarrow> bool" where
  "ends_inv R W P s \<longleftrightarrow> distinct [R, W, P] \<and> uworld_ok (uw s) \<and> (\<forall>e. space_inv R W P (uspace (uw s) e) (todo s e) (onfail s e))"

lemma pending_idle: "pending R W P m [] fl t \<Longrightarrow> t = None"
  by (auto elim: pending.cases simp: close_cmds_def)

lemma idle_inv: "space_inv R W P m [] fl \<Longrightarrow> ends_have_data R W P m \<and> data_has_end R W P m None"
  by (auto simp: space_inv_def dest: pending_idle)

lemma at_page_upd: "at_page (m(pn := v)) qn f \<longleftrightarrow> (if qn = pn then \<exists>p. v = Some (f, p) else at_page m qn f)"
  by (auto simp: at_page_def)

lemma end_at_upd:
  assumes "i < 32" "j < 32"
  shows "end_at R W (m(data_pn j := v)) i \<longleftrightarrow> end_at R W m i"
    "end_at R W (m(fd_pn j := v)) i \<longleftrightarrow> (if i = j then \<exists>p. v = Some (R, p) \<or> v = Some (W, p) else end_at R W m i)"
  using assms by (auto simp: end_at_def at_page_upd)

lemma close_inv:
  assumes "ends_have_data R W P m" "data_has_end R W P m t" "j < 32" "t = None \<or> t = Some j"
  shows "space_inv R W P m (close_cmds j) fl"
  unfolding space_inv_def
proof (intro conjI exI [of _ "Some j"])
  show "pending R W P m (close_cmds j) fl (Some j)" by (rule close_first) (rule assms(3))
  show "data_has_end R W P m (Some j)" using assms(2,4) by (auto simp: data_has_end_def)
qed (rule assms(1))

lemma unmap_fd_inv:
  assumes "ends_have_data R W P m" "data_has_end R W P m t" "j < 32" "t = None \<or> t = Some j"
  shows "space_inv R W P (m(fd_pn j := None)) [UUnmap (INDEX2DATA (of_nat j))] fl"
  unfolding space_inv_def
proof (intro conjI exI [of _ "Some j"])
  show "ends_have_data R W P (m(fd_pn j := None))" using assms(1,3) by (simp add: ends_have_data_def at_page_upd end_at_upd)
  show "pending R W P (m(fd_pn j := None)) [UUnmap (INDEX2DATA (of_nat j))] fl (Some j)" using assms(3) by (simp add: close_second)
  show "data_has_end R W P (m(fd_pn j := None)) (Some j)"
    using assms(2-4) by (auto simp: data_has_end_def at_page_upd end_at_upd)
qed

lemma unmap_data_inv:
  assumes "ends_have_data R W P m" "data_has_end R W P m (Some j)" "j < 32" "m (fd_pn j) = None"
  shows "space_inv R W P (m(data_pn j := None)) [] fl"
  unfolding space_inv_def
proof (intro conjI exI [of _ None])
  have nj: "\<not> end_at R W m j" using assms(4) by (simp add: end_at_def at_page_def)
  show "ends_have_data R W P (m(data_pn j := None))"
    using assms(1,3) nj by (auto simp: ends_have_data_def at_page_upd end_at_upd)
  show "pending R W P (m(data_pn j := None)) [] fl None" by (rule idle)
  show "data_has_end R W P (m(data_pn j := None)) None"
    using assms(2,3) by (auto simp: data_has_end_def at_page_upd end_at_upd)
qed

text \<open>The data page that \<open>dup\<close> maps is the one of the pipe just when the descriptor is one of its ends.\<close>

lemma data_iff_end:
  assumes "ends_have_data R W P m" "data_has_end R W P m t" "i < 32" "t \<noteq> Some i"
  shows "at_page m (data_pn i) P \<longleftrightarrow> end_at R W m i"
  using assms by (auto simp: ends_have_data_def data_has_end_def)

lemma at_data_not_end: "\<lbrakk>ends_have_data R W P m; i < 32; at_page m (data_pn i) g\<rbrakk> \<Longrightarrow> g \<noteq> R \<and> g \<noteq> W"
  unfolding ends_have_data_def by (metis fd_pn_inj(3))

lemma at_fd_not_data: "\<lbrakk>data_has_end R W P m t; i < 32; at_page m (fd_pn i) g\<rbrakk> \<Longrightarrow> g \<noteq> P"
  unfolding data_has_end_def by (metis fd_pn_inj(3))

lemma map_data_inv:
  assumes "ends_have_data R W P m" "data_has_end R W P m (Some j)" "i < 32" "j < 32" "i \<noteq> j"
    "m (fd_pn j) = None" "m (data_pn i) = Some (g, q)"
  shows "space_inv R W P (m(data_pn j \<mapsto> (g, q'))) [UMap (INDEX2FD (of_nat i)) (INDEX2FD (of_nat j)) p2] (close_cmds j)"
  unfolding space_inv_def
proof (intro conjI exI [of _ "Some j"])
  let ?m = "m(data_pn j \<mapsto> (g, q'))"
  have g: "at_page m (data_pn i) f \<longleftrightarrow> f = g" for f using assms(7) by (auto simp: at_page_def)
  have iff: "P = g \<longleftrightarrow> end_at R W m i" using data_iff_end [OF assms(1-3)] assms(5) g by simp
  have nj: "\<not> end_at R W m j" using assms(6) by (simp add: end_at_def at_page_def)
  have ng: "g \<noteq> R" "g \<noteq> W" using at_data_not_end [OF assms(1,3), of g] g by auto
  show "ends_have_data R W P ?m"
    using assms(1,4) nj ng by (auto simp: ends_have_data_def at_page_upd end_at_upd)
  show "pending R W P ?m [UMap (INDEX2FD (of_nat i)) (INDEX2FD (of_nat j)) p2] (close_cmds j) (Some j)"
    by (rule dup_second) (use assms(3-6) iff in \<open>auto simp: at_page_upd end_at_upd\<close>)
  show "data_has_end R W P ?m (Some j)"
    using assms(2,4) by (auto simp: data_has_end_def at_page_upd end_at_upd)
qed

lemma map_fd_inv:
  assumes "ends_have_data R W P m" "data_has_end R W P m (Some j)" "i < 32" "j < 32" "i \<noteq> j"
    "m (fd_pn j) = None" "at_page m (data_pn j) P = end_at R W m i" "m (fd_pn i) = Some (g, q)"
  shows "space_inv R W P (m(fd_pn j \<mapsto> (g, q'))) [] fl"
  unfolding space_inv_def
proof (intro conjI exI [of _ None])
  let ?m = "m(fd_pn j \<mapsto> (g, q'))"
  have g: "at_page m (fd_pn i) f \<longleftrightarrow> f = g" for f using assms(8) by (auto simp: at_page_def)
  have iff: "end_at R W m i \<longleftrightarrow> g = R \<or> g = W" using g by (auto simp: end_at_def)
  have ng: "g \<noteq> P" using at_fd_not_data [OF assms(2,3), of g] g by auto
  show "ends_have_data R W P ?m"
    using assms(1,4,7) iff by (auto simp: ends_have_data_def at_page_upd end_at_upd)
  show "pending R W P ?m [] fl None" by (rule idle)
  show "data_has_end R W P ?m None"
    using assms(2,4,7) iff ng by (auto simp: data_has_end_def at_page_upd end_at_upd)
qed

lemma cmd_inv:
  assumes ok: "uworld_ok w" and inv: "space_inv R W P (uspace w e) (c # cs) fl" and run: "run_cmd e c w = (r, w')"
  shows "uworld_ok w' \<and> (\<forall>d. d \<noteq> e \<longrightarrow> uspace w' d = uspace w d) \<and>
    space_inv R W P (uspace w' e) (case r of Inl _ \<Rightarrow> fl | Inr _ \<Rightarrow> cs) (case r of Inl _ \<Rightarrow> [] | Inr _ \<Rightarrow> fl)"
proof -
  let ?m = "uspace w e"
  obtain t where h: "ends_have_data R W P ?m" "pending R W P ?m (c # cs) fl t" "data_has_end R W P ?m t"
    using inv by (auto simp: space_inv_def)
  from h(2) show ?thesis
  proof (cases rule: pending.cases)
    case (dup_first i j p1 p2)
    then have m: "usys_page_map e (INDEX2DATA (of_nat i)) e (INDEX2DATA (of_nat j)) p1 w = (r, w')" using run by simp
    note o = usys_page_map_ok [OF ok m]
    show ?thesis
    proof (cases r)
      case (Inl er)
      then show ?thesis using o close_inv [OF h(1,3) dup_first(6)] dup_first by auto
    next
      case (Inr x)
      then obtain g q where "?m (data_pn i) = Some (g, q)" "uspace w' = (uspace w)(e := ?m(data_pn j \<mapsto> (g, p1 OR PTE_P)))" "uworld_ok w'"
        using o dup_first by auto
      then show ?thesis using map_data_inv [OF h(1) _ dup_first(5-8), of g q] h(3) Inr dup_first by auto
    qed
  next
    case (dup_second i j p2)
    then have m: "usys_page_map e (INDEX2FD (of_nat i)) e (INDEX2FD (of_nat j)) p2 w = (r, w')" using run by simp
    note o = usys_page_map_ok [OF ok m]
    show ?thesis
    proof (cases r)
      case (Inl er)
      then show ?thesis using o close_inv [OF h(1,3) dup_second(6)] dup_second by auto
    next
      case (Inr x)
      then obtain g q where "?m (fd_pn i) = Some (g, q)" "uspace w' = (uspace w)(e := ?m(fd_pn j \<mapsto> (g, p2 OR PTE_P)))" "uworld_ok w'"
        using o dup_second by auto
      then show ?thesis using map_fd_inv [OF h(1) _ dup_second(5-9), of g q] h(3) Inr dup_second by auto
    qed
  next
    case (close_first j)
    then have u: "usys_page_unmap e (INDEX2FD (of_nat j)) w = (r, w')" and cs: "cs = [UUnmap (INDEX2DATA (of_nat j))]"
      using run by (auto simp: close_cmds_def)
    have r: "r = Inr ()" using u close_first(3) by (simp add: usys_page_unmap_def)
    have o: "uworld_ok w'" "uspace w' = (uspace w)(e := ?m(fd_pn j := None))" using usys_page_unmap_ok [OF ok u] close_first(3) by simp_all
    show ?thesis using o r unmap_fd_inv [OF h(1,3) close_first(3), of fl] by (simp add: cs close_first(2))
  next
    case (close_second j)
    then have u: "usys_page_unmap e (INDEX2DATA (of_nat j)) w = (r, w')" using run by simp
    have r: "r = Inr ()" using u close_second(4) by (simp add: usys_page_unmap_def)
    have o: "uworld_ok w'" "uspace w' = (uspace w)(e := ?m(data_pn j := None))" using usys_page_unmap_ok [OF ok u] close_second(4) by simp_all
    have "data_has_end R W P ?m (Some j)" using h(3) close_second(3) by simp
    from unmap_data_inv [OF h(1) this close_second(4,5), of fl] show ?thesis using o r by (simp add: close_second(2))
  qed
qed

lemma same_fds_inv:
  assumes "same_fds {R, W, P} w w'" "space_inv R W P (uspace w e) cs fl"
  shows "space_inv R W P (uspace w' e) cs fl"
proof -
  have a: "f = R \<or> f = W \<or> f = P \<Longrightarrow> at_page (uspace w' e) pn f \<longleftrightarrow> at_page (uspace w e) pn f" for pn f
    using assms(1) by (auto simp: same_fds_def at_page_def)
  have n: "i < 32 \<Longrightarrow> uspace w' e (fd_pn i) = uspace w e (fd_pn i)" for i using assms(1) by (simp add: same_fds_def)
  have en: "end_at R W (uspace w' e) i \<longleftrightarrow> end_at R W (uspace w e) i" for i by (simp add: end_at_def a)
  obtain t where t: "pending R W P (uspace w e) cs fl t" "data_has_end R W P (uspace w e) t" using assms(2) by (auto simp: space_inv_def)
  have "pending R W P (uspace w' e) cs fl t"
    using t(1) by (cases rule: pending.cases) (auto intro: pending.intros simp: n a en)
  moreover have "ends_have_data R W P (uspace w' e)" "data_has_end R W P (uspace w' e) t"
    using assms(2) t(2) by (auto simp: space_inv_def ends_have_data_def data_has_end_def a en)
  ultimately show ?thesis by (auto simp: space_inv_def)
qed

lemma dup_cmds_inv:
  assumes "space_inv R W P (uspace w e) [] fl" "i < 32" "j < 32" "uspace w e (fd_pn i) \<noteq> None" "uspace w e (fd_pn j) = None"
  shows "space_inv R W P (uspace w e) (dup_cmds e i j w) (close_cmds j)"
proof -
  let ?m = "uspace w e"
  have h: "ends_have_data R W P ?m" "data_has_end R W P ?m None"
    using idle_inv [OF assms(1)] by simp_all
  have ij: "i \<noteq> j" using assms(4,5) by auto
  have hj: "data_has_end R W P ?m (Some j)" using h(2) by (auto simp: data_has_end_def)
  have "pending R W P ?m (dup_cmds e i j w) (close_cmds j) (Some j)"
  proof (cases "?m (data_pn i) = None")
    case True
    have "\<not> end_at R W ?m j" using assms(5) by (simp add: end_at_def at_page_def)
    then have "\<not> at_page ?m (data_pn j) P" using data_iff_end [OF h assms(3)] by simp
    moreover have "\<not> end_at R W ?m i" using data_iff_end [OF h assms(2)] True by (simp add: at_page_def)
    ultimately show ?thesis using True assms(2,3,5) ij by (auto simp: dup_cmds_def mapped_def Let_def intro: dup_second)
  next
    case False
    then show ?thesis using assms(2,3,5) ij by (auto simp: dup_cmds_def mapped_def Let_def intro: dup_first)
  qed
  then show ?thesis using h(1) hj by (auto simp: space_inv_def)
qed

lemma ends_step_inv:
  assumes "ends_inv R W P s" "ends_step R W P s s'"
  shows "ends_inv R W P s'"
proof -
  have i: "distinct [R, W, P]" "uworld_ok (uw s)" "\<And>e. space_inv R W P (uspace (uw s) e) (todo s e) (onfail s e)"
    using assms(1) by (simp_all add: ends_inv_def)
  from assms(2) show ?thesis
  proof (cases rule: ends_step.cases)
    case (cmd e c cs r w')
    have "space_inv R W P (uspace (uw s) e) (c # cs) (onfail s e)" using i(3) [of e] cmd(2) by simp
    note o = cmd_inv [OF i(2) this cmd(3)]
    show ?thesis
    proof (cases r)
      case (Inl er)
      then show ?thesis using o i(1,3) by (simp add: ends_inv_def cmd(1))
    next
      case (Inr x)
      then show ?thesis using o i(1,3) by (simp add: ends_inv_def cmd(1))
    qed
  next
    case (dup e i j)
    have "space_inv R W P (uspace (uw s) e) [] (onfail s e)" using i(3) [of e] dup(2) by simp
    from dup_cmds_inv [OF this dup(3-6)] show ?thesis using i by (simp add: ends_inv_def dup(1))
  next
    case (close e j f p)
    have "ends_have_data R W P (uspace (uw s) e)" "data_has_end R W P (uspace (uw s) e) None"
      using i(3) [of e] close(2) idle_inv by simp_all
    then show ?thesis using close_inv [OF _ _ close(3), of R W P "uspace (uw s) e" None "[]"] i by (simp add: ends_inv_def close(1))
  next
    case (other w')
    then show ?thesis using same_fds_inv [OF other(3)] i by (simp add: ends_inv_def)
  qed
qed

lemma ends_reach_inv: "\<lbrakk>ends_reach R W P s0 s; ends_inv R W P s0\<rbrakk> \<Longrightarrow> ends_inv R W P s"
  by (induction rule: ends_reach.induct) (auto intro: ends_step_inv)

section \<open>Counting\<close>

lemma fd_pn_data: "fd_pn i + 32 = data_pn i"
  by (simp add: fd_pn_def data_pn_def)

lemma refs_at: "uref w f = card {(e, pn). at_page (uspace w e) pn f}" "finite {(e, pn). at_page (uspace w e) pn f}" if "uworld_ok w"
proof -
  have "{k. umaps w k = Some f} = {(e, pn). at_page (uspace w e) pn f}" by (auto simp: umaps_eq at_page_def)
  moreover have "finite {k. umaps w k = Some f}" using that by (auto simp: uworld_ok_def intro: finite_occ)
  ultimately show "uref w f = card {(e, pn). at_page (uspace w e) pn f}" "finite {(e, pn). at_page (uspace w e) pn f}"
    using that by (simp_all add: uworld_ok_def occ_def)
qed

lemma ends_refs:
  assumes "ends_inv R W P s"
  shows "uref (uw s) R + uref (uw s) W \<le> uref (uw s) P"
    "(\<And>e. todo s e = []) \<Longrightarrow> uref (uw s) R + uref (uw s) W = uref (uw s) P"
proof -
  let ?at = "\<lambda>f. {(e, pn). at_page (uspace (uw s) e) pn f}" and ?sh = "\<lambda>(e :: nat, pn :: u32). (e, pn + 32)"
  have i: "R \<noteq> W" "uworld_ok (uw s)" "\<And>e. space_inv R W P (uspace (uw s) e) (todo s e) (onfail s e)"
    using assms by (simp_all add: ends_inv_def)
  have h: "ends_have_data R W P (uspace (uw s) e)" for e using i(3) by (simp add: space_inv_def)
  have dis: "?at R \<inter> ?at W = {}" using i(1) by (auto simp: at_page_def)
  have inj: "inj ?sh" by (auto simp: inj_on_def)
  have sub: "?sh ` (?at R \<union> ?at W) \<subseteq> ?at P"
  proof
    fix x
    assume "x \<in> ?sh ` (?at R \<union> ?at W)"
    then obtain e pn f where x: "x = (e, pn + 32)" "at_page (uspace (uw s) e) pn f" "f = R \<or> f = W" by auto
    then obtain k where "k < 32" "pn = fd_pn k" using h [of e] by (auto simp: ends_have_data_def)
    moreover from this have "end_at R W (uspace (uw s) e) k" using x(2,3) by (auto simp: end_at_def)
    ultimately show "x \<in> ?at P" using h [of e] x(1) by (auto simp: ends_have_data_def fd_pn_data)
  qed
  have c: "card (?sh ` (?at R \<union> ?at W)) = uref (uw s) R + uref (uw s) W"
    using card_image [OF inj_on_subset [OF inj]] card_Un_disjoint [OF refs_at(2) refs_at(2) dis] refs_at(1) i(2) by simp
  then show "uref (uw s) R + uref (uw s) W \<le> uref (uw s) P"
    using card_mono [OF refs_at(2) sub] refs_at(1) i(2) by simp
  assume idle: "\<And>e. todo s e = []"
  have "?at P \<subseteq> ?sh ` (?at R \<union> ?at W)"
  proof
    fix x
    assume "x \<in> ?at P"
    then obtain e pn where x: "x = (e, pn)" "at_page (uspace (uw s) e) pn P" by auto
    have d: "data_has_end R W P (uspace (uw s) e) None" using i(3) [of e] idle [of e] by (simp add: idle_inv)
    then obtain k where k: "k < 32" "pn = data_pn k" using x(2) by (auto simp: data_has_end_def)
    then have "end_at R W (uspace (uw s) e) k" using d x(2) by (auto simp: data_has_end_def)
    then have "(e, fd_pn k) \<in> ?at R \<union> ?at W" by (auto simp: end_at_def)
    then show "x \<in> ?sh ` (?at R \<union> ?at W)" by (rule rev_image_eqI) (simp add: x(1) k(2) fd_pn_data)
  qed
  then show "uref (uw s) R + uref (uw s) W = uref (uw s) P" using sub c refs_at(1) i(2) by (metis subset_antisym)
qed

lemma no_refs: "\<lbrakk>uworld_ok w; uref w f = 0\<rbrakk> \<Longrightarrow> \<not> at_page (uspace w e) pn f"
  using refs_at [of w f] by auto

text \<open>
  A reader that finds its end alone is right: no environment has the other end open. Attempts during
  which it was not interrupted see one world.
\<close>

lemma closed_sound:
  assumes "ends_inv R W P s" "i < 32" "at_page (uspace (uw s) e) (fd_pn i) R"
    "pipeisclosed e (of_nat i) (uw s) ts = Some (Inr True)"
    "\<And>n w1 w2. (n, w1, w2, n) \<in> set ts \<Longrightarrow> w1 = uw s \<and> w2 = uw s"
  shows "\<forall>d pn. \<not> at_page (uspace (uw s) d) pn W"
proof -
  let ?fd = "INDEX2FD (of_nat i)"
  have ok: "uworld_ok (uw s)" and h: "ends_have_data R W P (uspace (uw s) e)" using assms(1) by (auto simp: ends_inv_def space_inv_def)
  have p: "at_page (uspace (uw s) e) (data_pn i) P" using h assms(2,3) by (auto simp: ends_have_data_def end_at_def)
  have r: "pageref e ?fd (uw s) = uref (uw s) R" "pageref e (fd2data ?fd) (uw s) = uref (uw s) P"
    using assms(2,3) p by (auto simp: pageref_def at_page_def)
  have "fd_lookup (of_nat i) e (uw s) = Inr ?fd" using assms(2,3) by (auto simp: fd_lookup_index at_page_def)
  then have l: "pipeisclosed_loop e ?fd (fd2data ?fd) ts = Some True" using assms(4) by (auto simp: pipeisclosed_def)
  have "pipeisclosed_loop e ?fd (fd2data ?fd) ts = Some True \<Longrightarrow> (\<And>n w1 w2. (n, w1, w2, n) \<in> set ts \<Longrightarrow> w1 = uw s \<and> w2 = uw s) \<Longrightarrow>
      pageref e ?fd (uw s) = pageref e (fd2data ?fd) (uw s)" for ts
  proof (induction ts)
    case (Cons t ts)
    obtain n w1 w2 nn where t: "t = (n, w1, w2, nn)" by (cases t)
    show ?case
    proof (cases "n = nn")
      case True
      then have "w1 = uw s" "w2 = uw s" using Cons.prems(2) [of n w1 w2] t by auto
      then show ?thesis using Cons.prems(1) t True by simp
    next
      case False
      then show ?thesis using Cons.IH Cons.prems t by auto
    qed
  qed simp
  from this [OF l assms(5)] r have "uref (uw s) W = 0" using ends_refs(1) [OF assms(1)] by simp
  then show ?thesis using no_refs [OF ok] by blast
qed

text \<open>When no call is in progress the answer is exact.\<close>

lemma closed_exact:
  assumes "ends_inv R W P s" "\<And>e. todo s e = []" "i < 32" "at_page (uspace (uw s) e) (fd_pn i) R"
  shows "pipeisclosed e (of_nat i) (uw s) [(n, uw s, uw s, n)] = Some (Inr (\<forall>d pn. \<not> at_page (uspace (uw s) d) pn W))"
proof -
  let ?fd = "INDEX2FD (of_nat i)"
  have ok: "uworld_ok (uw s)" and h: "ends_have_data R W P (uspace (uw s) e)" using assms(1) by (auto simp: ends_inv_def space_inv_def)
  have p: "at_page (uspace (uw s) e) (data_pn i) P" using h assms(3,4) by (auto simp: ends_have_data_def end_at_def)
  have r: "pageref e ?fd (uw s) = uref (uw s) R" "pageref e (INDEX2DATA (of_nat i)) (uw s) = uref (uw s) P"
    using assms(3,4) p by (auto simp: pageref_def at_page_def)
  have "uref (uw s) W = 0 \<longleftrightarrow> (\<forall>d pn. \<not> at_page (uspace (uw s) d) pn W)" using refs_at [OF ok, of W] by (auto simp: card_eq_0_iff)
  moreover have "fd_lookup (of_nat i) e (uw s) = Inr ?fd" using assms(3,4) by (auto simp: fd_lookup_index at_page_def)
  ultimately show ?thesis using ends_refs(2) [OF assms(1,2)] r assms(3) by (auto simp: pipeisclosed_def)
qed

section \<open>A new pipe\<close>

lemma ustore_same: "ustore e a c w = Some w' \<Longrightarrow> uspace w' = uspace w \<and> (uworld_ok w \<longrightarrow> uworld_ok w')"
  by (auto simp: ustore_def uworld_ok_def Option.bind_eq_Some_conv split: if_splits)

lemma ustore32_same: "ustore32 e a v w = Some w' \<Longrightarrow> uspace w' = uspace w \<and> (uworld_ok w \<longrightarrow> uworld_ok w')"
  by (auto simp: ustore32_def Option.bind_eq_Some_conv dest!: ustore_same)

lemma fd_alloc_free:
  assumes "fd_alloc e w = Inr fd"
  obtains i where "i < 32" "fd = INDEX2FD (of_nat i)" "uspace w e (fd_pn i) = None"
  using fd_alloc_lowest [of e w] assms by auto

lemma alloc_frame:
  assumes "uworld_ok w" "usys_page_alloc e va perm w = (Inr x, w')"
  obtains f where "\<And>d pn p. uspace w d pn \<noteq> Some (f, p)" "uworld_ok w'"
    "uspace w' = (uspace w)(e := (uspace w e)(PGNUM va \<mapsto> (f, perm OR PTE_P)))"
  using usys_page_alloc_ok [OF assms] by auto

lemma pipe_new:
  assumes ok: "uworld_ok w" and p: "pipe e w = Some (Inr (n0, n1), w')"
  shows "\<exists>R W P i j q. i < 32 \<and> j < 32 \<and> n0 = of_nat i \<and> n1 = of_nat j \<and> i \<noteq> j \<and> distinct [R, W, P] \<and> uworld_ok w' \<and>
    (\<forall>d pn r. uspace w d pn \<noteq> Some (R, r) \<and> uspace w d pn \<noteq> Some (W, r) \<and> uspace w d pn \<noteq> Some (P, r)) \<and>
    uspace w' = (uspace w)(e := (uspace w e)(fd_pn i \<mapsto> (R, q), fd_pn j \<mapsto> (W, q), data_pn i \<mapsto> (P, q), data_pn j \<mapsto> (P, q)))"
proof -
  obtain fd0 where f0: "fd_alloc e w = Inr fd0" using p by (auto simp: pipe_def split: sum.splits)
  then obtain i where i: "i < 32" "fd0 = INDEX2FD (of_nat i)" "uspace w e (fd_pn i) = None" by (rule fd_alloc_free)
  obtain w1 where a1: "usys_page_alloc e fd0 pipe_perm w = (Inr (), w1)" using p f0 by (auto simp: pipe_def split: sum.splits prod.splits)
  obtain R where R: "\<And>d pn r. uspace w d pn \<noteq> Some (R, r)" "uworld_ok w1"
    "uspace w1 = (uspace w)(e := (uspace w e)(fd_pn i \<mapsto> (R, pipe_perm OR PTE_P)))"
    using alloc_frame [OF ok a1] i by auto
  obtain fd1 where f1: "fd_alloc e w1 = Inr fd1" using p f0 a1 by (auto simp: pipe_def split: sum.splits)
  then obtain j where j: "j < 32" "fd1 = INDEX2FD (of_nat j)" "uspace w1 e (fd_pn j) = None" by (rule fd_alloc_free)
  have ij: "i \<noteq> j" using j(3) R(3) by auto
  obtain w2 where a2: "usys_page_alloc e fd1 pipe_perm w1 = (Inr (), w2)" using p f0 a1 f1 by (auto simp: pipe_def split: sum.splits prod.splits)
  obtain W where W: "\<And>d pn r. uspace w1 d pn \<noteq> Some (W, r)" "uworld_ok w2"
    "uspace w2 = (uspace w1)(e := (uspace w1 e)(fd_pn j \<mapsto> (W, pipe_perm OR PTE_P)))"
    using alloc_frame [OF R(2) a2] j by auto
  obtain w4 where pg: "pipe_pages e fd0 fd1 w2 = (Inr (), w4)" "pipe_fds e fd0 fd1 w4 = Some (Inr (n0, n1), w')"
    using p f0 a1 f1 a2 by (auto simp: pipe_def split: sum.splits prod.splits)
  obtain w3 where a3: "usys_page_alloc e (INDEX2DATA (of_nat i)) pipe_perm w2 = (Inr (), w3)"
    "usys_page_map e (INDEX2DATA (of_nat i)) e (INDEX2DATA (of_nat j)) pipe_perm w3 = (Inr (), w4)"
    using pg(1) i j by (auto simp: pipe_pages_def Let_def split: sum.splits prod.splits)
  obtain P where P: "\<And>d pn r. uspace w2 d pn \<noteq> Some (P, r)" "uworld_ok w3"
    "uspace w3 = (uspace w2)(e := (uspace w2 e)(data_pn i \<mapsto> (P, pipe_perm OR PTE_P)))"
    using alloc_frame [OF W(2) a3(1)] i by auto
  have m: "uworld_ok w4" "uspace w4 = (uspace w3)(e := (uspace w3 e)(data_pn j \<mapsto> (P, pipe_perm OR PTE_P)))"
    using usys_page_map_ok [OF P(2) a3(2)] i(1) j(1) P(3) by auto
  have st: "uspace w' = uspace w4" "uworld_ok w'" "n0 = of_nat i" "n1 = of_nat j"
    using pg(2) m(1) i j by (auto simp: pipe_fds_def Option.bind_eq_Some_conv dest!: ustore32_same)
  have d: "W \<noteq> R" "P \<noteq> W" "P \<noteq> R"
    using W(1) [of e "fd_pn i"] P(1) [of e "fd_pn j"] P(1) [of e "fd_pn i"] W(3) R(3) ij i(1) j(1) by auto
  have e1: "uspace w d pn = Some x \<Longrightarrow> uspace w1 d pn = Some x" for d pn x using R(3) i(3) by auto
  have e2: "uspace w1 d pn = Some x \<Longrightarrow> uspace w2 d pn = Some x" for d pn x using W(3) j(3) by auto
  have n: "uspace w d pn \<noteq> Some (R, r) \<and> uspace w d pn \<noteq> Some (W, r) \<and> uspace w d pn \<noteq> Some (P, r)" for d pn r
    using R(1) W(1) P(1) e1 e2 by blast
  show ?thesis
    using i(1) j(1) ij d n st m(2) P(3) W(3) R(3)
    by (intro exI [of _ R] exI [of _ W] exI [of _ P] exI [of _ i] exI [of _ j] exI [of _ "pipe_perm OR PTE_P"]) auto
qed

lemma pipe_ends_inv:
  assumes "uworld_ok w" "pipe e w = Some (Inr (n0, n1), w')"
  shows "\<exists>R W P i j. i < 32 \<and> j < 32 \<and> n0 = of_nat i \<and> n1 = of_nat j \<and> i \<noteq> j \<and> at_page (uspace w' e) (fd_pn i) R \<and>
    at_page (uspace w' e) (fd_pn j) W \<and> ends_inv R W P \<lparr>uw = w', todo = (\<lambda>_. []), onfail = (\<lambda>_. [])\<rparr>"
proof -
  obtain R W P i j q where n: "i < 32" "j < 32" "n0 = of_nat i" "n1 = of_nat j" "i \<noteq> j" "distinct [R, W, P]" "uworld_ok w'"
    "\<And>d pn r. uspace w d pn \<noteq> Some (R, r) \<and> uspace w d pn \<noteq> Some (W, r) \<and> uspace w d pn \<noteq> Some (P, r)"
    "uspace w' = (uspace w)(e := (uspace w e)(fd_pn i \<mapsto> (R, q), fd_pn j \<mapsto> (W, q), data_pn i \<mapsto> (P, q), data_pn j \<mapsto> (P, q)))"
    using pipe_new [OF assms] by blast
  have none: "\<not> at_page (uspace w d) pn R" "\<not> at_page (uspace w d) pn W" "\<not> at_page (uspace w d) pn P" for d pn
    using n(8) by (auto simp: at_page_def)
  have "space_inv R W P (uspace w' d) [] []" for d
    unfolding space_inv_def
  proof (intro conjI exI [of _ None] idle)
    show "ends_have_data R W P (uspace w' d)"
      using n(1,2,5,6) none unfolding n(9) ends_have_data_def end_at_def by (auto simp: at_page_upd split: if_splits)
    show "data_has_end R W P (uspace w' d) None"
      using n(1,2,5,6) none unfolding n(9) data_has_end_def end_at_def by (auto simp: at_page_upd split: if_splits)
  qed
  then show ?thesis using n(1-7) by (intro exI [of _ R] exI [of _ W] exI [of _ P] exI [of _ i] exI [of _ j])
    (auto simp: ends_inv_def n(9) at_page_def)
qed

end
