(* ===== verification/Jos_Fork.thy ===== *)
theory Jos_Fork
  imports Jos_Pipe_Ends
begin

text \<open>
  Copy-on-write \<open>fork\<close> (\<open>lib/fork.c\<close>, \<open>lib/pgfault.c\<close>). The parent maps its pages into the child, read
  only and marked \<open>PTE_COW\<close> where they were writable, and marks its own mappings; the fault handler of
  either gives it a private copy when it writes. Pages marked \<open>PTE_SHARE\<close> stay shared.
\<close>

definition PTE_COW :: u32 where "PTE_COW = 0x800"
definition UTEXT :: u32 where "UTEXT = 0x800000"
definition PFTEMP :: u32 where "PFTEMP = 0x7FF000"
definition FEC_WR :: u32 where "FEC_WR = 2"

text \<open>\<open>memcpy\<close> of a whole page.\<close>

definition ucopy_page :: "nat \<Rightarrow> u32 \<Rightarrow> u32 \<Rightarrow> uworld \<Rightarrow> uworld option" where
  "ucopy_page e dst src w = do {
     (f, p) \<leftarrow> uspace w e (PGNUM src);
     c_assert (p AND PTE_U \<noteq> 0);
     (g, q) \<leftarrow> uspace w e (PGNUM dst);
     c_assert (q AND PTE_U \<noteq> 0 \<and> q AND PTE_W \<noteq> 0);
     Some (w\<lparr>ubyte := (ubyte w)(g := ubyte w f)\<rparr>)
   }"

definition pgfault :: "nat \<Rightarrow> u32 \<Rightarrow> u32 \<Rightarrow> uworld \<Rightarrow> uworld option" where
  "pgfault e addr err w = do {
     c_assert (err AND FEC_WR \<noteq> 0 \<and> mapped e addr w \<and> uvpt e (PGNUM addr) w AND PTE_COW \<noteq> 0);
     (case usys_page_alloc e PFTEMP (PTE_P OR PTE_W OR PTE_U) w of
        (Inl _, _) \<Rightarrow> None
      | (Inr _, w) \<Rightarrow> do {
          let addr = ROUNDDOWN addr PGSIZE;
          w \<leftarrow> ucopy_page e PFTEMP addr w;
          (case usys_page_map e PFTEMP e addr (PTE_P OR PTE_W OR PTE_U) w of
             (Inl _, _) \<Rightarrow> None
           | (Inr _, w) \<Rightarrow>
               (case usys_page_unmap e PFTEMP w of (Inl _, _) \<Rightarrow> None | (Inr _, w) \<Rightarrow> Some w))
        })
   }"

definition duppage :: "nat \<Rightarrow> nat \<Rightarrow> u32 \<Rightarrow> uworld \<Rightarrow> (jos_error + unit) \<times> uworld" where
  "duppage e c pn w =
     (let va = pn * PGSIZE; pte = uvpt e pn w in
      if pte AND PTE_SHARE \<noteq> 0 then usys_page_map e va c va (pte AND PTE_SYSCALL) w
      else if pte AND PTE_W \<noteq> 0 \<or> pte AND PTE_COW \<noteq> 0 then
        (case usys_page_map e va c va (PTE_P OR PTE_U OR PTE_COW) w of
           (Inl r, w) \<Rightarrow> (Inl r, w)
         | (Inr _, w) \<Rightarrow> usys_page_map e va e va (PTE_P OR PTE_U OR PTE_COW) w)
      else usys_page_map e va c va (PTE_P OR PTE_U) w)"

primrec duppages :: "nat \<Rightarrow> nat \<Rightarrow> u32 list \<Rightarrow> uworld \<Rightarrow> (jos_error + unit) \<times> uworld" where
  "duppages e c [] w = (Inr (), w)"
| "duppages e c (pn # pns) w =
     (if uspace w e pn = None then duppages e c pns w
      else case duppage e c pn w of
        (Inl r, w) \<Rightarrow> (Inl r, w)
      | (Inr _, w) \<Rightarrow> duppages e c pns w)"

definition fork_pages :: "u32 list" where
  "fork_pages = map of_nat [unat (PGNUM UTEXT)..<unat (PGNUM USTACKTOP)]"

text \<open>The results of the two calls are not looked at.\<close>

definition set_pgfault_handler :: "nat \<Rightarrow> u32 \<Rightarrow> bool \<Rightarrow> uworld \<Rightarrow> uworld" where
  "set_pgfault_handler e upcall installed w =
     (if installed then w
      else let w = snd (usys_page_alloc e (UXSTACKTOP - PGSIZE) PTE_SYSCALL w)
           in w\<lparr>uupcall := (uupcall w)(e := upcall)\<rparr>)"

text \<open>\<open>fork\<close> in the parent; \<open>installed\<close> says whether a handler has been set before.\<close>

definition fork :: "nat \<Rightarrow> u32 \<Rightarrow> bool \<Rightarrow> nat ucall" where
  "fork e upcall installed w =
     (let w = set_pgfault_handler e upcall installed w in
      case usys_exofork w of
        (Inl _, _) \<Rightarrow> None
      | (Inr c, w) \<Rightarrow>
     (case duppages e c fork_pages w of
        (Inl r, w) \<Rightarrow> Some (Inl r, w)
      | (Inr _, w) \<Rightarrow>
     (case usys_page_alloc c (UXSTACKTOP - PGSIZE) (PTE_U OR PTE_P OR PTE_W) w of
        (Inl r, w) \<Rightarrow> Some (Inl r, w)
      | (Inr _, w) \<Rightarrow>
          let w = w\<lparr>uupcall := (uupcall w)(c := upcall)\<rparr>;
              w = w\<lparr>ustatus := (ustatus w)(c := ENV_RUNNABLE)\<rparr>
          in Some (Inr c, w))))"

text \<open>A store of a program that has the handler installed.\<close>

definition cow_store :: "nat \<Rightarrow> u32 \<Rightarrow> u8 \<Rightarrow> uworld \<Rightarrow> uworld option" where
  "cow_store e va v w =
     (if mapped e va w \<and> uvpt e (PGNUM va) w AND PTE_W \<noteq> 0 then ustore e va v w
      else do { w \<leftarrow> pgfault e va FEC_WR w; ustore e va v w })"

section \<open>Mappings\<close>

text \<open>What \<open>duppage\<close> makes of a page table entry, in the child and in the parent.\<close>

definition child_pte :: "u32 \<Rightarrow> u32" where
  "child_pte p = (if p AND PTE_SHARE \<noteq> 0 then p AND PTE_SYSCALL OR PTE_P
     else if p AND PTE_W \<noteq> 0 \<or> p AND PTE_COW \<noteq> 0 then PTE_P OR PTE_U OR PTE_COW else PTE_P OR PTE_U)"

definition parent_pte :: "u32 \<Rightarrow> u32" where
  "parent_pte p = (if p AND PTE_SHARE = 0 \<and> (p AND PTE_W \<noteq> 0 \<or> p AND PTE_COW \<noteq> 0) then PTE_P OR PTE_U OR PTE_COW else p)"

definition dup_space :: "nat \<Rightarrow> nat \<Rightarrow> u32 set \<Rightarrow> (nat \<Rightarrow> space) \<Rightarrow> nat \<Rightarrow> space" where
  "dup_space e c A m = (\<lambda>d pn.
     if pn \<in> A \<and> m e pn \<noteq> None then
       (if d = c then map_option (\<lambda>(f, p). (f, child_pte p)) (m e pn)
        else if d = e then map_option (\<lambda>(f, p). (f, parent_pte p)) (m e pn) else m d pn)
     else m d pn)"

lemma page_va:
  assumes "unat pn < 0xEEC00"
  shows "PGNUM (pn * PGSIZE) = pn" "\<not> bad_va (pn * PGSIZE)"
proof -
  have "unat (pn * PGSIZE) = unat pn * 4096 mod 2 ^ 32" by (simp add: unat_word_ariths)
  moreover have "unat pn * 4096 < 4005560320" using assms by simp
  ultimately have u: "unat (pn * PGSIZE) = unat pn * 4096" "unat pn * 4096 < 4005560320" by simp_all
  then show "PGNUM (pn * PGSIZE) = pn" by (simp only: word_eq_unat unat_PGNUM)
  show "\<not> bad_va (pn * PGSIZE)"
    using u by (simp add: bad_va_def layout_defs word_le_nat_alt word_eq_unat unat_PGOFF)
qed

lemma map_at:
  assumes "uworld_ok w" "unat pn < 0xEEC00" "usys_page_map e (pn * PGSIZE) d (pn * PGSIZE) perm w = (Inr x, w')"
    "uspace w e pn = Some (f, p)"
  shows "uworld_ok w' \<and> ubyte w' = ubyte w \<and> ustatus w' = ustatus w \<and> uspace w' = (uspace w)(d := (uspace w d)(pn \<mapsto> (f, perm OR PTE_P)))"
  using usys_page_map_ok [OF assms(1,3)] assms(4) page_va [OF assms(2)] by auto

lemma duppage_ok:
  assumes "uworld_ok w" "unat pn < 0xEEC00" "c \<noteq> e" "uspace w e pn = Some (f, p)" "duppage e c pn w = (Inr x, w')"
  shows "uworld_ok w' \<and> ubyte w' = ubyte w \<and> ustatus w' = ustatus w \<and> uspace w' = dup_space e c {pn} (uspace w)"
proof -
  have u: "uvpt e pn w = p" using assms(4) by (simp add: uvpt_def)
  have one: "(uspace w)(c := (uspace w c)(pn \<mapsto> (f, child_pte p))) = dup_space e c {pn} (uspace w)" if "parent_pte p = p"
    using assms(3,4) that by (auto simp: dup_space_def fun_eq_iff)
  show ?thesis
  proof (cases "p AND PTE_SHARE \<noteq> 0")
    case True
    then have "usys_page_map e (pn * PGSIZE) c (pn * PGSIZE) (p AND PTE_SYSCALL) w = (Inr x, w')" "parent_pte p = p"
      "child_pte p = p AND PTE_SYSCALL OR PTE_P"
      using assms(5) u by (simp_all add: duppage_def parent_pte_def child_pte_def Let_def)
    then show ?thesis using map_at [OF assms(1,2) _ assms(4), of c "p AND PTE_SYSCALL"] one by simp
  next
    case share: False
    show ?thesis
    proof (cases "p AND PTE_W \<noteq> 0 \<or> p AND PTE_COW \<noteq> 0")
      case True
      let ?q = "PTE_P OR PTE_U OR PTE_COW"
      obtain w1 where m: "usys_page_map e (pn * PGSIZE) c (pn * PGSIZE) ?q w = (Inr (), w1)"
        "usys_page_map e (pn * PGSIZE) e (pn * PGSIZE) ?q w1 = (Inr x, w')"
        using assms(5) u share True by (auto simp: duppage_def Let_def split: prod.splits sum.splits)
      note o1 = map_at [OF assms(1,2) m(1) assms(4)]
      have "uspace w1 e pn = Some (f, p)" using o1 assms(3,4) by simp
      note o2 = map_at [OF conjunct1 [OF o1] assms(2) m(2) this]
      have "child_pte p = ?q" "parent_pte p = ?q" "?q OR PTE_P = ?q" using share True by (auto simp: child_pte_def parent_pte_def PTE_COW_def)
      then have "uspace w' = dup_space e c {pn} (uspace w)" using o1 o2 assms(3,4) by (auto simp: dup_space_def fun_eq_iff)
      then show ?thesis using o1 o2 by simp
    next
      case False
      then have "usys_page_map e (pn * PGSIZE) c (pn * PGSIZE) (PTE_P OR PTE_U) w = (Inr x, w')" "parent_pte p = p"
        "child_pte p = PTE_P OR PTE_U OR PTE_P"
        using assms(5) u share by (simp_all add: duppage_def parent_pte_def child_pte_def Let_def)
      then show ?thesis using map_at [OF assms(1,2) _ assms(4), of c "PTE_P OR PTE_U"] one by simp
    qed
  qed
qed

lemma dup_space_insert:
  "\<lbrakk>c \<noteq> e; pn \<notin> A\<rbrakk> \<Longrightarrow> dup_space e c A (dup_space e c {pn} m) = dup_space e c (insert pn A) m"
  by (auto simp: dup_space_def fun_eq_iff split: option.splits)

lemma dup_space_none: "m e pn = None \<Longrightarrow> dup_space e c (insert pn A) m = dup_space e c A m"
  by (auto simp: dup_space_def fun_eq_iff)

lemma duppages_ok:
  "\<lbrakk>uworld_ok w; c \<noteq> e; \<forall>pn \<in> set pns. unat pn < 0xEEC00; distinct pns; duppages e c pns w = (Inr x, w')\<rbrakk> \<Longrightarrow>
   uworld_ok w' \<and> ubyte w' = ubyte w \<and> ustatus w' = ustatus w \<and> uspace w' = dup_space e c (set pns) (uspace w)"
proof (induction pns arbitrary: w)
  case Nil
  then show ?case by (auto simp: dup_space_def)
next
  case (Cons pn pns)
  show ?case
  proof (cases "uspace w e pn")
    case None
    then show ?thesis using Cons by (simp add: dup_space_none)
  next
    case (Some m)
    then obtain f p where m: "uspace w e pn = Some (f, p)" by (cases m) auto
    obtain w1 where w1: "duppage e c pn w = (Inr (), w1)" "duppages e c pns w1 = (Inr x, w')"
      using Cons.prems(5) m by (auto split: prod.splits sum.splits)
    have o: "uworld_ok w1 \<and> ubyte w1 = ubyte w \<and> ustatus w1 = ustatus w \<and> uspace w1 = dup_space e c {pn} (uspace w)"
      using duppage_ok [OF Cons.prems(1) _ Cons.prems(2) m w1(1)] Cons.prems(3) by simp
    with Cons.IH [of w1] Cons.prems w1(2) show ?thesis by (simp add: dup_space_insert)
  qed
qed

section \<open>Private pages\<close>

text \<open>A page that can be written and is not meant to be shared is mapped nowhere else.\<close>

definition cow_inv :: "uworld \<Rightarrow> bool" where
  "cow_inv w \<longleftrightarrow> (\<forall>e pn f p d qn q. uspace w e pn = Some (f, p) \<longrightarrow> p AND PTE_W \<noteq> 0 \<longrightarrow> p AND PTE_SHARE = 0 \<longrightarrow>
     uspace w d qn = Some (f, q) \<longrightarrow> d = e \<and> qn = pn)"

lemma cow_invD:
  "\<lbrakk>cow_inv w; uspace w e pn = Some (f, p); p AND PTE_W \<noteq> 0; p AND PTE_SHARE = 0; uspace w d qn = Some (f, q)\<rbrakk> \<Longrightarrow> d = e \<and> qn = pn"
  unfolding cow_inv_def by blast

lemma cow_inv_same: "\<lbrakk>cow_inv w; uspace w' = uspace w\<rbrakk> \<Longrightarrow> cow_inv w'"
  by (simp add: cow_inv_def)

lemma cow_inv_less: "\<lbrakk>cow_inv w; \<And>e pn x. uspace w' e pn = Some x \<Longrightarrow> uspace w e pn = Some x\<rbrakk> \<Longrightarrow> cow_inv w'"
  unfolding cow_inv_def by blast

lemma cow_inv_fresh:
  assumes "cow_inv w" "\<And>d pn p. uspace w d pn \<noteq> Some (f, p)" "uspace w' = (uspace w)(e := (uspace w e)(pn \<mapsto> (f, q)))"
  shows "cow_inv w'"
  unfolding cow_inv_def
proof (intro allI impI)
  fix e1 p1 g r1 e2 p2 r2
  assume a: "uspace w' e1 p1 = Some (g, r1)" "r1 AND PTE_W \<noteq> 0" "r1 AND PTE_SHARE = 0" "uspace w' e2 p2 = Some (g, r2)"
  show "e2 = e1 \<and> p2 = p1"
  proof (cases "g = f")
    case True
    then show ?thesis using a assms(2) unfolding assms(3) by (auto split: if_splits)
  next
    case False
    then have "uspace w e1 p1 = Some (g, r1)" "uspace w e2 p2 = Some (g, r2)" using a unfolding assms(3) by (auto split: if_splits)
    then show ?thesis using cow_invD [OF assms(1) _ a(2,3)] by blast
  qed
qed

lemma pte_bits:
  "child_pte p AND PTE_W \<noteq> 0 \<Longrightarrow> p AND PTE_SHARE \<noteq> 0 \<and> child_pte p AND PTE_SHARE \<noteq> 0"
  "parent_pte p AND PTE_W \<noteq> 0 \<Longrightarrow> parent_pte p = p \<and> (p AND PTE_SHARE = 0 \<longrightarrow> False)"
proof -
  have "(p AND PTE_SYSCALL OR PTE_P) AND PTE_SHARE = (p AND (PTE_SYSCALL AND PTE_SHARE)) OR (PTE_P AND PTE_SHARE)"
    by (simp only: bit.conj_disj_distrib2 and.assoc)
  then have sh: "(p AND PTE_SYSCALL OR PTE_P) AND PTE_SHARE = p AND PTE_SHARE" by (simp add: PTE_SYSCALL_def PTE_SHARE_def)
  show "child_pte p AND PTE_W \<noteq> 0 \<Longrightarrow> p AND PTE_SHARE \<noteq> 0 \<and> child_pte p AND PTE_SHARE \<noteq> 0"
    using sh by (auto simp: child_pte_def PTE_COW_def split: if_splits)
  show "parent_pte p AND PTE_W \<noteq> 0 \<Longrightarrow> parent_pte p = p \<and> (p AND PTE_SHARE = 0 \<longrightarrow> False)"
    by (auto simp: parent_pte_def PTE_COW_def split: if_splits)
qed

lemma dup_space_cases:
  assumes "dup_space e c A m d pn = Some (f, p)"
  shows "(pn \<in> A \<and> d = c \<and> (\<exists>q. m e pn = Some (f, q) \<and> p = child_pte q)) \<or>
    (pn \<in> A \<and> d = e \<and> (\<exists>q. m e pn = Some (f, q) \<and> p = parent_pte q)) \<or> m d pn = Some (f, p)"
  using assms by (auto simp: dup_space_def split: if_splits)

lemma dup_space_src:
  assumes "dup_space e c A m d pn = Some (f, p)"
  shows "\<exists>d' q. m d' pn = Some (f, q)"
  using dup_space_cases [OF assms] by blast

lemma cow_inv_dup:
  assumes "cow_inv w" "uspace w' = dup_space e c A (uspace w)" "c \<noteq> e" "\<And>pn. uspace w c pn = None"
  shows "cow_inv w'"
  unfolding cow_inv_def
proof (intro allI impI)
  fix e1 p1 f r1 e2 p2 r2
  assume a: "uspace w' e1 p1 = Some (f, r1)" "r1 AND PTE_W \<noteq> 0" "r1 AND PTE_SHARE = 0" "uspace w' e2 p2 = Some (f, r2)"
  have m1: "uspace w e1 p1 = Some (f, r1) \<and> (e1 = e \<longrightarrow> p1 \<notin> A)"
    using a(1-3) assms(3) unfolding assms(2) dup_space_def by (auto split: if_splits dest: pte_bits)
  obtain d q where m2: "uspace w d p2 = Some (f, q)" using dup_space_src a(4) unfolding assms(2) by blast
  have "d = e1" "p2 = p1" using cow_invD [OF assms(1) conjunct1 [OF m1] a(2,3) m2] by auto
  then show "e2 = e1 \<and> p2 = p1"
    using dup_space_cases [of e c A "uspace w" e2 p2 f r2] a(4) m1 cow_invD [OF assms(1) conjunct1 [OF m1] a(2,3)]
    unfolding assms(2) by blast
qed

lemma uworld_ok_cong [simp]:
  "uworld_ok (w\<lparr>ubyte := b\<rparr>) = uworld_ok w" "uworld_ok (w\<lparr>ustatus := st\<rparr>) = uworld_ok w" "uworld_ok (w\<lparr>uupcall := up\<rparr>) = uworld_ok w"
  by (simp_all add: uworld_ok_def umaps_def)

section \<open>Writing\<close>

lemma page_of_rounddown: "PGNUM (ROUNDDOWN a PGSIZE) = PGNUM a"
  by (simp add: word_eq_unat unat_PGNUM unat_ROUNDDOWN)

lemma PGNUM_PFTEMP: "PGNUM PFTEMP = 0x7FF"
  by (simp add: PFTEMP_def PGNUM_def)

lemma addr_eqI:
  assumes "PGNUM a = PGNUM b" "PGOFF a = PGOFF b"
  shows "a = b"
proof -
  have d: "unat a div 4096 = unat b div 4096" using arg_cong [OF assms(1), of unat] by (simp only: unat_PGNUM)
  have m: "unat a mod 4096 = unat b mod 4096" using arg_cong [OF assms(2), of unat] by (simp only: unat_PGOFF)
  have "unat a = unat a div 4096 * 4096 + unat a mod 4096" by (rule div_mult_mod_eq [symmetric])
  also have "\<dots> = unat b" unfolding d m by (rule div_mult_mod_eq)
  finally show ?thesis by (simp only: word_eq_unat)
qed

lemma pgfault_ok:
  assumes "uworld_ok w" "cow_inv w" "uspace w e (PGNUM addr) = Some (f, p)" "PGNUM addr \<noteq> 0x7FF" "pgfault e addr err w = Some w'"
  shows "\<exists>g. (\<forall>d pn q. uspace w d pn \<noteq> Some (g, q)) \<and> uworld_ok w' \<and> cow_inv w' \<and> ubyte w' = (ubyte w)(g := ubyte w f) \<and>
    uspace w' = (uspace w)(e := (uspace w e)(0x7FF := None, PGNUM addr \<mapsto> (g, PTE_P OR PTE_W OR PTE_U)))"
proof -
  let ?q = "PTE_P OR PTE_W OR PTE_U" and ?a = "ROUNDDOWN addr PGSIZE"
  have q: "?q OR PTE_P = ?q" by simp
  let ?k = "\<lambda>w. case usys_page_map e PFTEMP e ?a ?q w of (Inl _, _) \<Rightarrow> None
    | (Inr _, w) \<Rightarrow> (case usys_page_unmap e PFTEMP w of (Inl _, _) \<Rightarrow> None | (Inr _, w) \<Rightarrow> Some w)"
  obtain r1 w1 where a: "usys_page_alloc e PFTEMP ?q w = (r1, w1)" by (cases "usys_page_alloc e PFTEMP ?q w")
  have "r1 = Inr ()" and k: "ucopy_page e PFTEMP ?a w1 \<bind> ?k = Some w'"
    using assms(5) a by (cases r1; simp add: pgfault_def Let_def split: if_splits)+
  with a have a: "usys_page_alloc e PFTEMP ?q w = (Inr (), w1)" by simp
  obtain w2 where c: "ucopy_page e PFTEMP ?a w1 = Some w2" "?k w2 = Some w'" using k by (cases "ucopy_page e PFTEMP ?a w1") simp_all
  obtain r3 w3 where m: "usys_page_map e PFTEMP e ?a ?q w2 = (r3, w3)" by (cases "usys_page_map e PFTEMP e ?a ?q w2")
  obtain r4 w4 where m4: "usys_page_unmap e PFTEMP w3 = (r4, w4)" by (cases "usys_page_unmap e PFTEMP w3")
  have "r3 = Inr ()" using c(2) m by (cases r3) simp_all
  moreover have "r4 = Inr ()" "w4 = w'" using c(2) m m4 calculation by (cases r4; simp)+
  ultimately have m: "usys_page_map e PFTEMP e ?a ?q w2 = (Inr (), w3)" "usys_page_unmap e PFTEMP w3 = (Inr (), w')" using m m4 by simp_all
  obtain g where g: "\<And>d pn p. uspace w d pn \<noteq> Some (g, p)" "uworld_ok w1" "ubyte w1 = (ubyte w)(g := (\<lambda>_. 0))"
      "uspace w1 = (uspace w)(e := (uspace w e)(0x7FF \<mapsto> (g, ?q)))" "\<not> bad_va PFTEMP"
  proof -
    obtain g where g: "\<forall>d pn p. uspace w d pn \<noteq> Some (g, p)" "ubyte w1 = (ubyte w)(g := ubyte w1 g)" "ubyte w1 g = (\<lambda>_. 0)"
        "uspace w1 = (uspace w)(e := (uspace w e)(PGNUM PFTEMP \<mapsto> (g, ?q OR PTE_P)))" "\<not> bad_va PFTEMP" "uworld_ok w1"
      using usys_page_alloc_ok [OF assms(1) a] by blast
    show thesis by (rule that [of g]) (use g q in \<open>simp_all add: PGNUM_PFTEMP\<close>)
  qed
  have gf: "g \<noteq> f" using g(1) assms(3) by blast
  have w2: "w2 = w1\<lparr>ubyte := (ubyte w1)(g := ubyte w1 f)\<rparr>"
    using c(1) g(4) assms(3,4) by (auto simp: ucopy_page_def page_of_rounddown PGNUM_PFTEMP Option.bind_eq_Some_conv split: if_splits)
  have ok2: "uworld_ok w2" using g(2) by (simp add: w2)
  note o3 = usys_page_map_ok [OF ok2 m(1)]
  have w3: "uworld_ok w3" "ubyte w3 = ubyte w2" "uspace w3 = (uspace w1)(e := (uspace w1 e)(PGNUM addr \<mapsto> (g, ?q)))"
    using o3 g(4) q by (auto simp: w2 PGNUM_PFTEMP page_of_rounddown)
  have w': "uworld_ok w'" "ubyte w' = ubyte w2" "uspace w' = (uspace w3)(e := (uspace w3 e)(0x7FF := None))"
    using usys_page_unmap_ok [OF w3(1) m(2)] w3(2) g(5) by (simp_all add: PGNUM_PFTEMP)
  let ?v = "w\<lparr>uspace := (uspace w)(e := (uspace w e)(0x7FF := None))\<rparr>"
  have sp: "uspace w' = (uspace ?v)(e := (uspace ?v e)(PGNUM addr \<mapsto> (g, ?q)))"
    unfolding w'(3) w3(3) g(4) using assms(4) by (auto simp: fun_eq_iff)
  have "cow_inv ?v" by (rule cow_inv_less [OF assms(2)]) (auto split: if_splits)
  then have "cow_inv w'" by (rule cow_inv_fresh [OF _ _ sp]) (use g(1) in auto)
  moreover have "ubyte w' = (ubyte w)(g := ubyte w f)" using gf by (simp add: w'(2) w2 g(3))
  ultimately show ?thesis using g(1) w'(1) sp by auto
qed

lemma ustore_at:
  assumes "uspace w e (PGNUM a) = Some (f, p)" "ustore e a v w = Some w'"
  shows "uspace w' = uspace w \<and> ubyte w' = (ubyte w)(f := (ubyte w f)(PGOFF a := v)) \<and> uload e a w' = Some v \<and>
    (uworld_ok w \<longrightarrow> uworld_ok w')"
  using assms by (auto simp: ustore_def uload_def uworld_ok_def Option.bind_eq_Some_conv split: if_splits)

text \<open>
  A store changes the byte for the environment that makes it, and no byte of another environment unless
  the page is meant to be shared. The page at \<open>PFTEMP\<close> is scratch space of the handler.
\<close>

lemma cow_store_ok:
  assumes "uworld_ok w" "cow_inv w" "uspace w e (PGNUM a) = Some (f, p)" "p AND PTE_SHARE = 0" "PGNUM a \<noteq> 0x7FF"
    "cow_store e a v w = Some w'"
  shows "uworld_ok w' \<and> cow_inv w' \<and> uload e a w' = Some v \<and>
    (\<forall>d b. (d, b) \<noteq> (e, a) \<longrightarrow> (d = e \<longrightarrow> PGNUM b \<noteq> 0x7FF) \<longrightarrow> p AND PTE_U \<noteq> 0 \<longrightarrow> uload d b w' = uload d b w)"
proof (cases "p AND PTE_W \<noteq> 0")
  case True
  then have st: "ustore e a v w = Some w'" using assms(3,6) by (simp add: cow_store_def mapped_def uvpt_def)
  note o = ustore_at [OF assms(3) st]
  have "uload d b w' = uload d b w" if "(d, b) \<noteq> (e, a)" for d b
  proof (cases "uspace w d (PGNUM b)")
    case None
    then show ?thesis using o by (simp add: uload_def)
  next
    case (Some m)
    then obtain g q where m: "uspace w d (PGNUM b) = Some (g, q)" by (cases m) auto
    have "g = f \<Longrightarrow> d = e \<and> PGNUM b = PGNUM a" using cow_invD [OF assms(2,3) True assms(4)] m by blast
    then have "g = f \<Longrightarrow> PGOFF b \<noteq> PGOFF a" using that addr_eqI by blast
    then show ?thesis using o m by (auto simp: uload_def)
  qed
  then show ?thesis using o assms(1) cow_inv_same [OF assms(2)] by auto
next
  case False
  then obtain w1 where w1: "pgfault e a FEC_WR w = Some w1" "ustore e a v w1 = Some w'"
    using assms(3,6) by (auto simp: cow_store_def mapped_def uvpt_def Option.bind_eq_Some_conv)
  obtain g where g: "\<And>d pn q. uspace w d pn \<noteq> Some (g, q)" "uworld_ok w1" "cow_inv w1" "ubyte w1 = (ubyte w)(g := ubyte w f)"
    "uspace w1 = (uspace w)(e := (uspace w e)(0x7FF := None, PGNUM a \<mapsto> (g, PTE_P OR PTE_W OR PTE_U)))"
    using pgfault_ok [OF assms(1-3,5) w1(1)] by blast
  have "uspace w1 e (PGNUM a) = Some (g, PTE_P OR PTE_W OR PTE_U)" by (simp add: g(5))
  note o = ustore_at [OF this w1(2)]
  have "uload d b w' = uload d b w" if "(d, b) \<noteq> (e, a)" "d = e \<longrightarrow> PGNUM b \<noteq> 0x7FF" "p AND PTE_U \<noteq> 0" for d b
  proof (cases "d = e \<and> PGNUM b = PGNUM a")
    case True
    then have "PGOFF b \<noteq> PGOFF a" using that addr_eqI by blast
    moreover have "g \<noteq> f" using g(1) assms(3) by blast
    ultimately show ?thesis using True o assms(3) that(3) g(4,5) by (simp add: uload_def)
  next
    case False
    then have sp: "uspace w' d (PGNUM b) = uspace w d (PGNUM b)" using o that(2) by (auto simp: g(5))
    show ?thesis
    proof (cases "uspace w d (PGNUM b)")
      case None
      then show ?thesis using sp by (simp add: uload_def)
    next
      case (Some m)
      then obtain h q where m: "uspace w d (PGNUM b) = Some (h, q)" by (cases m) auto
      then have "h \<noteq> g" using g(1) by blast
      then show ?thesis using sp m o g(4) by (simp add: uload_def)
    qed
  qed
  moreover have "uworld_ok w'" "cow_inv w'" "uload e a w' = Some v" using o g(2) cow_inv_same [OF g(3)] by simp_all
  ultimately show ?thesis by simp
qed

section \<open>The child\<close>

lemma fork_pages: "set fork_pages = {pn. 0x800 \<le> unat pn \<and> unat pn < 0xEEBFE}" "distinct fork_pages"
proof -
  have b: "unat (PGNUM UTEXT) = 0x800" "unat (PGNUM USTACKTOP) = 0xEEBFE"
    by (simp_all add: unat_PGNUM UTEXT_def layout_defs)
  have s: "set fork_pages = of_nat ` {0x800..<0xEEBFE}" unfolding fork_pages_def b by (simp only: set_map set_upt)
  have u: "unat (of_nat n :: u32) = n" if "n < 0xEEBFE" for n using that by (simp add: unat_of_nat_32)
  show "set fork_pages = {pn. 0x800 \<le> unat pn \<and> unat pn < 0xEEBFE}"
  proof (intro set_eqI iffI)
    fix pn :: u32
    assume "pn \<in> {pn. 0x800 \<le> unat pn \<and> unat pn < 0xEEBFE}"
    then show "pn \<in> set fork_pages" unfolding s by (intro image_eqI [of _ _ "unat pn"]) simp_all
  next
    fix pn :: u32
    assume "pn \<in> set fork_pages"
    then obtain n where n: "pn = of_nat n" "n \<in> {0x800..<0xEEBFE}" unfolding s by (rule imageE)
    then have "unat pn = n" using u by simp
    then show "pn \<in> {pn. 0x800 \<le> unat pn \<and> unat pn < 0xEEBFE}" using n(2) by simp
  qed
  have "inj_on (of_nat :: nat \<Rightarrow> u32) {0x800..<0xEEBFE}"
  proof (rule inj_onI)
    fix m n
    assume m: "m \<in> {0x800..<0xEEBFE}" and n: "n \<in> {0x800..<0xEEBFE}" and e: "(of_nat m :: u32) = of_nat n"
    have "m < 0xEEBFE" "n < 0xEEBFE" using m n by (simp_all only: atLeastLessThan_iff)
    then show "m = n" using arg_cong [OF e, of unat] by (simp only: u)
  qed
  then show "distinct fork_pages" unfolding fork_pages_def b by (simp only: distinct_map set_upt distinct_upt simp_thms)
qed

text \<open>A call that maps only a new frame, as seen through the other mappings.\<close>

lemma alloc_view:
  assumes "uworld_ok w" "cow_inv w" "usys_page_alloc e va perm w = (r, w')"
  shows "uworld_ok w' \<and> cow_inv w' \<and> ustatus w' = ustatus w \<and> (\<forall>d pn. d \<noteq> e \<or> pn \<noteq> PGNUM va \<longrightarrow> uspace w' d pn = uspace w d pn) \<and>
    (\<forall>d pn f p. uspace w d pn = Some (f, p) \<longrightarrow> ubyte w' f = ubyte w f)"
proof -
  obtain f where f: "\<forall>d pn p. uspace w d pn \<noteq> Some (f, p)" "ubyte w' = (ubyte w)(f := ubyte w' f)" "uworld_ok w'" "ustatus w' = ustatus w"
    "uspace w' = uspace w \<or> uspace w' = (uspace w)(e := (uspace w e)(PGNUM va \<mapsto> (f, perm OR PTE_P)))"
    using usys_page_alloc_ok [OF assms(1,3)] by blast
  have "cow_inv w'" using f(5)
  proof
    assume "uspace w' = uspace w"
    then show ?thesis by (rule cow_inv_same [OF assms(2)])
  next
    assume "uspace w' = (uspace w)(e := (uspace w e)(PGNUM va \<mapsto> (f, perm OR PTE_P)))"
    then show ?thesis by (rule cow_inv_fresh [OF assms(2), rotated]) (use f(1) in blast)
  qed
  moreover have "ubyte w' g = ubyte w g" if "uspace w d pn = Some (g, p)" for d pn g p
    using f(1,2) that by (metis fun_upd_apply)
  ultimately show ?thesis using f by auto
qed

lemma exofork_ok:
  assumes "usys_exofork w = (Inr c, w')" "uworld_ok w"
  shows "c \<in> set (ufree_envs w) \<and> uworld_ok w' \<and> uspace w' = uspace w \<and> ubyte w' = ubyte w"
proof -
  obtain cs f fs where e: "ufree_envs w = c # cs" "ufree w = f # fs"
    "w' = w\<lparr>ufree := fs, ufree_envs := cs, ustatus := (ustatus w)(c := ENV_NOT_RUNNABLE),
      utab := (utab w)(c := (\<lambda>_. False)), uupcall := (uupcall w)(c := 0)\<rparr>"
    using assms(1) by (auto simp: usys_exofork_def split: list.splits)
  then show ?thesis using assms(2) by (auto simp: uworld_ok_def umaps_def)
qed

lemma UX_page: "PGNUM (UXSTACKTOP - PGSIZE) = 0xEEBFF"
  by (simp add: PGNUM_def layout_defs)

text \<open>The bits that matter for reading.\<close>

lemma pte_user: "p AND PTE_U \<noteq> 0 \<Longrightarrow> child_pte p AND PTE_U \<noteq> 0" "p AND PTE_U \<noteq> 0 \<Longrightarrow> parent_pte p AND PTE_U \<noteq> 0"
proof -
  have "(p AND PTE_SYSCALL OR PTE_P) AND PTE_U = (p AND (PTE_SYSCALL AND PTE_U)) OR (PTE_P AND PTE_U)"
    by (simp only: bit.conj_disj_distrib2 and.assoc)
  then have "(p AND PTE_SYSCALL OR PTE_P) AND PTE_U = p AND PTE_U" by (simp add: PTE_SYSCALL_def)
  then show "p AND PTE_U \<noteq> 0 \<Longrightarrow> child_pte p AND PTE_U \<noteq> 0" by (simp add: child_pte_def PTE_COW_def)
  show "p AND PTE_U \<noteq> 0 \<Longrightarrow> parent_pte p AND PTE_U \<noteq> 0" by (simp add: parent_pte_def PTE_COW_def)
qed

lemma dup_view:
  assumes "uspace w' = dup_space e c A (uspace w)" "ubyte w' = ubyte w" "c \<noteq> e" "PGNUM a \<in> A" "\<And>pn. uspace w c pn = None"
    "\<And>f p. uspace w e (PGNUM a) = Some (f, p) \<Longrightarrow> p AND PTE_U \<noteq> 0"
  shows "uload c a w' = uload e a w" "uload e a w' = uload e a w"
  using assms pte_user
  by (cases "uspace w e (PGNUM a)"; auto simp: uload_def dup_space_def)+

lemma uload_cong:
  assumes "uspace w' d (PGNUM a) = uspace w d (PGNUM a)" "\<And>f p. uspace w d (PGNUM a) = Some (f, p) \<Longrightarrow> ubyte w' f = ubyte w f"
  shows "uload d a w' = uload d a w"
  using assms by (cases "uspace w d (PGNUM a)") (auto simp: uload_def)

lemma handler_view:
  assumes "uworld_ok w" "cow_inv w"
  shows "uworld_ok (set_pgfault_handler e upcall installed w) \<and> cow_inv (set_pgfault_handler e upcall installed w) \<and>
    ufree_envs (set_pgfault_handler e upcall installed w) = ufree_envs w \<and>
    (\<forall>d pn. d \<noteq> e \<or> pn \<noteq> 0xEEBFF \<longrightarrow> uspace (set_pgfault_handler e upcall installed w) d pn = uspace w d pn) \<and>
    (\<forall>d pn f p. uspace w d pn = Some (f, p) \<longrightarrow> ubyte (set_pgfault_handler e upcall installed w) f = ubyte w f)"
proof (cases installed)
  case True
  then show ?thesis using assms by (simp add: set_pgfault_handler_def)
next
  case False
  obtain r w1 where a: "usys_page_alloc e (UXSTACKTOP - PGSIZE) PTE_SYSCALL w = (r, w1)" by (cases "usys_page_alloc e (UXSTACKTOP - PGSIZE) PTE_SYSCALL w")
  have h: "set_pgfault_handler e upcall installed w = w1\<lparr>uupcall := (uupcall w1)(e := upcall)\<rparr>"
    using False a by (simp add: set_pgfault_handler_def)
  have "ufree_envs w1 = ufree_envs w"
    using a by (auto simp: usys_page_alloc_def page_put_def page_table_def page_drop_def Let_def split: if_splits list.splits option.splits prod.splits)
  moreover have "cow_inv (w1\<lparr>uupcall := (uupcall w1)(e := upcall)\<rparr>)" using alloc_view [OF assms a] cow_inv_same by auto
  ultimately show ?thesis using alloc_view [OF assms a] unfolding h by (simp add: UX_page)
qed

lemma fork_ok:
  assumes ok: "uworld_ok w" "cow_inv w" and ch: "\<And>c. c \<in> set (ufree_envs w) \<Longrightarrow> c \<noteq> e \<and> (\<forall>pn. uspace w c pn = None)"
    and us: "\<And>pn f p. uspace w e pn = Some (f, p) \<Longrightarrow> p AND PTE_U \<noteq> 0"
    and fk: "fork e upcall installed w = Some (Inr c, w')"
  shows "c \<in> set (ufree_envs w) \<and> uworld_ok w' \<and> cow_inv w' \<and> ustatus w' c = ENV_RUNNABLE \<and>
    (\<forall>a. 0x800 \<le> unat (PGNUM a) \<longrightarrow> unat (PGNUM a) < 0xEEBFE \<longrightarrow> uload c a w' = uload e a w \<and> uload e a w' = uload e a w) \<and>
    (\<forall>d a. d \<noteq> e \<longrightarrow> d \<noteq> c \<longrightarrow> uload d a w' = uload d a w)"
proof -
  let ?w0 = "set_pgfault_handler e upcall installed w" and ?ux = "UXSTACKTOP - PGSIZE"
  obtain w1 where x: "usys_exofork ?w0 = (Inr c, w1)"
    using fk by (cases "usys_exofork ?w0", cases "fst (usys_exofork ?w0)") (auto simp: fork_def Let_def split: prod.splits sum.splits)
  obtain r2 w2 where d: "duppages e c fork_pages w1 = (r2, w2)" by (cases "duppages e c fork_pages w1")
  obtain r3 w3 where a: "usys_page_alloc c ?ux (PTE_U OR PTE_P OR PTE_W) w2 = (r3, w3)" by (cases "usys_page_alloc c ?ux (PTE_U OR PTE_P OR PTE_W) w2")
  have r: "r2 = Inr ()" using fk x d by (cases r2) (simp_all add: fork_def)
  have w': "w' = w3\<lparr>uupcall := (uupcall w3)(c := upcall), ustatus := (ustatus w3)(c := ENV_RUNNABLE)\<rparr>"
    using fk x d r a by (cases r3) (simp_all add: fork_def)
  note w0 = handler_view [OF ok, of e upcall installed]
  note o1 = exofork_ok [OF x conjunct1 [OF w0]]
  have c: "c \<in> set (ufree_envs w)" "c \<noteq> e" "\<And>pn. uspace w c pn = None" using o1 w0 ch by auto
  have c1: "\<And>pn. uspace w1 c pn = None" using o1 w0 c(2,3) by auto
  have rng: "\<forall>pn \<in> set fork_pages. unat pn < 0xEEC00" by (auto simp: fork_pages(1))
  have o2: "uworld_ok w2 \<and> ubyte w2 = ubyte w1 \<and> ustatus w2 = ustatus w1 \<and> uspace w2 = dup_space e c (set fork_pages) (uspace w1)"
  proof (rule duppages_ok [OF _ c(2) rng fork_pages(2)])
    show "uworld_ok w1" using o1 by simp
    show "duppages e c fork_pages w1 = (Inr (), w2)" using d r by simp
  qed
  have cow1: "cow_inv w1" using o1 w0 cow_inv_same by blast
  have cow2: "cow_inv w2" by (rule cow_inv_dup [OF cow1]) (use o2 c(2) c1 in auto)
  note o3 = alloc_view [OF conjunct1 [OF o2] cow2 a]
  have view3: "uload d a w' = uload d a w2" if "d \<noteq> c \<or> PGNUM a \<noteq> 0xEEBFF" for d a
  proof (rule uload_cong)
    show "uspace w' d (PGNUM a) = uspace w2 d (PGNUM a)" using o3 that by (auto simp: w' UX_page)
    show "ubyte w' f = ubyte w2 f" if "uspace w2 d (PGNUM a) = Some (f, p)" for f p using o3 that unfolding w' by simp blast
  qed
  have view1: "uload d a w1 = uload d a w" if "d \<noteq> e \<or> PGNUM a \<noteq> 0xEEBFF" for d a
  proof (rule uload_cong)
    show "uspace w1 d (PGNUM a) = uspace w d (PGNUM a)" using w0 o1 that by auto
    show "ubyte w1 f = ubyte w f" if "uspace w d (PGNUM a) = Some (f, p)" for f p using w0 o1 that by metis
  qed
  have "uload c a w' = uload e a w \<and> uload e a w' = uload e a w" if "0x800 \<le> unat (PGNUM a)" "unat (PGNUM a) < 0xEEBFE" for a
  proof -
    have n: "PGNUM a \<noteq> 0xEEBFF" using that(2) by auto
    have "uspace w1 e (PGNUM a) = uspace w e (PGNUM a)" using w0 o1 n by auto
    then have "uload c a w2 = uload e a w1" "uload e a w2 = uload e a w1"
      using dup_view [of w2 e c "set fork_pages" w1 a] o2 c(2) c1 us that by (auto simp: fork_pages(1))
    then show ?thesis using view1 view3 n by simp
  qed
  moreover have "uload d a w' = uload d a w" if "d \<noteq> e" "d \<noteq> c" for d a
  proof -
    have "uload d a w2 = uload d a w1" using o2 that by (simp add: uload_def dup_space_def)
    then show ?thesis using view1 view3 that by simp
  qed
  moreover have "uworld_ok w' \<and> cow_inv w' \<and> ustatus w' c = ENV_RUNNABLE"
    using o3 cow_inv_same [of w3 w'] by (simp add: w')
  ultimately show ?thesis using c(1) by blast
qed

section \<open>Fork and pipes\<close>

text \<open>
  \<open>fork\<close> copies pages in the order of their addresses, so a descriptor page gets to the child before its
  data page. In between, the counts agree although the only writer has its end open.
\<close>

lemma fork_race:
  assumes inv: "ends_inv R W P s" and idle: "\<And>d. todo s d = []"
    and i: "i < 32" "uspace (uw s) e (fd_pn i) = Some (R, p)" "p AND PTE_SHARE \<noteq> 0"
    and k: "k < 32" "at_page (uspace (uw s) d) (fd_pn k) R" "d \<noteq> c"
    and one: "uref (uw s) W = 1" and c: "uspace (uw s) c (fd_pn i) = None" "c \<noteq> e"
    and dp: "duppage e c (fd_pn i) (uw s) = (Inr x, w')"
  shows "pipeisclosed d (of_nat k) w' [(n, w', w', n)] = Some (Inr True) \<and> (\<exists>b pn. at_page (uspace w' b) pn W)"
proof -
  let ?w = "uw s"
  have ok: "uworld_ok ?w" and ds: "distinct [R, W, P]" using inv by (simp_all add: ends_inv_def)
  have u: "unat (fd_pn i) < 0xEEC00" using i(1) by (simp add: unat_fd_pn)
  have m: "usys_page_map e (fd_pn i * PGSIZE) c (fd_pn i * PGSIZE) (p AND PTE_SYSCALL) ?w = (Inr x, w')"
    using dp i(2,3) by (simp add: duppage_def uvpt_def Let_def)
  note o = map_at [OF ok u m i(2)]
  then have ok': "uworld_ok w'" and sp: "uspace w' = (uspace ?w)(c := (uspace ?w c)(fd_pn i \<mapsto> (R, p AND PTE_SYSCALL OR PTE_P)))" by simp_all
  have um: "umaps w' = (umaps ?w)((c, fd_pn i) \<mapsto> R)" by (auto simp: umaps_def sp fun_eq_iff)
  have fin: "finite (dom (umaps ?w))" and ref: "\<And>f. uref ?w f = occ (umaps ?w) f" "\<And>f. uref w' f = occ (umaps w') f"
    using ok ok' by (auto simp: uworld_ok_def)
  have cnt: "uref w' f = uref ?w f + (if f = R then 1 else 0)" for f
    using occ_upd [OF fin, of "(c, fd_pn i)" "Some R" f] c(1) by (auto simp: ref um umaps_eq split: if_splits)
  have eq: "uref w' R = uref w' P" using ends_refs(2) [OF inv idle] one cnt ds by simp
  have "ends_have_data R W P (uspace ?w d)" using inv by (auto simp: ends_inv_def space_inv_def)
  then have "at_page (uspace ?w d) (data_pn k) P" using k(1,2) by (auto simp: ends_have_data_def end_at_def)
  then have "at_page (uspace w' d) (data_pn k) P" "at_page (uspace w' d) (fd_pn k) R" using k sp by (auto simp: at_page_def)
  then have "pipeisclosed d (of_nat k) w' [(n, w', w', n)] = Some (Inr True)"
    using k(1) eq by (auto simp: pipeisclosed_def fd_lookup_index pageref_def at_page_def)
  moreover have "\<exists>b pn. at_page (uspace w' b) pn W"
  proof (rule ccontr)
    assume "\<nexists>b pn. at_page (uspace w' b) pn W"
    then have "{(b, pn). at_page (uspace w' b) pn W} = {}" by simp
    then have "uref w' W = 0" using refs_at(1) [OF ok', of W] by simp
    then show False using one cnt [of W] by simp
  qed
  ultimately show ?thesis by blast
qed

end
