(* ===== verification/Jos_Pipe.thy ===== *)
theory Jos_Pipe
  imports Fifo Jos_State "HOL-Library.Sublist"
begin

text \<open>
  The data of a pipe (\<open>lib/pipe.c\<close>): a ring of 32 bytes in a page that the environments at both ends
  share. Reader and writer run concurrently; the loops of \<open>devpipe_read\<close> and \<open>devpipe_write\<close> are
  machines whose steps are the accesses to the shared page. \<open>off_t\<close> is signed: counting past its
  largest value and an index below 0 have no defined meaning, \<^const>\<open>None\<close>.
\<close>

definition PIPEBUFSIZ :: nat where "PIPEBUFSIZ = 32"

record Pipe =
  p_rpos :: u32
  p_wpos :: u32
  p_buf :: "nat \<Rightarrow> u8"

definition pipe_empty :: "Pipe \<Rightarrow> bool" where
  "pipe_empty p \<longleftrightarrow> p_rpos p = p_wpos p"

text \<open>The comparison is without sign, because \<open>sizeof\<close> is.\<close>

definition pipe_full :: "Pipe \<Rightarrow> bool" where
  "pipe_full p \<longleftrightarrow> p_rpos p + of_nat PIPEBUFSIZ \<le> p_wpos p"

definition pipe_index :: "u32 \<Rightarrow> nat option" where
  "pipe_index pos = (if 0 \<le> sint pos then Some (unat pos mod PIPEBUFSIZ) else None)"

definition pos_incr :: "u32 \<Rightarrow> u32 option" where
  "pos_incr pos = (if sint pos = 0x7FFFFFFF then None else Some (pos + 1))"

definition pipe_store :: "u8 \<Rightarrow> Pipe \<Rightarrow> Pipe option" where
  "pipe_store c p = do { i \<leftarrow> pipe_index (p_wpos p); Some (p\<lparr>p_buf := (p_buf p)(i := c)\<rparr>) }"

definition pipe_load :: "Pipe \<Rightarrow> u8 option" where
  "pipe_load p = do { i \<leftarrow> pipe_index (p_rpos p); Some (p_buf p i) }"

definition pipe_wrote :: "Pipe \<Rightarrow> Pipe option" where
  "pipe_wrote p = do { n \<leftarrow> pos_incr (p_wpos p); Some (p\<lparr>p_wpos := n\<rparr>) }"

definition pipe_took :: "Pipe \<Rightarrow> Pipe option" where
  "pipe_took p = do { n \<leftarrow> pos_incr (p_rpos p); Some (p\<lparr>p_rpos := n\<rparr>) }"

section \<open>The loops\<close>

text \<open>
  The program points of both loops: the test at the head, the access to the buffer, the increment of
  the position, and the return. \<open>closed\<close> is what \<open>_pipeisclosed\<close> answers.
\<close>

datatype ppoint = PTest | PAccess | PAdvance | PReturn u32

record pwriter =
  w_buf :: "u8 list"
  w_i :: nat
  w_at :: ppoint

record preader =
  r_n :: nat
  r_buf :: "u8 list"
  r_at :: ppoint

definition devpipe_write :: "u8 list \<Rightarrow> pwriter" where
  "devpipe_write buf = \<lparr>w_buf = buf, w_i = 0, w_at = PTest\<rparr>"

definition devpipe_read :: "nat \<Rightarrow> preader" where
  "devpipe_read n = \<lparr>r_n = n, r_buf = [], r_at = PTest\<rparr>"

definition write_step :: "bool \<Rightarrow> Pipe \<Rightarrow> pwriter \<Rightarrow> (Pipe \<times> pwriter) option" where
  "write_step closed p w =
     (case w_at w of
        PTest \<Rightarrow>
          if length (w_buf w) \<le> w_i w then Some (p, w\<lparr>w_at := PReturn (of_nat (w_i w))\<rparr>)
          else if pipe_full p then Some (p, if closed then w\<lparr>w_at := PReturn 0\<rparr> else w)
          else Some (p, w\<lparr>w_at := PAccess\<rparr>)
      | PAccess \<Rightarrow> do { p \<leftarrow> pipe_store (w_buf w ! w_i w) p; Some (p, w\<lparr>w_at := PAdvance\<rparr>) }
      | PAdvance \<Rightarrow> do { p \<leftarrow> pipe_wrote p; Some (p, w\<lparr>w_i := Suc (w_i w), w_at := PTest\<rparr>) }
      | PReturn _ \<Rightarrow> Some (p, w))"

definition read_step :: "bool \<Rightarrow> Pipe \<Rightarrow> preader \<Rightarrow> (Pipe \<times> preader) option" where
  "read_step closed p r =
     (case r_at r of
        PTest \<Rightarrow>
          if r_n r \<le> length (r_buf r) then Some (p, r\<lparr>r_at := PReturn (of_nat (length (r_buf r)))\<rparr>)
          else if pipe_empty p then
            Some (p, if r_buf r \<noteq> [] then r\<lparr>r_at := PReturn (of_nat (length (r_buf r)))\<rparr>
                     else if closed then r\<lparr>r_at := PReturn 0\<rparr> else r)
          else Some (p, r\<lparr>r_at := PAccess\<rparr>)
      | PAccess \<Rightarrow> do { c \<leftarrow> pipe_load p; Some (p, r\<lparr>r_buf := r_buf r @ [c], r_at := PAdvance\<rparr>) }
      | PAdvance \<Rightarrow> do { p \<leftarrow> pipe_took p; Some (p, r\<lparr>r_at := PTest\<rparr>) }
      | PReturn _ \<Rightarrow> Some (p, r))"

text \<open>
  A pipe between one reader and one writer, each making one call after the other, with their steps
  interleaved in any order. \<open>sent\<close> and \<open>got\<close> record the bytes counted by the positions.
\<close>

record psys =
  pipe_of :: Pipe
  writer_of :: pwriter
  reader_of :: preader
  sent :: "u8 list"
  got :: "u8 list"

inductive pipe_step :: "psys \<Rightarrow> psys \<Rightarrow> bool" where
  writer: "write_step closed (pipe_of s) (writer_of s) = Some (p, w) \<Longrightarrow>
     pipe_step s (s\<lparr>pipe_of := p, writer_of := w,
       sent := (if w_at (writer_of s) = PAdvance then sent s @ [w_buf w ! w_i (writer_of s)] else sent s)\<rparr>)"
| reader: "read_step closed (pipe_of s) (reader_of s) = Some (p, r) \<Longrightarrow>
     pipe_step s (s\<lparr>pipe_of := p, reader_of := r,
       got := (if r_at (reader_of s) = PAdvance then got s @ [last (r_buf r)] else got s)\<rparr>)"
| write_call: "w_at (writer_of s) = PReturn v \<Longrightarrow> pipe_step s (s\<lparr>writer_of := devpipe_write buf\<rparr>)"
| read_call: "r_at (reader_of s) = PReturn v \<Longrightarrow> pipe_step s (s\<lparr>reader_of := devpipe_read n\<rparr>)"

definition pipe_start :: psys where
  "pipe_start = \<lparr>pipe_of = \<lparr>p_rpos = 0, p_wpos = 0, p_buf = (\<lambda>_. 0)\<rparr>,
     writer_of = (devpipe_write [])\<lparr>w_at := PReturn 0\<rparr>, reader_of = (devpipe_read 0)\<lparr>r_at := PReturn 0\<rparr>,
     sent = [], got = []\<rparr>"

inductive pipe_reach :: "psys \<Rightarrow> bool" where
  start: "pipe_reach pipe_start"
| step: "\<lbrakk>pipe_reach s; pipe_step s s'\<rbrakk> \<Longrightarrow> pipe_reach s'"

section \<open>The ring\<close>

definition pipe_len :: "Pipe \<Rightarrow> nat" where
  "pipe_len p = unat (p_wpos p) - unat (p_rpos p)"

definition pipe_data :: "Pipe \<Rightarrow> u8 list" where
  "pipe_data p = ring (p_buf p) PIPEBUFSIZ (unat (p_rpos p)) (pipe_len p)"

definition pipe_inv :: "Pipe \<Rightarrow> bool" where
  "pipe_inv p \<longleftrightarrow> p_rpos p \<le> p_wpos p \<and> pipe_len p \<le> PIPEBUFSIZ \<and> unat (p_wpos p) < 2 ^ 31"

lemma length_pipe_data [simp]: "length (pipe_data p) = pipe_len p"
  by (simp add: pipe_data_def)

lemma pipe_index_small: "unat x < 2147483648 \<Longrightarrow> pipe_index x = Some (unat x mod PIPEBUFSIZ)"
  by (simp add: pipe_index_def signed_unat)

lemma pos_incr_small:
  assumes "unat x < 2147483648"
  shows "pos_incr x = (if unat x = 2147483647 then None else Some (x + 1))"
    "pos_incr x = Some y \<Longrightarrow> unat y = Suc (unat x) \<and> unat y < 2147483648"
proof -
  have "sint x = 2147483647 \<longleftrightarrow> unat x = 2147483647" using signed_unat [OF assms] by linarith
  then show e: "pos_incr x = (if unat x = 2147483647 then None else Some (x + 1))" by (simp add: pos_incr_def)
  show "unat y = Suc (unat x) \<and> unat y < 2147483648" if "pos_incr x = Some y"
    using that assms unfolding e by (auto simp: unat_add_32 split: if_splits)
qed

lemma pipe_invD:
  assumes "pipe_inv p"
  shows "unat (p_wpos p) = unat (p_rpos p) + pipe_len p" "pipe_len p \<le> 32" "unat (p_wpos p) < 2147483648"
    "unat (p_rpos p) < 2147483648"
proof -
  show w: "unat (p_wpos p) = unat (p_rpos p) + pipe_len p" "unat (p_wpos p) < 2147483648"
    using assms by (auto simp: pipe_inv_def pipe_len_def word_le_nat_alt)
  then show "unat (p_rpos p) < 2147483648" by simp
  show "pipe_len p \<le> 32" using assms by (simp add: pipe_inv_def PIPEBUFSIZ_def)
qed

lemma pipe_invI:
  assumes "unat (p_wpos p) = unat (p_rpos p) + n" "n \<le> 32" "unat (p_wpos p) < 2147483648"
  shows "pipe_inv p" "pipe_len p = n"
  using assms by (auto simp: pipe_inv_def pipe_len_def PIPEBUFSIZ_def word_le_nat_alt)

lemma pipe_tests:
  assumes "pipe_inv p"
  shows "pipe_empty p \<longleftrightarrow> pipe_len p = 0" "pipe_full p \<longleftrightarrow> pipe_len p = 32"
proof -
  note i = pipe_invD [OF assms]
  show "pipe_empty p \<longleftrightarrow> pipe_len p = 0" using i(1) by (auto simp: pipe_empty_def word_eq_unat)
  have "unat (p_rpos p + 32) = unat (p_rpos p) + 32" using i(4) by (simp add: unat_add_32)
  then show "pipe_full p \<longleftrightarrow> pipe_len p = 32" using i(1,2) by (auto simp: pipe_full_def PIPEBUFSIZ_def word_le_nat_alt)
qed

text \<open>The three parts of a write and of a read, on the contents.\<close>

lemma pipe_store_ok:
  assumes "pipe_inv p" "pipe_len p < 32"
  shows "\<exists>q. pipe_store c p = Some q \<and> pipe_inv q \<and> pipe_data q = pipe_data p \<and>
    p_buf q (unat (p_wpos q) mod 32) = c \<and> p_rpos q = p_rpos p \<and> p_wpos q = p_wpos p \<and>
    (0 < pipe_len p \<longrightarrow> p_buf q (unat (p_rpos q) mod 32) = p_buf p (unat (p_rpos p) mod 32))"
proof -
  note i = pipe_invD [OF assms(1)]
  define q where "q = p\<lparr>p_buf := (p_buf p)(unat (p_wpos p) mod 32 := c)\<rparr>"
  have q: "p_rpos q = p_rpos p" "p_wpos q = p_wpos p" "pipe_len q = pipe_len p" by (simp_all add: q_def pipe_len_def)
  have d: "ring (p_buf q) 32 (unat (p_rpos p)) (pipe_len p) = ring (p_buf p) 32 (unat (p_rpos p)) (pipe_len p)"
    using arg_cong [OF ring_store [OF assms(2), of "p_buf p" "unat (p_rpos p)" c], of "take (pipe_len p)"]
    by (simp add: q_def i(1) ring_def)
  have "p_buf q (unat (p_rpos q) mod 32) = p_buf p (unat (p_rpos p) mod 32)" if "0 < pipe_len p"
    using arg_cong [OF d, of hd] that by (cases "pipe_len p") (simp_all add: ring_read q(1))
  then show ?thesis
    using assms(1) i(3) q d by (intro exI [of _ q]) (simp add: pipe_store_def pipe_index_small pipe_inv_def pipe_data_def PIPEBUFSIZ_def,
      simp add: q_def)
qed

lemma pipe_wrote_ok:
  assumes "pipe_inv p" "pipe_len p < 32" "pipe_wrote p = Some q"
  shows "pipe_inv q \<and> pipe_data q = pipe_data p @ [p_buf p (unat (p_wpos p) mod 32)] \<and> p_buf q = p_buf p \<and>
    p_rpos q = p_rpos p \<and> pipe_len q = Suc (pipe_len p)"
proof -
  note i = pipe_invD [OF assms(1)]
  obtain n where n: "pos_incr (p_wpos p) = Some n" "q = p\<lparr>p_wpos := n\<rparr>"
    using assms(3) by (auto simp: pipe_wrote_def Option.bind_eq_Some_conv)
  note s = pos_incr_small(2) [OF i(3) n(1)]
  have inv: "pipe_inv q" "pipe_len q = Suc (pipe_len p)" using pipe_invI [of q "Suc (pipe_len p)"] s i assms(2) by (simp_all add: n(2))
  have "ring (p_buf p) 32 (unat (p_rpos p)) (Suc (pipe_len p)) =
      ring (p_buf p) 32 (unat (p_rpos p)) (pipe_len p) @ [p_buf p (unat (p_wpos p) mod 32)]"
    using ring_store [OF assms(2), of "p_buf p" "unat (p_rpos p)" "p_buf p (unat (p_wpos p) mod 32)"] by (simp add: i(1))
  then show ?thesis using inv by (simp add: pipe_data_def PIPEBUFSIZ_def) (simp add: n(2))
qed

lemma pipe_load_ok:
  assumes "pipe_inv p"
  shows "pipe_load p = Some (p_buf p (unat (p_rpos p) mod 32))"
  using pipe_invD [OF assms] by (simp add: pipe_load_def pipe_index_small PIPEBUFSIZ_def)

lemma pipe_took_ok:
  assumes "pipe_inv p" "0 < pipe_len p"
  shows "\<exists>q. pipe_took p = Some q \<and> pipe_inv q \<and> pipe_data p = p_buf p (unat (p_rpos p) mod 32) # pipe_data q \<and>
    p_buf q = p_buf p \<and> p_wpos q = p_wpos p \<and> Suc (pipe_len q) = pipe_len p"
proof -
  note i = pipe_invD [OF assms(1)]
  have ne: "unat (p_rpos p) \<noteq> 2147483647" using i assms(2) by linarith
  define q where "q = p\<lparr>p_rpos := p_rpos p + 1\<rparr>"
  have t: "pipe_took p = Some q" using pos_incr_small(1) [OF i(4)] ne by (simp add: pipe_took_def q_def)
  have u: "unat (p_rpos q) = Suc (unat (p_rpos p))" using i(4) by (simp add: q_def unat_add_32)
  have inv: "pipe_inv q" "pipe_len q = pipe_len p - 1"
    using pipe_invI [of q "pipe_len p - 1"] u i assms(2) by (simp_all add: q_def)
  have "ring (p_buf p) 32 (unat (p_rpos p)) (Suc (pipe_len p - 1)) =
      p_buf p (unat (p_rpos p) mod 32) # ring (p_buf p) 32 (unat (p_rpos q)) (pipe_len p - 1)" unfolding u by (rule ring_read)
  then have "pipe_data p = p_buf p (unat (p_rpos p) mod 32) # pipe_data q"
    using assms(2) by (simp add: pipe_data_def PIPEBUFSIZ_def inv) (simp add: q_def)
  then show ?thesis using t inv assms(2) by (intro exI [of _ q]) (simp, simp add: q_def)
qed

text \<open>A write of one byte and a read of one byte that go through, as operations of a queue.\<close>

definition pipe_put :: "u8 \<Rightarrow> Pipe \<Rightarrow> Pipe option" where
  "pipe_put c p = (if pipe_full p then None else do { p \<leftarrow> pipe_store c p; pipe_wrote p })"

definition pipe_get :: "Pipe \<Rightarrow> (u8 \<times> Pipe) option" where
  "pipe_get p = (if pipe_empty p then None else do { c \<leftarrow> pipe_load p; p \<leftarrow> pipe_took p; Some (c, p) })"

interpretation pipe_queue: ordered_queue pipe_put pipe_get pipe_data pipe_inv 32
proof unfold_locales
  fix s x s'
  assume s: "pipe_inv s" "pipe_put x s = Some s'"
  then have l: "pipe_len s < 32" using pipe_tests [OF s(1)] pipe_invD(2) [OF s(1)] by (auto simp: pipe_put_def split: if_splits)
  obtain q where q: "pipe_store x s = Some q" "pipe_inv q" "pipe_data q = pipe_data s" "p_buf q (unat (p_wpos q) mod 32) = x"
    using pipe_store_ok [OF s(1) l, of x] by blast
  have "pipe_len q < 32" using arg_cong [OF q(3), of length] l by simp
  moreover have "pipe_wrote q = Some s'" using s(2) q(1) by (simp add: pipe_put_def split: if_splits)
  ultimately show "pipe_inv s' \<and> length (pipe_data s) < 32 \<and> pipe_data s' = pipe_data s @ [x]"
    using pipe_wrote_ok [OF q(2)] q(3,4) l by simp
next
  fix s x s'
  assume s: "pipe_inv s" "pipe_get s = Some (x, s')"
  then have "0 < pipe_len s" using pipe_tests(1) [OF s(1)] by (auto simp: pipe_get_def split: if_splits)
  from pipe_took_ok [OF s(1) this] show "pipe_inv s' \<and> pipe_data s = x # pipe_data s'"
    using s(2) by (auto simp: pipe_get_def pipe_load_ok [OF s(1)] split: if_splits)
qed

section \<open>Interleavings\<close>

fun writer_ok :: "Pipe \<Rightarrow> pwriter \<Rightarrow> bool" where
  "writer_ok p w =
     (case w_at w of
        PTest \<Rightarrow> True
      | PAccess \<Rightarrow> w_i w < length (w_buf w) \<and> pipe_len p < 32
      | PAdvance \<Rightarrow> w_i w < length (w_buf w) \<and> pipe_len p < 32 \<and> p_buf p (unat (p_wpos p) mod 32) = w_buf w ! w_i w
      | PReturn v \<Rightarrow> v = 0 \<or> w_i w = length (w_buf w) \<and> v = of_nat (length (w_buf w)))"

fun reader_ok :: "Pipe \<Rightarrow> preader \<Rightarrow> bool" where
  "reader_ok p r =
     (case r_at r of
        PTest \<Rightarrow> True
      | PAccess \<Rightarrow> 0 < pipe_len p
      | PAdvance \<Rightarrow> 0 < pipe_len p \<and> (\<exists>xs. r_buf r = xs @ [p_buf p (unat (p_rpos p) mod 32)])
      | PReturn v \<Rightarrow> v = of_nat (length (r_buf r)))"

text \<open>The bytes of the current call that the positions count already.\<close>

definition written :: "pwriter \<Rightarrow> u8 list" where
  "written w = take (w_i w) (w_buf w)"

definition taken :: "preader \<Rightarrow> u8 list" where
  "taken r = (if r_at r = PAdvance then butlast (r_buf r) else r_buf r)"

definition psys_inv :: "psys \<Rightarrow> bool" where
  "psys_inv s \<longleftrightarrow> pipe_inv (pipe_of s) \<and> got s @ pipe_data (pipe_of s) = sent s \<and>
     writer_ok (pipe_of s) (writer_of s) \<and> w_i (writer_of s) \<le> length (w_buf (writer_of s)) \<and>
     reader_ok (pipe_of s) (reader_of s) \<and>
     suffix (written (writer_of s)) (sent s) \<and> suffix (taken (reader_of s)) (got s)"

lemma write_inv:
  assumes inv: "psys_inv s" and st: "write_step closed (pipe_of s) (writer_of s) = Some (p, w)"
  shows "psys_inv (s\<lparr>pipe_of := p, writer_of := w,
       sent := (if w_at (writer_of s) = PAdvance then sent s @ [w_buf w ! w_i (writer_of s)] else sent s)\<rparr>)"
proof -
  let ?p = "pipe_of s" and ?w = "writer_of s" and ?r = "reader_of s"
  have i: "pipe_inv ?p" "got s @ pipe_data ?p = sent s" "writer_ok ?p ?w" "w_i ?w \<le> length (w_buf ?w)" "reader_ok ?p ?r"
    "suffix (written ?w) (sent s)" using inv by (simp_all add: psys_inv_def)
  show ?thesis
  proof (cases "w_at ?w")
    case PTest
    then show ?thesis using st inv pipe_tests(2) [OF i(1)] pipe_invD(2) [OF i(1)]
      by (auto simp: write_step_def psys_inv_def written_def split: if_splits)
  next
    case PAccess
    then have l: "pipe_len ?p < 32" "w_i ?w < length (w_buf ?w)" using i(3) by auto
    obtain q where q: "pipe_store (w_buf ?w ! w_i ?w) ?p = Some q" "pipe_inv q" "pipe_data q = pipe_data ?p"
      "p_buf q (unat (p_wpos q) mod 32) = w_buf ?w ! w_i ?w" "p_rpos q = p_rpos ?p" "p_wpos q = p_wpos ?p"
      "0 < pipe_len ?p \<longrightarrow> p_buf q (unat (p_rpos q) mod 32) = p_buf ?p (unat (p_rpos ?p) mod 32)"
      using pipe_store_ok [OF i(1) l(1)] by blast
    then have pw: "p = q" "w = ?w\<lparr>w_at := PAdvance\<rparr>" using st PAccess by (simp_all add: write_step_def)
    have "pipe_len q = pipe_len ?p" using arg_cong [OF q(3), of length] by simp
    then have "reader_ok q ?r" using i(5) q(7) by (auto split: ppoint.splits)
    then show ?thesis using inv l q PAccess \<open>pipe_len q = pipe_len ?p\<close> by (auto simp: psys_inv_def pw written_def)
  next
    case PAdvance
    then have l: "pipe_len ?p < 32" "w_i ?w < length (w_buf ?w)" "p_buf ?p (unat (p_wpos ?p) mod 32) = w_buf ?w ! w_i ?w"
      using i(3) by auto
    have pw: "pipe_wrote ?p = Some p" "w = ?w\<lparr>w_i := Suc (w_i ?w), w_at := PTest\<rparr>"
      using st PAdvance by (auto simp: write_step_def Option.bind_eq_Some_conv)
    note o = pipe_wrote_ok [OF i(1) l(1) pw(1)]
    then have "reader_ok p ?r" using i(5) by (auto split: ppoint.splits)
    moreover have "written w = written ?w @ [w_buf ?w ! w_i ?w]" using l(2) by (simp add: written_def pw(2) take_Suc_conv_app_nth)
    ultimately show ?thesis using inv o l i(2) PAdvance by (auto simp: psys_inv_def pw(2) suffix_def)
  next
    case PReturn
    then show ?thesis using st inv by (auto simp: write_step_def psys_inv_def)
  qed
qed

lemma read_inv:
  assumes inv: "psys_inv s" and st: "read_step closed (pipe_of s) (reader_of s) = Some (p, r)"
  shows "psys_inv (s\<lparr>pipe_of := p, reader_of := r,
       got := (if r_at (reader_of s) = PAdvance then got s @ [last (r_buf r)] else got s)\<rparr>)"
proof -
  let ?p = "pipe_of s" and ?w = "writer_of s" and ?r = "reader_of s"
  have i: "pipe_inv ?p" "got s @ pipe_data ?p = sent s" "writer_ok ?p ?w" "reader_ok ?p ?r" "suffix (taken ?r) (got s)"
    using inv by (simp_all add: psys_inv_def)
  show ?thesis
  proof (cases "r_at ?r")
    case PTest
    then show ?thesis using st inv pipe_tests(1) [OF i(1)]
      by (auto simp: read_step_def psys_inv_def taken_def split: if_splits)
  next
    case PAccess
    then have pr: "p = ?p" "r = ?r\<lparr>r_buf := r_buf ?r @ [p_buf ?p (unat (p_rpos ?p) mod 32)], r_at := PAdvance\<rparr>"
      using st pipe_load_ok [OF i(1)] by (auto simp: read_step_def)
    then show ?thesis using inv PAccess by (auto simp: psys_inv_def taken_def)
  next
    case PAdvance
    then obtain xs where l: "0 < pipe_len ?p" "r_buf ?r = xs @ [p_buf ?p (unat (p_rpos ?p) mod 32)]" using i(4) by auto
    obtain q where q: "pipe_took ?p = Some q" "pipe_inv q" "pipe_data ?p = p_buf ?p (unat (p_rpos ?p) mod 32) # pipe_data q"
      "p_buf q = p_buf ?p" "p_wpos q = p_wpos ?p" "Suc (pipe_len q) = pipe_len ?p"
      using pipe_took_ok [OF i(1) l(1)] by blast
    then have pr: "p = q" "r = ?r\<lparr>r_at := PTest\<rparr>" using st PAdvance by (simp_all add: read_step_def)
    have "writer_ok q ?w" using i(3) q(4-6) by (auto split: ppoint.splits)
    then show ?thesis using inv q l PAdvance by (auto simp: psys_inv_def pr taken_def suffix_def)
  next
    case PReturn
    then show ?thesis using st inv by (auto simp: read_step_def psys_inv_def)
  qed
qed

lemma pipe_reach_inv: "pipe_reach s \<Longrightarrow> psys_inv s"
proof (induction rule: pipe_reach.induct)
  case start
  have "pipe_len (pipe_of pipe_start) = 0" "pipe_inv (pipe_of pipe_start)" by (simp_all add: pipe_start_def pipe_len_def pipe_inv_def)
  moreover have "got pipe_start = []" "sent pipe_start = []" "w_at (writer_of pipe_start) = PReturn 0" "r_at (reader_of pipe_start) = PReturn 0"
    "w_i (writer_of pipe_start) = 0" "r_buf (reader_of pipe_start) = []"
    by (simp_all add: pipe_start_def devpipe_write_def devpipe_read_def)
  ultimately show ?case unfolding psys_inv_def pipe_data_def written_def taken_def by simp
next
  case (step s s')
  from step.hyps(2) show ?case
  proof (cases rule: pipe_step.cases)
    case (writer closed p w)
    then show ?thesis using write_inv [OF step.IH] by blast
  next
    case (reader closed p r)
    then show ?thesis using read_inv [OF step.IH] by blast
  next
    case (write_call v buf)
    then show ?thesis using step.IH by (simp add: psys_inv_def devpipe_write_def written_def)
  next
    case (read_call v n)
    then show ?thesis using step.IH by (simp add: psys_inv_def devpipe_read_def taken_def)
  qed
qed

text \<open>No step has an undefined effect before the positions reach the end of \<open>off_t\<close>.\<close>

lemma pipe_defined:
  assumes "psys_inv s" "unat (p_wpos (pipe_of s)) < 2147483647"
  shows "write_step closed (pipe_of s) (writer_of s) \<noteq> None" "read_step closed (pipe_of s) (reader_of s) \<noteq> None"
proof -
  have i: "pipe_inv (pipe_of s)" "writer_ok (pipe_of s) (writer_of s)" "reader_ok (pipe_of s) (reader_of s)"
    using assms(1) by (simp_all add: psys_inv_def)
  note d = pipe_invD [OF i(1)]
  show "write_step closed (pipe_of s) (writer_of s) \<noteq> None"
    using i(2) pipe_store_ok [OF i(1), of "w_buf (writer_of s) ! w_i (writer_of s)"] pos_incr_small(1) [OF d(3)] assms(2)
    by (auto simp: write_step_def pipe_wrote_def split: ppoint.splits)
  show "read_step closed (pipe_of s) (reader_of s) \<noteq> None"
    using i(3) pipe_load_ok [OF i(1)] pipe_took_ok [OF i(1)] by (auto simp: read_step_def split: ppoint.splits)
qed

section \<open>Two writers\<close>

text \<open>
  The steps of a write are not atomic: of two writers that both store before either counts its byte,
  the second overwrites the byte of the first, and the count of both leaves one cell unwritten.
\<close>

lemma two_writers_lose:
  assumes "pipe_inv p" "pipe_len p < 31" "pipe_store a p = Some p1" "pipe_store b p1 = Some p2" "pipe_wrote p2 = Some p3"
    "pipe_wrote p3 = Some p4"
  shows "pipe_data p4 = pipe_data p @ [b, p_buf p (unat (p_wpos p + 1) mod 32)]"
proof -
  note i = pipe_invD [OF assms(1)]
  obtain q1 where q1: "pipe_store a p = Some q1" "pipe_inv q1" "pipe_data q1 = pipe_data p" "p_rpos q1 = p_rpos p" "p_wpos q1 = p_wpos p"
    using pipe_store_ok [OF assms(1), of a] assms(2) by auto
  have l1: "pipe_len p1 < 32" using q1 assms(2,3) by (simp add: pipe_len_def)
  obtain q2 where q2: "pipe_store b p1 = Some q2" "pipe_inv q2" "pipe_data q2 = pipe_data p1" "p_buf q2 (unat (p_wpos q2) mod 32) = b"
    "p_rpos q2 = p_rpos p1" "p_wpos q2 = p_wpos p1"
    using pipe_store_ok [OF _ l1, of b] q1(2) assms(3) q1(1) by auto
  have l2: "pipe_len p2 < 31" using q2 q1 assms(2-4) by (simp add: pipe_len_def)
  note o3 = pipe_wrote_ok [OF _ _ assms(5)]
  have o3: "pipe_inv p3" "pipe_data p3 = pipe_data p @ [b]" "p_buf p3 = p_buf p2" "pipe_len p3 < 32"
    using pipe_wrote_ok [OF _ _ assms(5)] q2 q1 assms(3,4) l2 by auto
  have w: "unat (p_wpos p2) = unat (p_wpos p)" using q1 q2 assms(3,4) by simp
  have w3: "unat (p_wpos p3) = Suc (unat (p_wpos p))" "unat (p_wpos p + 1) = Suc (unat (p_wpos p))"
    using assms(5) pos_incr_small(2) [OF i(3)] i(3) q1 q2 assms(3,4)
    by (auto simp: pipe_wrote_def Option.bind_eq_Some_conv unat_add_32)
  have ne: "Suc (unat (p_wpos p)) mod 32 \<noteq> unat (p_wpos p) mod 32" by (simp add: mod_Suc)
  have "p_buf p2 (Suc (unat (p_wpos p)) mod 32) = p_buf p (Suc (unat (p_wpos p)) mod 32)"
    using assms(3,4) ne i(3) by (auto simp: pipe_store_def pipe_index_small PIPEBUFSIZ_def)
  then show ?thesis using pipe_wrote_ok [OF o3(1,4) assms(6)] o3 w3 by simp
qed

end
