(* ===== verification/Jos_User_Properties.thy ===== *)
theory Jos_User_Properties
  imports Jos_Fork Jos_Pipe
begin

text \<open>Properties of the user library: pipes, descriptors and \<open>fork\<close>.\<close>

text \<open>
  C14. Through a pipe the reader gets the bytes of the writer in order, however the steps of
  \<open>devpipe_read\<close> and \<open>devpipe_write\<close> interleave: what has been taken is a prefix of what has been
  written, at most 32 bytes are in between, what a read has put in its buffer are the last bytes
  taken, and a write that returns its length has written all of its buffer.
\<close>

theorem pipe_stream:
  assumes "pipe_reach s"
  shows "sent s = got s @ pipe_data (pipe_of s) \<and> length (pipe_data (pipe_of s)) \<le> 32 \<and>
    (\<forall>v. r_at (reader_of s) = PReturn v \<longrightarrow> v = of_nat (length (r_buf (reader_of s))) \<and> suffix (r_buf (reader_of s)) (got s)) \<and>
    (\<forall>v. w_at (writer_of s) = PReturn v \<longrightarrow> v \<noteq> 0 \<longrightarrow>
       v = of_nat (length (w_buf (writer_of s))) \<and> suffix (w_buf (writer_of s)) (sent s))"
proof -
  have i: "psys_inv s" by (rule pipe_reach_inv) (rule assms)
  then show ?thesis using pipe_invD(2) [of "pipe_of s"] by (auto simp: psys_inv_def written_def taken_def)
qed

theorem pipe_stream_witness:
  "\<exists>s. pipe_reach s \<and> sent s = [65] \<and> got s = [] \<and> pipe_data (pipe_of s) = [65]"
proof -
  define w where "w = devpipe_write [65]"
  define p1 where "p1 = (pipe_of pipe_start)\<lparr>p_buf := (\<lambda>_. 0)(0 := 65)\<rparr>"
  define p2 where "p2 = p1\<lparr>p_wpos := 1\<rparr>"
  define s1 where "s1 = pipe_start\<lparr>writer_of := w\<rparr>"
  define s2 where "s2 = s1\<lparr>writer_of := w\<lparr>w_at := PAccess\<rparr>\<rparr>"
  define s3 where "s3 = s2\<lparr>pipe_of := p1, writer_of := w\<lparr>w_at := PAdvance\<rparr>\<rparr>"
  define s4 where "s4 = s3\<lparr>pipe_of := p2, writer_of := w\<lparr>w_i := 1\<rparr>, sent := [65]\<rparr>"
  note defs = s1_def s2_def s3_def s4_def p1_def p2_def w_def pipe_start_def devpipe_write_def
  have st1: "pipe_step pipe_start s1" unfolding s1_def w_def by (rule write_call [where v = 0]) (simp add: pipe_start_def)
  have st2: "pipe_step s1 s2"
    using writer [of False s1 "pipe_of s1" "w\<lparr>w_at := PAccess\<rparr>"]
    by (simp add: defs write_step_def pipe_full_def PIPEBUFSIZ_def)
  have st3: "pipe_step s2 s3"
    using writer [of False s2 p1 "w\<lparr>w_at := PAdvance\<rparr>"]
    by (simp add: defs write_step_def pipe_store_def pipe_index_def PIPEBUFSIZ_def)
  have st4: "pipe_step s3 s4"
    using writer [of False s3 p2 "w\<lparr>w_i := 1\<rparr>"]
    by (simp add: defs write_step_def pipe_wrote_def pos_incr_def)
  have r: "pipe_reach s4"
    by (rule pipe_reach.step [OF pipe_reach.step [OF pipe_reach.step [OF pipe_reach.step [OF pipe_reach.start st1] st2] st3] st4])
  have "sent s4 = got s4 @ pipe_data (pipe_of s4)" using pipe_stream [OF r] by blast
  moreover have "sent s4 = [65]" "got s4 = []" by (simp_all add: defs)
  ultimately show ?thesis using r by (intro exI [of _ s4]) simp
qed


definition ex_world :: uworld where
  "ex_world = \<lparr>uspace = (\<lambda>_ _. None), utab = (\<lambda>_ _. True), ubyte = (\<lambda>_ _. 0), uref = (\<lambda>_. 0), ufree = [1, 2, 3],
     ufree_envs = [1], ustatus = (\<lambda>_. 0), uupcall = (\<lambda>_. 0)\<rparr>"









definition ex_parent :: uworld where
  "ex_parent = ex_world\<lparr>uspace := (\<lambda>_ _. None)(0 := [0x800 \<mapsto> (7, 7)]), uref := (\<lambda>_. 0)(7 := 1),
     ubyte := (\<lambda>_ _. 0)(7 := (\<lambda>_. 42)), utab := (\<lambda>e _. e = 0), ufree := [1, 2, 3, 4, 5, 6]\<rparr>"








text \<open>
  C17. With copy-on-write in place, a store by one environment to a page that is not marked as shared
  changes that byte for this environment and no byte of any other, nor any other of its own outside
  the scratch page of the fault handler; the arrangement of private pages is kept.
\<close>

theorem cow_store_private:
  assumes "uworld_ok w" "cow_inv w" "uspace w e (PGNUM a) = Some (f, p)" "p AND PTE_SHARE = 0" "p AND PTE_U \<noteq> 0"
    "PGNUM a \<noteq> PGNUM PFTEMP" "cow_store e a v w = Some w'"
  shows "uworld_ok w' \<and> cow_inv w' \<and> uload e a w' = Some v \<and>
    (\<forall>d b. (d, b) \<noteq> (e, a) \<longrightarrow> (d = e \<longrightarrow> PGNUM b \<noteq> PGNUM PFTEMP) \<longrightarrow> uload d b w' = uload d b w)"
  using cow_store_ok [OF assms(1-4) _ assms(7)] assms(5,6) by (simp add: PGNUM_PFTEMP)

definition ex_forked :: uworld where
  "ex_forked = ex_parent\<lparr>uspace := (\<lambda>_ _. None)(0 := [0x800 \<mapsto> (7, 0x805)], 1 := [0x800 \<mapsto> (7, 0x805)]), uref := (\<lambda>_. 0)(7 := 2)\<rparr>"

theorem cow_store_private_witness:
  "\<exists>w'. cow_store 1 0x800004 9 ex_forked = Some w' \<and> uload 1 0x800004 w' = Some 9 \<and> uload 0 0x800004 w' = Some 42"
proof -
  have sp: "uspace ex_forked d pn = (if (d = 0 \<or> d = 1) \<and> pn = 0x800 then Some (7, 0x805) else None)" for d pn by (simp add: ex_forked_def)
  have u: "umaps ex_forked = [(0, 0x800) \<mapsto> 7, (1, 0x800) \<mapsto> 7]" by (auto simp: umaps_def sp fun_eq_iff)
  have "{k. umaps ex_forked k = Some 7} = {(0, 0x800), (1, 0x800)}" by (auto simp: u)
  then have "occ (umaps ex_forked) f = (if f = 7 then 2 else 0)" for f by (auto simp: occ_def u)
  then have ok: "uworld_ok ex_forked" by (simp add: uworld_ok_def u) (simp add: ex_forked_def ex_parent_def)
  have cow: "cow_inv ex_forked" by (simp add: cow_inv_def sp)
  have "map_option (\<lambda>_. ()) (cow_store 1 0x800004 9 ex_forked) = Some ()" by code_simp
  then obtain w' where w': "cow_store 1 0x800004 9 ex_forked = Some w'" by auto
  have pg: "uspace ex_forked 1 (PGNUM 0x800004) = Some (7, 0x805)" by (simp add: sp PGNUM_def)
  have "uload 1 0x800004 w' = Some 9" "uload 0 0x800004 w' = uload 0 0x800004 ex_forked"
    using cow_store_private [OF ok cow pg _ _ _ w'] by (simp_all add: PTE_SHARE_def PGNUM_def PFTEMP_def)
  moreover have "uload 0 0x800004 ex_forked = Some 42" by (simp add: uload_def sp PGNUM_def) (simp add: ex_forked_def ex_parent_def)
  ultimately show ?thesis using w' by auto
qed

end
