(* ===== verification/Jos_Serv.thy ===== *)
theory Jos_Serv
  imports Jos_Fs_Transfer
begin

text \<open>
  The file server (\<open>fs/serv.c\<close>): the table of open files and the handlers of requests. A request arrives
  as a page at \<open>fsreq\<close>, which also takes the answer; the state of an open file that the client sees is
  a page at \<open>o_fd\<close>. \<open>fdref\<close> are the reference counts of those pages, which clients change by mapping
  and unmapping them. Handlers return the C integer that is sent back.
\<close>

definition MAXOPEN :: nat where "MAXOPEN = 1024"
definition FILEVA :: u32 where "FILEVA = 0xD0000000"
definition fsreq :: u32 where "fsreq = 0x0FFFF000"
definition MAXPATHLEN :: nat where "MAXPATHLEN = 1024"
definition O_CREAT :: u32 where "O_CREAT = 0x100"
definition O_TRUNC :: u32 where "O_TRUNC = 0x200"
definition O_EXCL :: u32 where "O_EXCL = 0x400"
definition FSREQ_OPEN :: u32 where "FSREQ_OPEN = 1"

record OpenFile =
  o_fileid :: u32
  o_file :: u32
  o_mode :: u32
  o_fd :: u32

record serv =
  fsm :: fsmem
  opentab :: "nat \<Rightarrow> OpenFile"
  fdref :: "u32 \<Rightarrow> nat"

definition ret_error :: "jos_error \<Rightarrow> u32" where
  "ret_error e = - errno e"

text \<open>An operation of the file system, run on the memory of the server.\<close>

definition on_fs :: "(fsmem \<Rightarrow> ('a \<times> fsmem) option) \<Rightarrow> serv \<Rightarrow> ('a \<times> serv) option" where
  "on_fs f s = do { (r, m) \<leftarrow> f (fsm s); Some (r, s\<lparr>fsm := m\<rparr>) }"

definition in_fs :: "(fsmem \<Rightarrow> fsmem option) \<Rightarrow> serv \<Rightarrow> serv option" where
  "in_fs f s = do { m \<leftarrow> f (fsm s); Some (s\<lparr>fsm := m\<rparr>) }"

definition upd_open :: "nat \<Rightarrow> (OpenFile \<Rightarrow> OpenFile) \<Rightarrow> serv \<Rightarrow> serv" where
  "upd_open i g s = s\<lparr>opentab := (opentab s)(i := g (opentab s i))\<rparr>"

section \<open>Open files\<close>

definition serve_init :: "serv \<Rightarrow> serv" where
  "serve_init s = s\<lparr>opentab := \<lambda>i. if i < MAXOPEN
     then (opentab s i)\<lparr>o_fileid := of_nat i, o_fd := FILEVA + of_nat i * PGSIZE\<rparr> else opentab s i\<rparr>"

text \<open>
  The fall-through part of \<open>openfile_alloc\<close>: a new file id and a cleared descriptor page. The id is
  returned as an \<open>int\<close>.
\<close>

definition openfile_take :: "nat \<Rightarrow> serv \<Rightarrow> ((u32 \<times> nat) \<times> serv) option" where
  "openfile_take i s = do {
     let s = upd_open i (\<lambda>v. v\<lparr>o_fileid := o_fileid v + of_nat MAXOPEN\<rparr>) s;
     s \<leftarrow> in_fs (fill_zero 4096 (o_fd (opentab s i))) s;
     Some ((o_fileid (opentab s i), i), s)
   }"

primrec openfile_scan :: "nat \<Rightarrow> nat \<Rightarrow> serv \<Rightarrow> ((u32 \<times> nat) \<times> serv) option" where
  "openfile_scan 0 i s = Some ((ret_error E_MAX_OPEN, 0), s)"
| "openfile_scan (Suc n) i s =
     (let fd = o_fd (opentab s i) in
      if fdref s fd = 0 then
        if frames (fsm s) = 0 then Some ((ret_error E_NO_MEM, 0), s)
        else do {
          s \<leftarrow> in_fs (page_alloc_at fd) s;
          openfile_take i (s\<lparr>fdref := (fdref s)(fd := 1)\<rparr>)
        }
      else if fdref s fd = 1 then openfile_take i s
      else openfile_scan n (Suc i) s)"

definition openfile_alloc :: "serv \<Rightarrow> ((u32 \<times> nat) \<times> serv) option" where
  "openfile_alloc s = openfile_scan MAXOPEN 0 s"

definition openfile_lookup :: "u32 \<Rightarrow> serv \<Rightarrow> jos_error + nat" where
  "openfile_lookup fileid s =
     (let i = unat fileid mod MAXOPEN in
      if fdref s (o_fd (opentab s i)) \<le> 1 \<or> o_fileid (opentab s i) \<noteq> fileid then Inl E_INVAL else Inr i)"

section \<open>Handlers\<close>

primrec load_bytes :: "nat \<Rightarrow> u32 \<Rightarrow> fsmem \<Rightarrow> (u8 list \<times> fsmem) option" where
  "load_bytes 0 a s = Some ([], s)"
| "load_bytes (Suc n) a s = do { (c, s) \<leftarrow> ld8 a s; (cs, s) \<leftarrow> load_bytes n (a + 1) s; Some (c # cs, s) }"

text \<open>The path of an open request: the bytes in front of the first 0, which is there after the copy.\<close>

definition req_path :: "fsmem \<Rightarrow> (u8 list \<times> fsmem) option" where
  "req_path s = do {
     (bs, s) \<leftarrow> load_bytes MAXPATHLEN fsreq s;
     Some (takeWhile (\<lambda>c. c \<noteq> 0) (bs[MAXPATHLEN - 1 := 0]), s)
   }"

text \<open>What \<open>serve_open\<close> does with the path; an existing file is opened when \<open>O_EXCL\<close> is not given.\<close>

definition open_or_create :: "u8 list \<Rightarrow> u32 \<Rightarrow> fsmem \<Rightarrow> ((jos_error + u32) \<times> fsmem) option" where
  "open_or_create path omode s =
     (if omode AND O_CREAT \<noteq> 0 then do {
        (r, s) \<leftarrow> file_create path s;
        if r = Inl E_FILE_EXISTS \<and> omode AND O_EXCL = 0 then file_open path s else Some (r, s)
      }
      else file_open path s)"

definition open_path :: "u8 list \<Rightarrow> u32 \<Rightarrow> fsmem \<Rightarrow> ((jos_error + u32) \<times> fsmem) option" where
  "open_path path omode s = do {
     (r, s) \<leftarrow> open_or_create path omode s;
     case r of
       Inl e \<Rightarrow> Some (Inl e, s)
     | Inr f \<Rightarrow> do {
         s \<leftarrow> (if omode AND O_TRUNC \<noteq> 0 then file_set_size f 0 s else Some s);
         file_open path s
       }
   }"

text \<open>
  Filling in the open file and its descriptor page. The answer carries the descriptor page and its permissions, \<open>PTE_P|PTE_U|PTE_W|PTE_SHARE\<close>.
\<close>

definition open_fd :: "nat \<Rightarrow> u32 \<Rightarrow> u32 \<Rightarrow> serv \<Rightarrow> ((u32 \<times> (u32 \<times> u32) option) \<times> serv) option" where
  "open_fd i omode f s = do {
     let s = upd_open i (\<lambda>v. v\<lparr>o_file := f\<rparr>) s;
     let fd = o_fd (opentab s i);
     s \<leftarrow> in_fs (st32 (fd + 12) (o_fileid (opentab s i))) s;
     s \<leftarrow> in_fs (st32 (fd + 8) (omode AND 3)) s;
     s \<leftarrow> in_fs (st32 fd 102) s;
     let s = upd_open i (\<lambda>v. v\<lparr>o_mode := omode\<rparr>) s;
     Some ((0, Some (fd, 0x407)), s)
   }"

definition serve_open :: "serv \<Rightarrow> ((u32 \<times> (u32 \<times> u32) option) \<times> serv) option" where
  "serve_open s = do {
     (path, s) \<leftarrow> on_fs req_path s;
     ((r, i), s) \<leftarrow> openfile_alloc s;
     if sint r < 0 then Some ((r, None), s)
     else do {
       (omode, s) \<leftarrow> on_fs (ld32 (fsreq + 1024)) s;
       (fr, s) \<leftarrow> on_fs (open_path path omode) s;
       case fr of
         Inl e \<Rightarrow> Some ((ret_error e, None), s)
       | Inr f \<Rightarrow> open_fd i omode f s
     }
   }"

text \<open>The lookup of the file of a request, whose id is the first word of the page.\<close>

definition with_file :: "(nat \<Rightarrow> serv \<Rightarrow> (u32 \<times> serv) option) \<Rightarrow> serv \<Rightarrow> (u32 \<times> serv) option" where
  "with_file k s = do {
     (fileid, s) \<leftarrow> on_fs (ld32 fsreq) s;
     case openfile_lookup fileid s of
       Inl e \<Rightarrow> Some (ret_error e, s)
     | Inr i \<Rightarrow> k i s
   }"

definition serve_set_size :: "serv \<Rightarrow> (u32 \<times> serv) option" where
  "serve_set_size = with_file (\<lambda>i s. do {
     (sz, s) \<leftarrow> on_fs (ld32 (fsreq + 4)) s;
     s \<leftarrow> in_fs (file_set_size (o_file (opentab s i)) sz) s;
     Some (0, s)
   })"

text \<open>Reading and writing advance the position in the descriptor by what they return.\<close>

definition advance_offset :: "nat \<Rightarrow> jos_error + u32 \<Rightarrow> serv \<Rightarrow> (u32 \<times> serv) option" where
  "advance_offset i r s =
     (let v = (case r of Inl e \<Rightarrow> ret_error e | Inr v \<Rightarrow> v) in
      if sint v < 0 then Some (v, s)
      else do {
        let fd = o_fd (opentab s i);
        (p, s) \<leftarrow> on_fs (ld32 (fd + 4)) s;
        s \<leftarrow> in_fs (st32 (fd + 4) (p + v)) s;
        Some (v, s)
      })"

definition serve_read :: "serv \<Rightarrow> (u32 \<times> serv) option" where
  "serve_read = with_file (\<lambda>i s. do {
     (n, s) \<leftarrow> on_fs (ld32 (fsreq + 4)) s;
     (pos, s) \<leftarrow> on_fs (ld32 (o_fd (opentab s i) + 4)) s;
     (r, s) \<leftarrow> on_fs (file_read (o_file (opentab s i)) fsreq n pos) s;
     advance_offset i r s
   })"

definition serve_write :: "serv \<Rightarrow> (u32 \<times> serv) option" where
  "serve_write = with_file (\<lambda>i s. do {
     (n, s) \<leftarrow> on_fs (ld32 (fsreq + 4)) s;
     let t = (if PGSIZE < n then PGSIZE else n);
     (pos, s) \<leftarrow> on_fs (ld32 (o_fd (opentab s i) + 4)) s;
     (r, s) \<leftarrow> on_fs (file_write (o_file (opentab s i)) (fsreq + 8) t pos) s;
     advance_offset i r s
   })"

text \<open>\<open>strcpy\<close> in the memory of the server.\<close>

partial_function (option) copy_string :: "u32 \<Rightarrow> u32 \<Rightarrow> fsmem \<Rightarrow> fsmem option" where
  "copy_string dst src s = do {
     (c, s) \<leftarrow> ld8 src s;
     s \<leftarrow> st8 dst c s;
     if c = 0 then Some s else copy_string (dst + 1) (src + 1) s
   }"

definition serve_stat :: "serv \<Rightarrow> (u32 \<times> serv) option" where
  "serve_stat = with_file (\<lambda>i s. do {
     let f = o_file (opentab s i);
     s \<leftarrow> in_fs (copy_string fsreq f) s;
     (sz, s) \<leftarrow> on_fs (ld32 (f_size f)) s;
     s \<leftarrow> in_fs (st32 (fsreq + 128) sz) s;
     (ty, s) \<leftarrow> on_fs (ld32 (f_type f)) s;
     s \<leftarrow> in_fs (st32 (fsreq + 132) (if ty = FTYPE_DIR then 1 else 0)) s;
     Some (0, s)
   })"

definition serve_flush :: "serv \<Rightarrow> (u32 \<times> serv) option" where
  "serve_flush = with_file (\<lambda>i s. do { s \<leftarrow> in_fs (file_flush (o_file (opentab s i))) s; Some (0, s) })"

definition serve_sync :: "serv \<Rightarrow> (u32 \<times> serv) option" where
  "serve_sync s = do { s \<leftarrow> in_fs fs_sync s; Some (0, s) }"

section \<open>The loop\<close>

text \<open>The table of handlers, by request code; code 7 has no entry.\<close>

definition handlers :: "u32 \<Rightarrow> (serv \<Rightarrow> (u32 \<times> serv) option) option" where
  "handlers = [2 \<mapsto> serve_set_size, 3 \<mapsto> serve_read, 4 \<mapsto> serve_write, 5 \<mapsto> serve_stat, 6 \<mapsto> serve_flush, 8 \<mapsto> serve_sync]"

record message =
  m_value :: u32
  m_page :: "(u32 \<times> u32) option"

definition recv_page :: "(nat \<Rightarrow> u8) \<Rightarrow> serv \<Rightarrow> serv" where
  "recv_page pg s = s\<lparr>fsm := (fsm s)\<lparr>present := (present (fsm s))(PGNUM fsreq := True),
     fmem := \<lambda>a. if PGNUM a = PGNUM fsreq then pg (unat (PGOFF a)) else fmem (fsm s) a\<rparr>\<rparr>"

definition unmap_req :: "serv \<Rightarrow> serv" where
  "unmap_req s = s\<lparr>fsm := (fsm s)\<lparr>present := (present (fsm s))(PGNUM fsreq := False)\<rparr>\<rparr>"

text \<open>
  One round of \<open>serve\<close>: the request code, the permissions that came with it and the page; the message
  that is sent back, if any. The page that is sent with the answer has its permissions; without one
  they are those of the request.
\<close>

definition serve_one :: "u32 \<Rightarrow> u32 \<Rightarrow> (nat \<Rightarrow> u8) \<Rightarrow> serv \<Rightarrow> (message option \<times> serv) option" where
  "serve_one req perm pg s =
     (if perm AND PTE_P = 0 then Some (None, s)
      else do {
        let s = recv_page pg s;
        (m, s) \<leftarrow> (if req = FSREQ_OPEN then do { ((r, p), s) \<leftarrow> serve_open s; Some (\<lparr>m_value = r, m_page = p\<rparr>, s) }
                   else case handlers req of
                     Some h \<Rightarrow> do { (r, s) \<leftarrow> h s; Some (\<lparr>m_value = r, m_page = None\<rparr>, s) }
                   | None \<Rightarrow> Some (\<lparr>m_value = ret_error E_INVAL, m_page = None\<rparr>, s));
        Some (Some m, unmap_req s)
      })"

primrec serve :: "(u32 \<times> u32 \<times> (nat \<Rightarrow> u8)) list \<Rightarrow> serv \<Rightarrow> (message list \<times> serv) option" where
  "serve [] s = Some ([], s)"
| "serve (q # qs) s =
     (case q of (req, perm, pg) \<Rightarrow> do {
        (m, s) \<leftarrow> serve_one req perm pg s;
        (ms, s) \<leftarrow> serve qs s;
        Some (case m of None \<Rightarrow> ms | Some m \<Rightarrow> m # ms, s)
      })"

section \<open>The table\<close>

text \<open>The histories of the server: requests, and clients that map and unmap descriptor pages.\<close>

inductive serv_reach :: "serv \<Rightarrow> bool" where
  init: "serv_reach (serve_init s)"
| request: "\<lbrakk>serv_reach s; serve_one req perm pg s = Some (m, s')\<rbrakk> \<Longrightarrow> serv_reach s'"
| clients: "serv_reach s \<Longrightarrow> serv_reach (s\<lparr>fdref := r\<rparr>)"

definition open_ok :: "(nat \<Rightarrow> OpenFile) \<Rightarrow> bool" where
  "open_ok tab \<longleftrightarrow> (\<forall>i < MAXOPEN. unat (o_fileid (tab i)) mod MAXOPEN = i \<and> o_fd (tab i) = FILEVA + of_nat i * PGSIZE)"

lemma on_fs_tab: "on_fs f s = Some (r, s') \<Longrightarrow> opentab s' = opentab s \<and> fdref s' = fdref s"
  by (auto simp: on_fs_def Option.bind_eq_Some_conv)

lemma in_fs_tab: "in_fs f s = Some s' \<Longrightarrow> opentab s' = opentab s \<and> fdref s' = fdref s"
  by (auto simp: in_fs_def Option.bind_eq_Some_conv)

lemma next_fileid: "unat (x + 1024 :: u32) mod 1024 = unat x mod 1024"
proof -
  have "unat (x + 1024) = (unat x + 1024) mod 4294967296" by (simp add: unat_word_ariths)
  then have "unat (x + 1024) mod 1024 = (unat x + 1024) mod 4294967296 mod 1024" by simp
  also have "\<dots> = (unat x + 1024) mod 1024" by (rule mod_mod_cancel) simp
  finally show ?thesis by simp
qed

lemma openfile_take_tab:
  assumes "openfile_take i s = Some ((r, j), s')" "open_ok (opentab s)"
  shows "open_ok (opentab s') \<and> j = i \<and> r = o_fileid (opentab s' i) \<and>
    opentab s' = (opentab s)(i := (opentab s i)\<lparr>o_fileid := o_fileid (opentab s i) + 1024\<rparr>) \<and> fdref s' = fdref s"
  using assms next_fileid
  by (auto simp: openfile_take_def upd_open_def Option.bind_eq_Some_conv open_ok_def MAXOPEN_def dest!: in_fs_tab)

lemma openfile_scan_tab:
  "\<lbrakk>openfile_scan n i s = Some ((r, j), s'); open_ok (opentab s)\<rbrakk> \<Longrightarrow> open_ok (opentab s')"
proof (induction n arbitrary: i)
  case 0
  then show ?case by simp
next
  case (Suc n)
  let ?fd = "o_fd (opentab s i)"
  show ?case
  proof (cases "fdref s ?fd = 0")
    case True
    show ?thesis
    proof (cases "frames (fsm s) = 0")
      case z: True
      then show ?thesis using Suc.prems True by (simp add: Let_def)
    next
      case False
      then obtain t where t: "in_fs (page_alloc_at ?fd) s = Some t" "openfile_take i (t\<lparr>fdref := (fdref t)(?fd := 1)\<rparr>) = Some ((r, j), s')"
        using Suc.prems(1) True by (auto simp: Let_def Option.bind_eq_Some_conv)
      then have "open_ok (opentab (t\<lparr>fdref := (fdref t)(?fd := 1)\<rparr>))" using in_fs_tab [OF t(1)] Suc.prems(2) by simp
      then show ?thesis using openfile_take_tab [OF t(2)] by blast
    qed
  next
    case False
    then have "openfile_take i s = Some ((r, j), s') \<or> openfile_scan n (Suc i) s = Some ((r, j), s')"
      using Suc.prems(1) by (auto simp: Let_def split: if_splits)
    then show ?thesis using Suc.IH Suc.prems(2) openfile_take_tab by blast
  qed
qed

lemma open_fd_tab: "\<lbrakk>open_fd i omode f s = Some (r, s'); open_ok (opentab s)\<rbrakk> \<Longrightarrow> open_ok (opentab s')"
  by (auto simp: open_fd_def Let_def Option.bind_eq_Some_conv upd_open_def open_ok_def dest!: in_fs_tab)

lemma serve_open_tab:
  assumes "serve_open s = Some (r, s')" "open_ok (opentab s)"
  shows "open_ok (opentab s')"
proof -
  have "on_fs req_path s \<noteq> None" using assms(1) by (intro notI) (simp add: serve_open_def)
  then obtain path t where t: "on_fs req_path s = Some (path, t)" by auto
  then have okt: "open_ok (opentab t)" using on_fs_tab [OF t] assms(2) by simp
  have "openfile_alloc t \<noteq> None" using assms(1) t by (intro notI) (simp add: serve_open_def)
  then obtain v i u where u: "openfile_alloc t = Some ((v, i), u)" by auto
  have ok: "open_ok (opentab u)" using openfile_scan_tab [of MAXOPEN 0 t v i u] u okt by (simp add: openfile_alloc_def)
  show ?thesis
  proof (cases "sint v < 0")
    case True
    then show ?thesis using assms(1) t u ok by (simp add: serve_open_def)
  next
    case False
    have "on_fs (ld32 (fsreq + 1024)) u \<noteq> None" using assms(1) t u False by (intro notI) (simp add: serve_open_def)
    then obtain omode w where w: "on_fs (ld32 (fsreq + 1024)) u = Some (omode, w)" by auto
    have "on_fs (open_path path omode) w \<noteq> None" using assms(1) t u w False by (intro notI) (simp add: serve_open_def)
    then obtain fr x where x: "on_fs (open_path path omode) w = Some (fr, x)" by auto
    have okx: "open_ok (opentab x)" using ok on_fs_tab [OF w] on_fs_tab [OF x] by simp
    show ?thesis
    proof (cases fr)
      case (Inl e)
      then show ?thesis using assms(1) t u x w False okx by (simp add: serve_open_def)
    next
      case (Inr f)
      then have "open_fd i omode f x = Some (r, s')" using assms(1) t u x w False by (simp add: serve_open_def)
      then show ?thesis using open_fd_tab okx by blast
    qed
  qed
qed

lemma with_file_tab:
  assumes "with_file k s = Some (r, s')" and k: "\<And>i t v t'. k i t = Some (v, t') \<Longrightarrow> opentab t' = opentab t"
  shows "opentab s' = opentab s"
proof -
  obtain x t where t: "on_fs (ld32 fsreq) s = Some (x, t)" "(case openfile_lookup x t of Inl e \<Rightarrow> Some (ret_error e, t) | Inr i \<Rightarrow> k i t) = Some (r, s')"
    using assms(1) by (auto simp: with_file_def Option.bind_eq_Some_conv)
  then have "opentab s' = opentab t" using k by (cases "openfile_lookup x t") auto
  then show ?thesis using on_fs_tab [OF t(1)] by simp
qed

lemma advance_offset_tab: "advance_offset i x s = Some (v, s') \<Longrightarrow> opentab s' = opentab s"
  by (auto simp: advance_offset_def Let_def Option.bind_eq_Some_conv split: if_splits dest!: on_fs_tab in_fs_tab)

lemma handler_tab:
  assumes "handlers req = Some h" "h s = Some (r, s')"
  shows "opentab s' = opentab s"
proof -
  have h: "h \<in> {serve_set_size, serve_read, serve_write, serve_stat, serve_flush, serve_sync}"
    using assms(1) by (auto simp: handlers_def split: if_splits)
  from h show ?thesis
  proof (elim insertE emptyE)
    assume "h = serve_set_size"
    then show ?thesis using assms(2) unfolding serve_set_size_def
      by (auto simp: Option.bind_eq_Some_conv dest!: on_fs_tab in_fs_tab elim!: with_file_tab)
  next
    assume "h = serve_read"
    then show ?thesis using assms(2) unfolding serve_read_def
      by (auto simp: Option.bind_eq_Some_conv dest!: on_fs_tab in_fs_tab advance_offset_tab elim!: with_file_tab)
  next
    assume "h = serve_write"
    then show ?thesis using assms(2) unfolding serve_write_def
      by (auto simp: Option.bind_eq_Some_conv Let_def dest!: on_fs_tab in_fs_tab advance_offset_tab elim!: with_file_tab)
  next
    assume "h = serve_stat"
    then show ?thesis using assms(2) unfolding serve_stat_def
      by (auto simp: Option.bind_eq_Some_conv Let_def dest!: on_fs_tab in_fs_tab elim!: with_file_tab)
  next
    assume "h = serve_flush"
    then show ?thesis using assms(2) unfolding serve_flush_def
      by (auto simp: Option.bind_eq_Some_conv dest!: on_fs_tab in_fs_tab elim!: with_file_tab)
  next
    assume "h = serve_sync"
    then show ?thesis using assms(2) by (auto simp: serve_sync_def Option.bind_eq_Some_conv dest!: in_fs_tab)
  qed
qed

lemma serve_one_tab:
  assumes "serve_one req perm pg s = Some (m, s')" "open_ok (opentab s)"
  shows "open_ok (opentab s')"
proof (cases "perm AND PTE_P = 0")
  case True
  then show ?thesis using assms by (simp add: serve_one_def)
next
  case False
  have rp: "opentab (recv_page pg s) = opentab s" "opentab (unmap_req t) = opentab t" for t by (simp_all add: recv_page_def unmap_req_def)
  show ?thesis
  proof (cases "req = FSREQ_OPEN")
    case True
    then obtain r p t where "serve_open (recv_page pg s) = Some ((r, p), t)" "s' = unmap_req t"
      using assms(1) False by (auto simp: serve_one_def Let_def Option.bind_eq_Some_conv)
    then show ?thesis using serve_open_tab [of "recv_page pg s"] assms(2) rp by simp
  next
    case nopen: False
    show ?thesis
    proof (cases "handlers req")
      case None
      then show ?thesis using assms False nopen rp by (auto simp: serve_one_def Let_def)
    next
      case (Some h)
      then obtain r t where "h (recv_page pg s) = Some (r, t)" "s' = unmap_req t"
        using assms(1) False nopen by (auto simp: serve_one_def Let_def Option.bind_eq_Some_conv)
      then show ?thesis using handler_tab [OF Some] assms(2) rp by simp
    qed
  qed
qed

lemma serv_reach_ok: "serv_reach s \<Longrightarrow> open_ok (opentab s)"
proof (induction rule: serv_reach.induct)
  case (init s)
  show ?case by (simp add: open_ok_def serve_init_def MAXOPEN_def unat_of_nat_32)
next
  case (request s req perm pg m s')
  then show ?case using serve_one_tab by blast
next
  case (clients s r)
  then show ?case by simp
qed

text \<open>An id is found just while a client holds the descriptor page; the id before the last open is not.\<close>

lemma lookup_current:
  assumes "open_ok (opentab s)" "i < MAXOPEN"
  shows "openfile_lookup (o_fileid (opentab s i)) s = (if fdref s (o_fd (opentab s i)) \<le> 1 then Inl E_INVAL else Inr i)"
  using assms by (simp add: open_ok_def openfile_lookup_def)

lemma lookup_stale:
  assumes "openfile_take i s = Some ((r, j), s')" "open_ok (opentab s)" "i < MAXOPEN"
  shows "openfile_lookup (o_fileid (opentab s i)) s' = Inl E_INVAL"
proof -
  have "unat (o_fileid (opentab s i)) mod MAXOPEN = i" using assms(2,3) by (simp add: open_ok_def)
  moreover have "o_fileid (opentab s i) + 1024 \<noteq> o_fileid (opentab s i)" by simp
  ultimately show ?thesis using openfile_take_tab [OF assms(1,2)] by (simp add: openfile_lookup_def)
qed

section \<open>Reading\<close>

lemma get32_bytes: "(\<And>j. j < 4 \<Longrightarrow> m' (off a j) = m (off a j)) \<Longrightarrow> get32 m' a = get32 m a"
proof -
  assume e: "\<And>j. j < 4 \<Longrightarrow> m' (off a j) = m (off a j)"
  show ?thesis using e [of 0] e [of 1] e [of 2] e [of 3] by (simp add: get32_def)
qed

lemma store32_far: "unat x < unat a \<Longrightarrow> unat a + 3 < 4294967296 \<Longrightarrow> store32 a v m x = m x"
proof -
  assume l: "unat x < unat a" "unat a + 3 < 4294967296"
  then have "unat (a + 1) = unat a + 1" "unat (a + 2) = unat a + 2" "unat (a + 3) = unat a + 3"
    using unat_add_32 [of a 1] unat_add_32 [of a 2] unat_add_32 [of a 3] by simp_all
  then have "x \<noteq> a" "x \<noteq> a + 1" "x \<noteq> a + 2" "x \<noteq> a + 3" using l by auto
  then show ?thesis by (simp add: store32_def)
qed

text \<open>The position in a descriptor page, and its distance to everything below.\<close>

lemma fd_word:
  assumes "unat fd mod 4096 = 0"
  shows "PGNUM (fd + 4) = PGNUM fd" "unat (fd + 4) = unat fd + 4" "unat (fd + 4) mod 4 = 0" "unat fd + 4 + 3 < 4294967296"
proof -
  show o: "PGNUM (fd + 4) = PGNUM fd" "unat (fd + 4) = unat fd + 4" using page_offset [of fd 4] assms by simp_all
  obtain q where q: "unat fd = 4096 * q" using assms by (auto simp: mod_eq_0_iff_dvd)
  have "4 dvd unat fd + 4" by (simp add: q)
  then show "unat (fd + 4) mod 4 = 0" by (simp add: o(2) dvd_eq_mod_eq_0)
  have "q < 1048576" using unat_less_32 [of fd] q by simp
  then show "unat fd + 4 + 3 < 4294967296" unfolding q by linarith
qed

lemma fd_word_kept:
  assumes "unat fd mod 4096 = 0" "\<And>x. unat fd \<le> unat x \<Longrightarrow> m' x = m x"
  shows "get32 m' (fd + 4) = get32 m (fd + 4)"
proof (rule get32_bytes)
  fix j :: nat
  assume "j < 4"
  then have "unat (off (fd + 4) j) = unat fd + 4 + j" using fd_word [OF assms(1)] by (simp add: unat_add_32)
  then show "m' (off (fd + 4) j) = m (off (fd + 4) j)" using assms(2) by simp
qed

lemma advance_offset_ok:
  assumes r: "fs_ready (fsm s)" and fd: "fd = o_fd (opentab s i)" "unat fd mod 4096 = 0" "present (fsm s) (PGNUM fd)"
    "0xD0000000 \<le> unat fd" and n: "unat n < 2147483648"
  shows "\<exists>s'. advance_offset i (Inr n) s = Some (n, s') \<and> fs_ready (fsm s') \<and>
    view (fsm s') = store32 (fd + 4) (get32 (view (fsm s)) (fd + 4) + n) (view (fsm s))"
proof -
  note o = fd_word [OF fd(2)]
  have ns: "fd + 4 \<noteq> s_nblocks" using o(2) fd(4) by (auto simp: s_nblocks_def SUPER_def DISKMAP_def BLKSIZE_def)
  have "0 \<le> sint n" using signed_unat [of n] n by simp
  then have nn: "\<not> sint n < 0" by simp
  obtain t where t: "ld32 (fd + 4) (fsm s) = Some (get32 (view (fsm s)) (fd + 4), t)" "view t = view (fsm s)" "grown (fsm s) t"
    using ld32_ok [OF r _ o(3)] fd(3) o(1) by (auto simp: reachable_addr_def)
  have ra: "reachable_addr t (fd + 4)" using fd(3) o(1) t(3) by (simp add: reachable_addr_def grown_def)
  obtain u where u: "st32 (fd + 4) (get32 (view (fsm s)) (fd + 4) + n) t = Some u" "grown t u"
      "view u = store32 (fd + 4) (get32 (view (fsm s)) (fd + 4) + n) (view (fsm s))"
    using st32_ok [OF grown_ready [OF t(3)] ra o(3) ns, of "get32 (view (fsm s)) (fd + 4) + n"] t(2) by auto
  show ?thesis using t(1) u grown_ready [OF u(2)] nn by (simp add: advance_offset_def on_fs_def in_fs_def flip: fd(1))
qed

text \<open>The three words a read or write request is about.\<close>

lemma request_words:
  assumes r: "fs_ready s" and fd: "unat fd mod 4096 = 0" "present s (PGNUM fd)" and req: "present s (PGNUM fsreq)"
  shows "\<exists>s1 s2 s3. ld32 fsreq s = Some (get32 (view s) fsreq, s1) \<and> ld32 (fsreq + 4) s1 = Some (get32 (view s) (fsreq + 4), s2) \<and>
    ld32 (fd + 4) s2 = Some (get32 (view s) (fd + 4), s3) \<and> view s3 = view s \<and> grown s s3"
proof -
  note o = fd_word [OF fd(1)]
  have q: "PGNUM (fsreq + 4) = PGNUM fsreq" "unat (fsreq + 4) mod 4 = 0" "unat fsreq mod 4 = 0" by (simp_all add: fsreq_def PGNUM_def)
  obtain s1 where s1: "ld32 fsreq s = Some (get32 (view s) fsreq, s1)" "view s1 = view s" "grown s s1"
    using ld32_ok [OF r _ q(3)] req by (auto simp: reachable_addr_def)
  obtain s2 where s2: "ld32 (fsreq + 4) s1 = Some (get32 (view s) (fsreq + 4), s2)" "view s2 = view s" "grown s1 s2"
    using ld32_ok [OF grown_ready [OF s1(3)] _ q(2)] req q(1) s1 by (auto simp: reachable_addr_def grown_def)
  obtain s3 where s3: "ld32 (fd + 4) s2 = Some (get32 (view s) (fd + 4), s3)" "view s3 = view s" "grown s2 s3"
    using ld32_ok [OF grown_ready [OF s2(3)] _ o(3)] fd(2) o(1) s1(3) s2 by (auto simp: reachable_addr_def grown_def)
  have "grown s s3" using s1(3) s2(3) s3(3) grown_trans by blast
  with s1(1) s2(1) s3(1,2) show ?thesis by blast
qed

lemma serve_read_ok:
  assumes r: "fs_ready (fsm s)" and l: "laid_out (view (fsm s)) f k"
    and op: "openfile_lookup (get32 (view (fsm s)) fsreq) s = Inr i" "f = o_file (opentab s i)" "fd = o_fd (opentab s i)"
    and n: "n = get32 (view (fsm s)) (fsreq + 4)" "0 < n" and pos: "pos = get32 (view (fsm s)) (fd + 4)"
    and sz: "unat pos + unat n \<le> unat (get32 (view (fsm s)) (f_size f))" "unat (get32 (view (fsm s)) (f_size f)) \<le> k * 4096"
    and fd: "unat fd mod 4096 = 0" "present (fsm s) (PGNUM fd)" "0xD0000000 \<le> unat fd"
    and req: "present (fsm s) (PGNUM fsreq)" and b: "buffer (fsm s) f k fsreq (unat n)"
  shows "\<exists>s'. serve_read s = Some (n, s') \<and> fs_ready (fsm s') \<and> get32 (view (fsm s')) (fd + 4) = pos + n \<and>
    (\<forall>j < unat n. view (fsm s') (fsreq + of_nat j) = view (fsm s) (fbyte (view (fsm s)) f (unat pos + j)))"
proof -
  let ?v = "view (fsm s)"
  have k: "k \<le> 1034" using l by (simp add: laid_out_def)
  have nlt: "unat n < 4235265" "unat n < 2147483648" using sz k by simp_all
  obtain s1 s2 s3 where s3: "ld32 fsreq (fsm s) = Some (get32 ?v fsreq, s1)" "ld32 (fsreq + 4) s1 = Some (n, s2)"
      "ld32 (fd + 4) s2 = Some (pos, s3)" "view s3 = ?v" "grown (fsm s) s3"
    using request_words [OF r fd(1,2) req] n(1) pos by auto
  have b3: "buffer s3 f k fsreq (unat n)" using buffer_tail [OF b s3(5) _ r l, of 0] s3(4) by simp
  obtain s4 where s4: "file_read f fsreq n pos s3 = Some (Inr n, s4)" "grown s3 s4"
      "\<forall>j < unat n. view s4 (off fsreq j) = ?v (fbyte ?v f (unat pos + j))"
      "\<forall>a. (\<forall>j < unat n. a \<noteq> off fsreq j) \<longrightarrow> view s4 a = ?v a"
    using file_read_ok [OF grown_ready [OF s3(5)], of f k pos n fsreq] l sz n(2) b3 s3(4) by auto
  have far: "unat (off fsreq j) < unat fd" if "j < unat n" for j
    using buffer_props(1) [OF b that] that nlt(1) fd(3) by (simp add: fsreq_def)
  have "view s4 x = ?v x" if "unat fd \<le> unat x" for x using s4(4) far that by force
  then have keep: "get32 (view s4) (fd + 4) = pos" unfolding pos by (rule fd_word_kept [OF fd(1)])
  let ?t = "s\<lparr>fsm := s4\<rparr>"
  have c: "fs_ready (fsm ?t)" "present (fsm ?t) (PGNUM fd)" using grown_ready [OF s4(2)] fd(2) s3(5) s4(2) by (simp_all add: grown_def)
  have e: "fd = o_fd (opentab ?t i)" using op(3) by simp
  obtain s' where s': "advance_offset i (Inr n) ?t = Some (n, s')" "fs_ready (fsm s')" "view (fsm s') = store32 (fd + 4) (pos + n) (view s4)"
    using advance_offset_ok [OF c(1) e fd(1) c(2) fd(3) nlt(2)] keep by auto
  have lk: "openfile_lookup x (s\<lparr>fsm := m\<rparr>) = openfile_lookup x s" for x m by (simp add: openfile_lookup_def)
  have fdi: "o_fd (opentab s i) = fd" "o_file (opentab s i) = f" using op(2,3) by simp_all
  have rd: "serve_read s = Some (n, s')"
    using s3(1,2,3) s4(1) s'(1) op(1) by (simp add: serve_read_def with_file_def on_fs_def lk fdi)
  have "view (fsm s') (off fsreq j) = view s4 (off fsreq j)" if "j < unat n" for j
    unfolding s'(3) using far [OF that] fd_word(2,4) [OF fd(1)] by (intro store32_far) simp_all
  then have "\<forall>j < unat n. view (fsm s') (off fsreq j) = ?v (fbyte ?v f (unat pos + j))" using s4(3) by simp
  moreover have "get32 (view (fsm s')) (fd + 4) = pos + n" by (simp add: s'(3) get32_store32)
  ultimately show ?thesis using s'(2) rd by blast
qed

text \<open>A request for more than a page: the buffer goes on into block 0, where the map of the disk starts.\<close>

lemma long_buffer:
  assumes "fs_ready s" "laid_out (view s) f k" "present s (PGNUM fsreq)" "in_use (view s) 0" "n \<le> 8192"
  shows "buffer s f k fsreq n"
proof -
  have nb: "get32 (view s) s_nblocks \<le> 32768" using assms(1) by (simp add: fs_ready_def)
  have "reachable_addr s (off fsreq i) \<and> \<not> desc_page (view s) f k (off fsreq i) \<and> (\<forall>p < k * 4096. off fsreq i \<noteq> fbyte (view s) f p)"
    if i: "i < n" for i
  proof (cases "i < 4096")
    case True
    then have "present s (PGNUM (off fsreq j))" if "j < 4096" for j
      using page_offset(1) [of fsreq j] that assms(3) by (simp add: fsreq_def)
    then have "buffer s f k fsreq 4096" using assms(1,2) by (intro low_buffer) (simp_all add: fsreq_def)
    then show ?thesis using True by (simp add: buffer_def)
  next
    case False
    have u: "unat (off fsreq i) = 268431360 + i" using i assms(5) by (simp add: fsreq_def unat_add_32)
    then have m: "in_map (off fsreq i)" using False i assms(5) by (simp add: unat_in_map)
    have "unat (blk (off fsreq i)) = 0" using unat_blk [OF m] u i assms(5) by simp
    then have z: "blk (off fsreq i) = 0" by (simp add: word_eq_unat)
    have ne: "PGNUM (off fsreq i) \<noteq> PGNUM x" if "in_map x" "0 < blk x" for x using block_page [OF m that(1)] z that(2) by auto
    have "0 < get32 (view s) s_nblocks" using assms(2) by (auto simp: laid_out_def intro: le_less_trans)
    then have "reachable_addr s (off fsreq i)" using m z assms(4) by (simp add: reachable_addr_def)
    moreover have "off fsreq i \<noteq> fbyte (view s) f p" if "p < k * 4096" for p
      using fbyte_props(3,4) [OF assms(2) nb that] z by (auto simp: good_block_def)
    moreover have "in_map f" "0 < blk f" using assms(2) by (simp_all add: laid_out_def)
    moreover have "in_map SUPER" "0 < blk SUPER" "in_map BITMAP" "0 < blk BITMAP"
      by (simp_all add: in_map_def blk_def SUPER_def BITMAP_def DISKMAP_def BLKSIZE_def DISKSIZE_def)
    moreover have "in_map (block_base c) \<and> 0 < blk (block_base c)" if "10 < k" "c = get32 (view s) (f_indirect f)" for c
      using that assms(2) good_block_bound [OF _ nb, of c] block_words(3,4) [of c 0] by (auto simp: laid_out_def word_less_nat_alt)
    ultimately show ?thesis using ne by (auto simp: desc_page_def)
  qed
  then show ?thesis using assms(5) by (simp add: buffer_def fsreq_def)
qed

end
