(* ===== verification/Jos_Serv_Properties.thy ===== *)
theory Jos_Serv_Properties
  imports Jos_Serv Jos_Fs_Properties
begin

text \<open>
  Properties of the file server. The example has one open file, with id 42, on the disk of
  \<open>ex_fs\<close>.
\<close>

definition ex_serv :: "fsmem \<Rightarrow> serv" where
  "ex_serv m = \<lparr>fsm = m, opentab = opentab (serve_init \<lparr>fsm = m, opentab = \<lambda>_. \<lparr>o_fileid = 0, o_file = 0x10003000, o_mode = 0, o_fd = 0\<rparr>,
     fdref = \<lambda>_. 0\<rparr>), fdref = (\<lambda>_. 0)(0xD002A000 := 2)\<rparr>"

lemma ex_serv_reach: "serv_reach (ex_serv m)"
proof -
  let ?s = "\<lparr>fsm = m, opentab = \<lambda>_. \<lparr>o_fileid = 0, o_file = 0x10003000, o_mode = 0, o_fd = 0\<rparr>, fdref = \<lambda>_. 0\<rparr>"
  have "ex_serv m = (serve_init ?s)\<lparr>fdref := (\<lambda>_. 0)(0xD002A000 := 2)\<rparr>" by (simp add: ex_serv_def serve_init_def)
  then show ?thesis using serv_reach.clients [OF serv_reach.init [of ?s]] by simp
qed

lemma ex_serv_lookup: "openfile_lookup 42 (ex_serv m) = Inr 42" "o_fd (opentab (ex_serv m) 42) = 0xD002A000" "fsm (ex_serv m) = m"
  "o_file (opentab (ex_serv m) 42) = 0x10003000"
  by (simp_all add: openfile_lookup_def ex_serv_def serve_init_def MAXOPEN_def FILEVA_def)

text \<open>
  C18. The table of open files is well formed in every state the file server reaches, whatever clients
  request and however they map and unmap the descriptor pages: entry \<open>i\<close> has a file id that is \<open>i\<close>
  modulo \<open>MAXOPEN\<close> and the \<open>i\<close>-th descriptor page, so that a request with the current id of an entry
  is answered from that entry just as long as a client has the page, and one with any other id never.
\<close>

theorem opentab_typed:
  assumes "serv_reach s" "i < MAXOPEN"
  shows "unat (o_fileid (opentab s i)) mod MAXOPEN = i \<and> o_fd (opentab s i) = FILEVA + of_nat i * PGSIZE \<and>
    (openfile_lookup x s = Inr i \<longleftrightarrow> x = o_fileid (opentab s i) \<and> 1 < fdref s (o_fd (opentab s i)))"
proof -
  have *: "unat (o_fileid (opentab s i)) mod MAXOPEN = i" "o_fd (opentab s i) = FILEVA + of_nat i * PGSIZE"
    using serv_reach_ok [OF assms(1)] assms(2) by (simp_all add: open_ok_def)
  then have "openfile_lookup x s = Inr i \<longleftrightarrow> x = o_fileid (opentab s i) \<and> 1 < fdref s (o_fd (opentab s i))"
    by (auto simp: openfile_lookup_def Let_def)
  with * show ?thesis by blast
qed

theorem opentab_typed_witness: "o_fd (opentab (ex_serv ex_fs) 42) = FILEVA + 42 * PGSIZE"
  using opentab_typed [OF ex_serv_reach, of 42 ex_fs] by (simp add: MAXOPEN_def)

text \<open>
  C27. \<open>serve_read\<close> of \<open>n\<close> bytes inside a file returns \<open>n\<close>, moves the position of the descriptor by
  \<open>n\<close> and puts the bytes of the file where the request was. The length is not limited to the page of the
  request: from byte 4096 on the answer overwrites block 0 of the map of the disk.
\<close>

theorem serve_read_answer:
  assumes "fs_ready (fsm s)" "laid_out (view (fsm s)) f k" "openfile_lookup (get32 (view (fsm s)) fsreq) s = Inr i"
    "f = o_file (opentab s i)" "fd = o_fd (opentab s i)" "n = get32 (view (fsm s)) (fsreq + 4)" "0 < n"
    "pos = get32 (view (fsm s)) (fd + 4)" "unat pos + unat n \<le> unat (get32 (view (fsm s)) (f_size f))"
    "unat (get32 (view (fsm s)) (f_size f)) \<le> k * 4096" "unat fd mod 4096 = 0" "present (fsm s) (PGNUM fd)"
    "0xD0000000 \<le> unat fd" "present (fsm s) (PGNUM fsreq)" "in_use (view (fsm s)) 0" "unat n \<le> 8192"
  shows "(\<exists>s'. serve_read s = Some (n, s') \<and> fs_ready (fsm s') \<and> get32 (view (fsm s')) (fd + 4) = pos + n \<and>
    (\<forall>j < unat n. view (fsm s') (fsreq + of_nat j) = view (fsm s) (fbyte (view (fsm s)) f (unat pos + j)))) \<and>
    (\<forall>j. 4096 \<le> j \<and> j < unat n \<longrightarrow> fsreq + of_nat j = DISKMAP + of_nat (j - 4096))"
proof
  show "\<exists>s'. serve_read s = Some (n, s') \<and> fs_ready (fsm s') \<and> get32 (view (fsm s')) (fd + 4) = pos + n \<and>
      (\<forall>j < unat n. view (fsm s') (fsreq + of_nat j) = view (fsm s) (fbyte (view (fsm s)) f (unat pos + j)))"
    by (rule serve_read_ok [OF assms(1-14) long_buffer [OF assms(1,2,14,15,16)]])
  have "of_nat (j - 4096) = (of_nat j - 4096 :: u32)" if "4096 \<le> j" for j :: nat using that by (simp add: of_nat_diff)
  then show "\<forall>j. 4096 \<le> j \<and> j < unat n \<longrightarrow> fsreq + of_nat j = DISKMAP + of_nat (j - 4096)"
    by (simp add: fsreq_def DISKMAP_def)
qed

lemma ex_long_request:
  obtains m where "fs_ready m" "laid_out (view m) 0x10003000 2" "grown ex_fs m" "view m = (view ex_fs)(0x0FFFF005 := 0x14, 0x10000000 := 9)"
proof -
  have r: "reachable_addr ex_fs 0x0FFFF005" "reachable_addr ex_fs 0x10000000" by (simp_all add: reachable_addr_def ex_fs_def PGNUM_def)
  have n: "\<not> (0x0FFFF005 - s_nblocks < 4)" "\<not> (0x10000000 - s_nblocks < 4)" by (simp_all add: s_nblocks_def SUPER_def DISKMAP_def BLKSIZE_def)
  obtain t where t: "view t = (view ex_fs)(0x0FFFF005 := 0x14)" "grown ex_fs t" using st8_ok [OF ex_fs_ready r(1) n(1)] by blast
  have "reachable_addr t 0x10000000" using r(2) t(2) by (simp add: reachable_addr_def grown_def ex_fs_def PGNUM_def)
  then obtain m where m: "view m = (view t)(0x10000000 := 9)" "grown t m" using st8_ok [OF grown_ready [OF t(2)] _ n(2)] by blast
  have "\<not> desc_page (view ex_fs) 0x10003000 2 x" if "x = 0x0FFFF005 \<or> x = 0x10000000" for x
    using that by (auto simp: desc_page_def PGNUM_def SUPER_def BITMAP_def DISKMAP_def BLKSIZE_def)
  then have "laid_out (view m) 0x10003000 2" using m(1) t(1) ex_fs_nblocks by (intro layout_cong(1) [OF ex_fs_laid_out]) auto
  with that show ?thesis using m t grown_trans [OF t(2) m(2)] grown_ready [OF m(2)] by auto
qed

theorem serve_read_answer_witness:
  "\<exists>s s'. serve_read s = Some (5120, s') \<and> view (fsm s) DISKMAP = 9 \<and> view (fsm s') DISKMAP = 0"
proof -
  obtain m where m: "fs_ready m" "laid_out (view m) 0x10003000 2" "grown ex_fs m" "view m = (view ex_fs)(0x0FFFF005 := 0x14, 0x10000000 := 9)"
    by (rule ex_long_request)
  let ?s = "ex_serv m"
  have w: "get32 (view m) fsreq = 42" "get32 (view m) (fsreq + 4) = 5120" "get32 (view m) (0xD002A000 + 4) = 0"
      "get32 (view m) (f_size 0x10003000) = 8192" "fblock (view m) 0x10003000 1 = 5" "in_use (view m) 0"
    by (simp_all add: m(4) view_ex_fs get32_def fsreq_def f_size_def fblock_def f_direct_def in_use_def bitmap_word_def BITMAP_def DISKMAP_def BLKSIZE_def)
      (simp_all add: ex_fs_def)
  have p: "present m (PGNUM 0xD002A000)" "present m (PGNUM fsreq)" using m(3) by (simp_all add: grown_def ex_fs_def fsreq_def PGNUM_def)
  have fb: "fbyte (view m) 0x10003000 4096 = 0x10005000" using w(5) by (simp add: fbyte_def block_base_def DISKMAP_def BLKSIZE_def)
  have v: "view m 0x10005000 = 0" "view m DISKMAP = 9" by (simp_all add: m(4) view_ex_fs DISKMAP_def) (simp_all add: ex_fs_def)
  have "\<exists>s'. serve_read ?s = Some (5120, s') \<and> fs_ready (fsm s') \<and> get32 (view (fsm s')) (0xD002A000 + 4) = 0 + 5120 \<and>
      (\<forall>j < unat (5120 :: u32). view (fsm s') (fsreq + of_nat j) = view (fsm ?s) (fbyte (view (fsm ?s)) 0x10003000 (unat (0 :: u32) + j)))"
    by (rule conjunct1 [OF serve_read_answer [where k = 2 and i = 42]]) (simp_all only: ex_serv_lookup m(1,2) w p, simp_all)
  then obtain s' where s': "serve_read ?s = Some (5120, s')"
      "\<forall>j < unat (5120 :: u32). view (fsm s') (fsreq + of_nat j) = view m (fbyte (view m) 0x10003000 (0 + j))"
    by (auto simp only: ex_serv_lookup unat_0)
  have "view (fsm s') DISKMAP = 0" using s'(2) [rule_format, of 4096] fb v(1) by (simp add: fsreq_def DISKMAP_def)
  then show ?thesis using s'(1) v(2) ex_serv_lookup(3) by metis
qed

end
