(* ===== verification/Thread_Count.thy ===== *)
theory Thread_Count
  imports Main
begin

text \<open>
  Counting the threads of a program that are in a given place. Programs have the threads
  \<open>0, \<dots>, n - 1\<close>, and the place of each is a function of its number.
\<close>

text \<open>One summand changes.\<close>

lemma sum_one:
  fixes g g' :: "nat \<Rightarrow> int"
  assumes "i < n" "\<And>j. j \<noteq> i \<Longrightarrow> g' j = g j"
  shows "(\<Sum>j < n. g' j) = (\<Sum>j < n. g j) - g i + g' i"
proof -
  have "(\<Sum>j \<in> {..<n} - {i}. g' j) = (\<Sum>j \<in> {..<n} - {i}. g j)" using assms(2) by (intro sum.cong) auto
  then show ?thesis using assms(1) sum.remove [of "{..<n}" i g'] sum.remove [of "{..<n}" i g] by simp
qed

definition cnt :: "('p \<Rightarrow> bool) \<Rightarrow> (nat \<Rightarrow> 'p) \<Rightarrow> nat \<Rightarrow> int" where
  "cnt P f n = (\<Sum>i < n. of_bool (P (f i)))"

lemma cnt_upd [simp]: "i < n \<Longrightarrow> cnt P (f(i := x)) n = cnt P f n - of_bool (P (f i)) + of_bool (P x)"
  unfolding cnt_def by (subst sum_one [of i n _ "\<lambda>j. of_bool (P (f j))"]) auto

lemma cnt_nonneg [simp]: "0 \<le> cnt P f n"
  by (simp add: cnt_def sum_nonneg)

lemma cnt_zero_iff: "cnt P f n = 0 \<longleftrightarrow> (\<forall>i < n. \<not> P (f i))"
  by (auto simp: cnt_def sum_nonneg_eq_0_iff)

lemma cnt_pos: "\<lbrakk>i < n; P (f i)\<rbrakk> \<Longrightarrow> 0 < cnt P f n"
  using cnt_zero_iff [of P f n] by (simp add: order_less_le) blast

lemma cnt_le: "cnt P f n \<le> int n"
proof -
  have "cnt P f n \<le> (\<Sum>i < n. 1)" unfolding cnt_def by (rule sum_mono) simp
  then show ?thesis by simp
qed

lemma cnt_split:
  assumes "\<And>x. P x \<longleftrightarrow> Q x \<or> R x" "\<And>x. \<not> (Q x \<and> R x)"
  shows "cnt P f n = cnt Q f n + cnt R f n"
proof -
  have "cnt P f n = (\<Sum>i < n. of_bool (Q (f i)) + of_bool (R (f i)))"
    unfolding cnt_def using assms by (intro sum.cong) (auto simp: of_bool_def)
  then show ?thesis by (simp only: cnt_def sum.distrib)
qed

lemma cnt_all: "cnt P f n = int n \<longleftrightarrow> (\<forall>i < n. P (f i))"
proof -
  have "cnt (\<lambda>_. True) f n = cnt P f n + cnt (\<lambda>x. \<not> P x) f n" by (rule cnt_split) auto
  then have "cnt P f n + cnt (\<lambda>x. \<not> P x) f n = int n" by (simp add: cnt_def)
  then show ?thesis using cnt_zero_iff [of "\<lambda>x. \<not> P x" f n] by auto
qed

lemma cnt_two:
  assumes "i < n" "j < n" "i \<noteq> j" "P (f i)" "P (f j)"
  shows "2 \<le> cnt P f n"
proof -
  have "cnt P f n = (\<Sum>k \<in> {..<n} - {i}. of_bool (P (f k))) + 1"
    using assms(1,4) sum.remove [of "{..<n}" i "\<lambda>k. of_bool (P (f k)) :: int"] by (simp add: cnt_def)
  moreover have "(\<Sum>k \<in> {..<n} - {i}. of_bool (P (f k)) :: int) = (\<Sum>k \<in> {..<n} - {i} - {j}. of_bool (P (f k))) + 1"
    using assms sum.remove [of "{..<n} - {i}" j "\<lambda>k. of_bool (P (f k)) :: int"] by simp
  moreover have "0 \<le> (\<Sum>k \<in> {..<n} - {i} - {j}. of_bool (P (f k)) :: int)" by (simp add: sum_nonneg)
  ultimately show ?thesis by simp
qed

section \<open>Programs that stop\<close>

text \<open>
  A program whose runs have bounded length: from every state it reaches it can be run until no thread
  can make a step.
\<close>

locale bounded_program =
  fixes run :: "nat \<Rightarrow> 's \<Rightarrow> bool" and step :: "'s \<Rightarrow> 's \<Rightarrow> bool" and start :: 's and bound :: nat
  assumes run_start: "run 0 start"
    and run_step: "\<lbrakk>run k s; step s s'\<rbrakk> \<Longrightarrow> run (Suc k) s'"
    and run_bound: "run k s \<Longrightarrow> k \<le> bound"
begin

lemma runs_to_the_end: "run k s \<Longrightarrow> \<exists>k' s'. run k' s' \<and> step\<^sup>*\<^sup>* s s' \<and> (\<forall>s''. \<not> step s' s'')"
proof (induction "bound - k" arbitrary: k s rule: less_induct)
  case less
  show ?case
  proof (cases "\<exists>s'. step s s'")
    case True
    then obtain s' where s': "step s s'" by blast
    then have r: "run (Suc k) s'" using run_step less.prems by blast
    then have "bound - Suc k < bound - k" using run_bound by fastforce
    then obtain k' t where "run k' t" "step\<^sup>*\<^sup>* s' t" "\<forall>s''. \<not> step t s''" using less.hyps r by blast
    then show ?thesis using s' converse_rtranclp_into_rtranclp [of step] by blast
  next
    case False
    then show ?thesis using less.prems by blast
  qed
qed

lemma has_complete_run: "\<exists>k s. run k s \<and> (\<forall>s'. \<not> step s s')"
  using runs_to_the_end [OF run_start] by blast

end

end
