(* ===== verification/Sema.thy ===== *)
theory Sema
  imports Thread_Count
begin

text \<open>
  Counting semaphores, and their implementation with a mutex and a condition variable
  (\<open>threads-sema/zemaphore.h\<close>). \<open>sem_wait\<close> and \<open>sem_post\<close> are the atomic operations that
  clients rely on; the threads inside \<open>Zem_wait\<close> and \<open>Zem_post\<close> are at one of the places below. A wait
  on the condition variable may return at any time, as POSIX allows.
\<close>

section \<open>Semaphores\<close>

definition sem_wait :: "nat \<Rightarrow> nat option" where
  "sem_wait v = (if 0 < v then Some (v - 1) else None)"

definition sem_post :: "nat \<Rightarrow> nat" where
  "sem_post v = Suc v"

lemma sem_wait_None [simp]: "sem_wait v = None \<longleftrightarrow> v = 0"
  by (simp add: sem_wait_def)

datatype sem_op = Down | Up

primrec sem_run :: "sem_op list \<Rightarrow> nat \<Rightarrow> nat option" where
  "sem_run [] v = Some v"
| "sem_run (x # xs) v = Option.bind (case x of Down \<Rightarrow> sem_wait v | Up \<Rightarrow> Some (sem_post v)) (sem_run xs)"

lemma sem_run_append: "sem_run (xs @ ys) v = Option.bind (sem_run xs v) (sem_run ys)"
  by (induction xs arbitrary: v) (auto simp: Option.bind_assoc intro: arg_cong [where f = "Option.bind _"])

section \<open>Zemaphores\<close>

datatype zpc = Outside
  | Wait_Lock | Wait_Test | Asleep | Woken | Wait_Take | Wait_Unlock
  | Post_Lock | Post_Add | Post_Signal | Post_Unlock

record Zem_t =
  zvalue :: int
  zlock :: "nat option"
  zpcs :: "nat \<Rightarrow> zpc"

definition Zem_init :: "int \<Rightarrow> Zem_t" where
  "Zem_init v = \<lparr>zvalue = v, zlock = None, zpcs = (\<lambda>_. Outside)\<rparr>"

definition goto :: "nat \<Rightarrow> zpc \<Rightarrow> Zem_t \<Rightarrow> Zem_t" where
  "goto i p z = z\<lparr>zpcs := (zpcs z)(i := p)\<rparr>"

text \<open>
  A step of thread \<open>i\<close> inside \<open>Zem_wait\<close>, inside \<open>Zem_post\<close>, and the steps that enter them. The list
  says what the step does to the semaphore.
\<close>

inductive Zem_wait :: "nat \<Rightarrow> Zem_t \<Rightarrow> sem_op list \<Rightarrow> Zem_t \<Rightarrow> bool" for i z where
  wait_lock: "\<lbrakk>zpcs z i = Wait_Lock; zlock z = None\<rbrakk> \<Longrightarrow> Zem_wait i z [] (goto i Wait_Test (z\<lparr>zlock := Some i\<rparr>))"
| wait_sleep: "\<lbrakk>zpcs z i = Wait_Test; zvalue z \<le> 0\<rbrakk> \<Longrightarrow> Zem_wait i z [] (goto i Asleep (z\<lparr>zlock := None\<rparr>))"
| wait_wake: "zpcs z i = Asleep \<Longrightarrow> Zem_wait i z [] (goto i Woken z)"
| wait_relock: "\<lbrakk>zpcs z i = Woken; zlock z = None\<rbrakk> \<Longrightarrow> Zem_wait i z [] (goto i Wait_Test (z\<lparr>zlock := Some i\<rparr>))"
| wait_leave: "\<lbrakk>zpcs z i = Wait_Test; 0 < zvalue z\<rbrakk> \<Longrightarrow> Zem_wait i z [] (goto i Wait_Take z)"
| wait_take: "zpcs z i = Wait_Take \<Longrightarrow> Zem_wait i z [Down] (goto i Wait_Unlock (z\<lparr>zvalue := zvalue z - 1\<rparr>))"
| wait_unlock: "zpcs z i = Wait_Unlock \<Longrightarrow> Zem_wait i z [] (goto i Outside (z\<lparr>zlock := None\<rparr>))"

inductive Zem_post :: "nat \<Rightarrow> Zem_t \<Rightarrow> sem_op list \<Rightarrow> Zem_t \<Rightarrow> bool" for i z where
  post_lock: "\<lbrakk>zpcs z i = Post_Lock; zlock z = None\<rbrakk> \<Longrightarrow> Zem_post i z [] (goto i Post_Add (z\<lparr>zlock := Some i\<rparr>))"
| post_add: "zpcs z i = Post_Add \<Longrightarrow> Zem_post i z [Up] (goto i Post_Signal (z\<lparr>zvalue := zvalue z + 1\<rparr>))"
| post_signal: "\<lbrakk>zpcs z i = Post_Signal; zpcs z j = Asleep\<rbrakk> \<Longrightarrow> Zem_post i z [] (goto i Post_Unlock (goto j Woken z))"
| post_no_waiter: "\<lbrakk>zpcs z i = Post_Signal; \<forall>j. zpcs z j \<noteq> Asleep\<rbrakk> \<Longrightarrow> Zem_post i z [] (goto i Post_Unlock z)"
| post_unlock: "zpcs z i = Post_Unlock \<Longrightarrow> Zem_post i z [] (goto i Outside (z\<lparr>zlock := None\<rparr>))"

inductive zem_step :: "nat \<Rightarrow> Zem_t \<Rightarrow> sem_op list \<Rightarrow> Zem_t \<Rightarrow> bool" for i z where
  call_wait: "zpcs z i = Outside \<Longrightarrow> zem_step i z [] (goto i Wait_Lock z)"
| call_post: "zpcs z i = Outside \<Longrightarrow> zem_step i z [] (goto i Post_Lock z)"
| in_wait: "Zem_wait i z e z' \<Longrightarrow> zem_step i z e z'"
| in_post: "Zem_post i z e z' \<Longrightarrow> zem_step i z e z'"

text \<open>Runs of \<open>n\<close> threads, with what they did to the semaphore in order.\<close>

inductive zem_run :: "nat \<Rightarrow> int \<Rightarrow> sem_op list \<Rightarrow> Zem_t \<Rightarrow> bool" for n v where
  init: "zem_run n v [] (Zem_init v)"
| step: "\<lbrakk>zem_run n v es z; i < n; zem_step i z e z'\<rbrakk> \<Longrightarrow> zem_run n v (es @ e) z'"

section \<open>Invariant\<close>

definition holds_lock :: "zpc \<Rightarrow> bool" where
  "holds_lock p \<longleftrightarrow> p \<in> {Wait_Test, Wait_Take, Wait_Unlock, Post_Add, Post_Signal, Post_Unlock}"

text \<open>A thread that has been told of a value above 0, or is about to tell another.\<close>

definition alert :: "zpc \<Rightarrow> bool" where
  "alert p \<longleftrightarrow> p \<in> {Woken, Wait_Test, Wait_Take, Post_Signal}"

lemma place_simps [simp]:
  "holds_lock Wait_Test" "holds_lock Wait_Take" "holds_lock Wait_Unlock" "holds_lock Post_Add" "holds_lock Post_Signal"
  "holds_lock Post_Unlock" "\<not> holds_lock Outside" "\<not> holds_lock Wait_Lock" "\<not> holds_lock Asleep" "\<not> holds_lock Woken"
  "\<not> holds_lock Post_Lock" "alert Woken" "alert Wait_Test" "alert Wait_Take" "alert Post_Signal" "\<not> alert Outside"
  "\<not> alert Wait_Lock" "\<not> alert Asleep" "\<not> alert Wait_Unlock" "\<not> alert Post_Lock" "\<not> alert Post_Add" "\<not> alert Post_Unlock"
  by (simp_all add: holds_lock_def alert_def)

definition lock_inv :: "Zem_t \<Rightarrow> bool" where
  "lock_inv z \<longleftrightarrow> (\<forall>i. holds_lock (zpcs z i) \<longleftrightarrow> zlock z = Some i)"

definition value_inv :: "nat \<Rightarrow> Zem_t \<Rightarrow> bool" where
  "value_inv n z \<longleftrightarrow> 0 \<le> zvalue z \<and> (\<forall>i. zpcs z i = Wait_Take \<longrightarrow> 0 < zvalue z) \<and>
     ((\<exists>i. zpcs z i = Asleep) \<longrightarrow> zvalue z \<le> cnt alert (zpcs z) n)"

lemma goto_simps [simp]:
  "zvalue (goto i p z) = zvalue z" "zlock (goto i p z) = zlock z" "zpcs (goto i p z) = (zpcs z)(i := p)"
  by (simp_all add: goto_def)

lemma lock_owner: "\<lbrakk>lock_inv z; holds_lock (zpcs z i)\<rbrakk> \<Longrightarrow> zlock z = Some i"
  by (simp add: lock_inv_def)

lemma lock_unique: "\<lbrakk>lock_inv z; holds_lock (zpcs z i); holds_lock (zpcs z j)\<rbrakk> \<Longrightarrow> i = j"
  by (auto simp: lock_inv_def)

lemma lock_inv_same: "\<lbrakk>lock_inv z; holds_lock p = holds_lock (zpcs z i)\<rbrakk> \<Longrightarrow> lock_inv (goto i p (z\<lparr>zvalue := v\<rparr>))"
  "\<lbrakk>lock_inv z; holds_lock p = holds_lock (zpcs z i)\<rbrakk> \<Longrightarrow> lock_inv (goto i p z)"
  by (simp_all add: lock_inv_def)

lemma lock_inv_acquire: "\<lbrakk>lock_inv z; zlock z = None; holds_lock p\<rbrakk> \<Longrightarrow> lock_inv (goto i p (z\<lparr>zlock := Some i\<rparr>))"
  by (auto simp: lock_inv_def)

lemma lock_inv_release: "\<lbrakk>lock_inv z; holds_lock (zpcs z i); \<not> holds_lock p\<rbrakk> \<Longrightarrow> lock_inv (goto i p (z\<lparr>zlock := None\<rparr>))"
  by (auto simp: lock_inv_def)

lemma lock_inv_step:
  assumes "zem_step i z e z'" "lock_inv z"
  shows "lock_inv z'"
  using assms(1)
proof cases
  case in_wait
  then show ?thesis
    by cases (simp_all add: assms(2) lock_inv_same lock_inv_acquire lock_inv_release)
next
  case in_post
  then show ?thesis
  proof cases
    case (post_signal j)
    then have "i \<noteq> j" by auto
    then show ?thesis using post_signal assms(2) by (simp add: lock_inv_same)
  qed (simp_all add: assms(2) lock_inv_same lock_inv_acquire lock_inv_release)
qed (simp_all add: assms(2) lock_inv_same)

text \<open>One thread moves: the value does not grow faster than the number of alerted threads.\<close>

lemma value_inv_move:
  assumes inv: "value_inv n z" "lock_inv z" "i < n" and z': "zpcs z' = (zpcs z)(i := p)"
    and v: "0 \<le> zvalue z'" "p = Wait_Take \<Longrightarrow> 0 < zvalue z'" "zvalue z' < zvalue z \<Longrightarrow> holds_lock (zpcs z i)"
      "zvalue z' = 0 \<or> zvalue z' - zvalue z \<le> of_bool (alert p) - of_bool (alert (zpcs z i)) \<and> p \<noteq> Asleep \<or>
       (\<forall>j. zpcs z j \<noteq> Asleep) \<and> p \<noteq> Asleep"
  shows "value_inv n z'"
proof -
  have "0 < zvalue z'" if "zpcs z' j = Wait_Take" for j
  proof (cases "j = i")
    case True
    then show ?thesis using that v(2) z' by simp
  next
    case False
    then have t: "zpcs z j = Wait_Take" using that z' by simp
    then have "0 < zvalue z" using inv(1) by (auto simp: value_inv_def)
    moreover have "\<not> holds_lock (zpcs z i)" using lock_unique [OF inv(2), of i j] t False by auto
    ultimately show ?thesis using v(3) by fastforce
  qed
  moreover have "zvalue z' \<le> cnt alert (zpcs z') n" if "zpcs z' j = Asleep" for j
  proof (cases "zvalue z' = 0")
    case False
    then have j: "zpcs z j = Asleep" "zvalue z' - zvalue z \<le> of_bool (alert p) - of_bool (alert (zpcs z i))"
      using that v(4) z' by (auto split: if_splits)
    then have "zvalue z \<le> cnt alert (zpcs z) n" using inv(1) by (auto simp: value_inv_def)
    then show ?thesis using j(2) inv(3) z' by simp
  qed simp
  ultimately show ?thesis using v(1) by (auto simp: value_inv_def)
qed

lemma value_inv_signal:
  assumes "value_inv n z" "i < n" "j < n" "zpcs z i = Post_Signal" "zpcs z j = Asleep"
  shows "value_inv n (goto i Post_Unlock (goto j Woken z))"
proof -
  have "i \<noteq> j" using assms by auto
  then show ?thesis using assms by (auto simp: value_inv_def)
qed

lemma value_inv_step:
  assumes "zem_step i z e z'" "lock_inv z" "value_inv n z" "i < n" and inside: "\<And>j. zpcs z j \<noteq> Outside \<Longrightarrow> j < n"
  shows "value_inv n z'"
proof -
  have pos: "0 \<le> zvalue z" "zpcs z i = Wait_Take \<Longrightarrow> 0 < zvalue z" using assms(3) by (auto simp: value_inv_def)
  note move = value_inv_move [OF assms(3,2,4), of z' "zpcs z' i"]
  show ?thesis
    using assms(1)
  proof cases
    case in_wait
    then show ?thesis by cases (rule move; use pos in \<open>simp\<close>)+
  next
    case in_post
    then show ?thesis
    proof cases
      case (post_signal j)
      then show ?thesis using value_inv_signal [OF assms(3,4)] inside [of j] by simp
    qed (rule move; use pos in \<open>simp\<close>)+
  qed (rule move; use pos in \<open>simp\<close>)+
qed

lemma zem_run_inv:
  assumes "zem_run n v es z" "0 \<le> v"
  shows "lock_inv z \<and> value_inv n z \<and> (\<forall>j. zpcs z j \<noteq> Outside \<longrightarrow> j < n)"
  using assms(1)
proof (induction rule: zem_run.induct)
  case init
  show ?case using assms(2) by (simp add: Zem_init_def lock_inv_def value_inv_def)
next
  case (step es z i e z')
  have "zpcs z' j = Outside \<or> zpcs z j \<noteq> Outside \<or> j = i" for j
    using step.hyps(3) by (auto elim!: zem_step.cases Zem_wait.cases Zem_post.cases)
  then show ?case using step lock_inv_step value_inv_step by metis
qed

text \<open>Each step does to the value what its operation says.\<close>

lemma zem_step_sim:
  assumes "zem_step i z e z'" "value_inv n z"
  shows "sem_run e (nat (zvalue z)) = Some (nat (zvalue z'))"
proof -
  have "0 \<le> zvalue z" "zpcs z i = Wait_Take \<Longrightarrow> 0 < zvalue z" using assms(2) by (auto simp: value_inv_def)
  then show ?thesis
    using assms(1) by (auto elim!: zem_step.cases Zem_wait.cases Zem_post.cases simp: sem_wait_def sem_post_def nat_diff_distrib nat_add_distrib)
qed

lemma zem_run_sim:
  assumes "zem_run n v es z" "0 \<le> v"
  shows "sem_run es (nat v) = Some (nat (zvalue z))"
  using assms(1)
proof (induction rule: zem_run.induct)
  case init
  show ?case by (simp add: Zem_init_def)
next
  case (step es z i e z')
  then show ?case using zem_step_sim zem_run_inv [OF step.hyps(1) assms(2)] by (auto simp: sem_run_append)
qed

text \<open>The holder of the lock is never stuck, and neither is a woken thread when the lock is free.\<close>

lemmas zem_moves = Zem_wait.intros [THEN zem_step.in_wait] Zem_post.intros [THEN zem_step.in_post]

lemma lock_holder_moves: "holds_lock (zpcs z i) \<Longrightarrow> \<exists>e z'. zem_step i z e z'"
  by (cases "0 < zvalue z"; cases "\<exists>j. zpcs z j = Asleep"; cases "zpcs z i") (auto simp: not_less dest: zem_moves)

lemma no_lost_wakeup:
  assumes run: "zem_run n v es z" "0 \<le> v" and stuck: "\<And>i e z'. zem_step i z e z' \<Longrightarrow> zpcs z i = Outside \<or> zpcs z i = Asleep"
  shows "zpcs z j = Outside \<or> zpcs z j = Asleep \<and> zvalue z = 0"
proof -
  note inv = zem_run_inv [OF run]
  have h: "\<not> holds_lock (zpcs z i)" for i using lock_holder_moves [of z i] stuck [of i] by (metis place_simps(7,9))
  then have free: "zlock z = None" using inv by (cases "zlock z") (auto simp: lock_inv_def)
  have place: "zpcs z i = Outside \<or> zpcs z i = Asleep" for i
    using h [of i] free stuck [of i] by (cases "zpcs z i") (auto dest: zem_moves)
  then have "\<not> alert (zpcs z i)" for i by (metis place_simps(16,18))
  then have "cnt alert (zpcs z) n = 0" by (simp add: cnt_zero_iff)
  then have "zvalue z = 0" if "zpcs z j = Asleep" using inv that by (auto simp: value_inv_def)
  then show ?thesis using place by blast
qed

end
