(* ===== verification/Prod_Cons.thy ===== *)
theory Prod_Cons
  imports Sema
begin

text \<open>
  The producer and the consumers of \<open>threads-sema/producer_consumer_works.c\<close>: a buffer of \<open>bmax\<close> slots,
  the semaphores \<open>empty\<close>, \<open>full\<close> and \<open>mutex\<close>, one producer and \<open>n\<close> consumers. \<open>do_fill\<close> and
  \<open>do_get\<close> are several steps, since other threads may run in between. \<open>fills\<close> and \<open>got\<close> record the
  history: how many values were stored, and which were loaded, in order.
\<close>

datatype prod_pc = P_Loop | P_Wait_Empty | P_Wait_Mutex | P_Store | P_Incr | P_Wrap | P_Post_Mutex | P_Post_Full | P_Done

datatype cons_pc = C_Loop | C_Wait_Full | C_Wait_Mutex | C_Load | C_Incr | C_Wrap | C_Post_Mutex | C_Post_Empty | C_Done

record shop =
  buffer :: "nat \<Rightarrow> int"
  use_i :: nat
  fill_i :: nat
  empty :: nat
  full :: nat
  mutex :: nat
  p_pc :: prod_pc
  p_i :: nat
  c_pc :: "nat \<Rightarrow> cons_pc"
  tmp :: "nat \<Rightarrow> int"
  fills :: nat
  got :: "int list"

text \<open>The values the producer stores: \<open>0, \<dots>, loops - 1\<close> and then \<open>-1\<close> for every consumer.\<close>

definition item :: "nat \<Rightarrow> nat \<Rightarrow> int" where
  "item loops k = (if k < loops then int k else -1)"

definition shop_init :: "nat \<Rightarrow> shop" where
  "shop_init bmax = \<lparr>buffer = (\<lambda>_. 0), use_i = 0, fill_i = 0, empty = bmax, full = 0, mutex = 1, p_pc = P_Loop, p_i = 0,
     c_pc = (\<lambda>_. C_Loop), tmp = (\<lambda>_. 0), fills = 0, got = []\<rparr>"

inductive producer :: "nat \<Rightarrow> nat \<Rightarrow> nat \<Rightarrow> shop \<Rightarrow> shop \<Rightarrow> bool" for bmax loops n s where
  p_enter: "\<lbrakk>p_pc s = P_Loop; p_i s < loops + n\<rbrakk> \<Longrightarrow> producer bmax loops n s (s\<lparr>p_pc := P_Wait_Empty\<rparr>)"
| p_leave: "\<lbrakk>p_pc s = P_Loop; \<not> p_i s < loops + n\<rbrakk> \<Longrightarrow> producer bmax loops n s (s\<lparr>p_pc := P_Done\<rparr>)"
| p_empty: "\<lbrakk>p_pc s = P_Wait_Empty; sem_wait (empty s) = Some v\<rbrakk> \<Longrightarrow> producer bmax loops n s (s\<lparr>empty := v, p_pc := P_Wait_Mutex\<rparr>)"
| p_mutex: "\<lbrakk>p_pc s = P_Wait_Mutex; sem_wait (mutex s) = Some v\<rbrakk> \<Longrightarrow> producer bmax loops n s (s\<lparr>mutex := v, p_pc := P_Store\<rparr>)"
| p_store: "p_pc s = P_Store \<Longrightarrow>
    producer bmax loops n s (s\<lparr>buffer := (buffer s)(fill_i s := item loops (p_i s)), fills := Suc (fills s), p_pc := P_Incr\<rparr>)"
| p_incr: "p_pc s = P_Incr \<Longrightarrow> producer bmax loops n s (s\<lparr>fill_i := Suc (fill_i s), p_pc := P_Wrap\<rparr>)"
| p_wrap: "p_pc s = P_Wrap \<Longrightarrow>
    producer bmax loops n s (s\<lparr>fill_i := (if fill_i s = bmax then 0 else fill_i s), p_pc := P_Post_Mutex\<rparr>)"
| p_unlock: "p_pc s = P_Post_Mutex \<Longrightarrow> producer bmax loops n s (s\<lparr>mutex := sem_post (mutex s), p_pc := P_Post_Full\<rparr>)"
| p_full: "p_pc s = P_Post_Full \<Longrightarrow> producer bmax loops n s (s\<lparr>full := sem_post (full s), p_i := Suc (p_i s), p_pc := P_Loop\<rparr>)"

definition c_goto :: "nat \<Rightarrow> cons_pc \<Rightarrow> shop \<Rightarrow> shop" where
  "c_goto c x s = s\<lparr>c_pc := (c_pc s)(c := x)\<rparr>"

inductive consumer :: "nat \<Rightarrow> nat \<Rightarrow> shop \<Rightarrow> shop \<Rightarrow> bool" for bmax c s where
  c_enter: "\<lbrakk>c_pc s c = C_Loop; tmp s c \<noteq> -1\<rbrakk> \<Longrightarrow> consumer bmax c s (c_goto c C_Wait_Full s)"
| c_leave: "\<lbrakk>c_pc s c = C_Loop; tmp s c = -1\<rbrakk> \<Longrightarrow> consumer bmax c s (c_goto c C_Done s)"
| c_full: "\<lbrakk>c_pc s c = C_Wait_Full; sem_wait (full s) = Some v\<rbrakk> \<Longrightarrow> consumer bmax c s (c_goto c C_Wait_Mutex (s\<lparr>full := v\<rparr>))"
| c_mutex: "\<lbrakk>c_pc s c = C_Wait_Mutex; sem_wait (mutex s) = Some v\<rbrakk> \<Longrightarrow> consumer bmax c s (c_goto c C_Load (s\<lparr>mutex := v\<rparr>))"
| c_load: "c_pc s c = C_Load \<Longrightarrow>
    consumer bmax c s (c_goto c C_Incr (s\<lparr>tmp := (tmp s)(c := buffer s (use_i s)), got := got s @ [buffer s (use_i s)]\<rparr>))"
| c_incr: "c_pc s c = C_Incr \<Longrightarrow> consumer bmax c s (c_goto c C_Wrap (s\<lparr>use_i := Suc (use_i s)\<rparr>))"
| c_wrap: "c_pc s c = C_Wrap \<Longrightarrow>
    consumer bmax c s (c_goto c C_Post_Mutex (s\<lparr>use_i := (if use_i s = bmax then 0 else use_i s)\<rparr>))"
| c_unlock: "c_pc s c = C_Post_Mutex \<Longrightarrow> consumer bmax c s (c_goto c C_Post_Empty (s\<lparr>mutex := sem_post (mutex s)\<rparr>))"
| c_empty: "c_pc s c = C_Post_Empty \<Longrightarrow> consumer bmax c s (c_goto c C_Loop (s\<lparr>empty := sem_post (empty s)\<rparr>))"

inductive shop_step :: "nat \<Rightarrow> nat \<Rightarrow> nat \<Rightarrow> shop \<Rightarrow> shop \<Rightarrow> bool" for bmax loops n s where
  prod: "producer bmax loops n s s' \<Longrightarrow> shop_step bmax loops n s s'"
| cons: "\<lbrakk>c < n; consumer bmax c s s'\<rbrakk> \<Longrightarrow> shop_step bmax loops n s s'"

inductive shop_run :: "nat \<Rightarrow> nat \<Rightarrow> nat \<Rightarrow> nat \<Rightarrow> shop \<Rightarrow> bool" for bmax loops n where
  start: "shop_run bmax loops n 0 (shop_init bmax)"
| step: "\<lbrakk>shop_run bmax loops n k s; shop_step bmax loops n s s'\<rbrakk> \<Longrightarrow> shop_run bmax loops n (Suc k) s'"

lemma c_goto_simps [simp]:
  "buffer (c_goto c x s) = buffer s" "use_i (c_goto c x s) = use_i s" "fill_i (c_goto c x s) = fill_i s"
  "empty (c_goto c x s) = empty s" "full (c_goto c x s) = full s" "mutex (c_goto c x s) = mutex s" "p_pc (c_goto c x s) = p_pc s"
  "p_i (c_goto c x s) = p_i s" "c_pc (c_goto c x s) = (c_pc s)(c := x)" "tmp (c_goto c x s) = tmp s" "fills (c_goto c x s) = fills s"
  "got (c_goto c x s) = got s"
  by (simp_all add: c_goto_def)

section \<open>Tokens\<close>

text \<open>
  What the semaphores count: the mutex and the threads between its wait and its post; the full slots,
  whose post may still be due; the empty slots, whose post may still be due.
\<close>

primrec p_crit :: "prod_pc \<Rightarrow> bool" where
  "p_crit P_Loop = False" | "p_crit P_Wait_Empty = False" | "p_crit P_Wait_Mutex = False" | "p_crit P_Store = True" | "p_crit P_Incr = True"
| "p_crit P_Wrap = True" | "p_crit P_Post_Mutex = True" | "p_crit P_Post_Full = False" | "p_crit P_Done = False"

primrec c_crit :: "cons_pc \<Rightarrow> bool" where
  "c_crit C_Loop = False" | "c_crit C_Wait_Full = False" | "c_crit C_Wait_Mutex = False" | "c_crit C_Load = True" | "c_crit C_Incr = True"
| "c_crit C_Wrap = True" | "c_crit C_Post_Mutex = True" | "c_crit C_Post_Empty = False" | "c_crit C_Done = False"

primrec p_stored :: "prod_pc \<Rightarrow> bool" where
  "p_stored P_Loop = False" | "p_stored P_Wait_Empty = False" | "p_stored P_Wait_Mutex = False" | "p_stored P_Store = False" | "p_stored P_Incr = True"
| "p_stored P_Wrap = True" | "p_stored P_Post_Mutex = True" | "p_stored P_Post_Full = True" | "p_stored P_Done = False"

primrec p_claimed :: "prod_pc \<Rightarrow> bool" where
  "p_claimed P_Loop = False" | "p_claimed P_Wait_Empty = False" | "p_claimed P_Wait_Mutex = True" | "p_claimed P_Store = True" | "p_claimed P_Incr = False"
| "p_claimed P_Wrap = False" | "p_claimed P_Post_Mutex = False" | "p_claimed P_Post_Full = False" | "p_claimed P_Done = False"

primrec c_claimed :: "cons_pc \<Rightarrow> bool" where
  "c_claimed C_Loop = False" | "c_claimed C_Wait_Full = False" | "c_claimed C_Wait_Mutex = True" | "c_claimed C_Load = True" | "c_claimed C_Incr = False"
| "c_claimed C_Wrap = False" | "c_claimed C_Post_Mutex = False" | "c_claimed C_Post_Empty = False" | "c_claimed C_Done = False"

primrec c_loaded :: "cons_pc \<Rightarrow> bool" where
  "c_loaded C_Loop = False" | "c_loaded C_Wait_Full = False" | "c_loaded C_Wait_Mutex = False" | "c_loaded C_Load = False" | "c_loaded C_Incr = True"
| "c_loaded C_Wrap = True" | "c_loaded C_Post_Mutex = True" | "c_loaded C_Post_Empty = True" | "c_loaded C_Done = False"

definition token_inv :: "nat \<Rightarrow> nat \<Rightarrow> shop \<Rightarrow> bool" where
  "token_inv bmax n s \<longleftrightarrow>
     int (mutex s) + of_bool (p_crit (p_pc s)) + cnt c_crit (c_pc s) n = 1 \<and>
     int (full s) + cnt c_claimed (c_pc s) n + of_bool (p_stored (p_pc s)) = int (fills s) - int (length (got s)) \<and>
     int (empty s) + of_bool (p_claimed (p_pc s)) + cnt c_loaded (c_pc s) n + int (fills s) - int (length (got s)) = int bmax"

lemma token_inv_step:
  assumes "shop_step bmax loops n s s'" "token_inv bmax n s"
  shows "token_inv bmax n s'"
  using assms(1)
proof cases
  case prod
  then show ?thesis using assms(2) by cases (auto simp: token_inv_def sem_wait_def sem_post_def split: if_splits)
next
  case (cons c)
  from cons(2) show ?thesis using assms(2) cons(1)
    by cases (auto simp: token_inv_def sem_wait_def sem_post_def split: if_splits)
qed

lemma token_facts:
  assumes "token_inv bmax n s"
  shows "length (got s) \<le> fills s" "fills s \<le> length (got s) + bmax" "p_claimed (p_pc s) \<Longrightarrow> fills s < length (got s) + bmax"
    "\<lbrakk>c < n; c_claimed (c_pc s c)\<rbrakk> \<Longrightarrow> length (got s) < fills s"
    "\<lbrakk>c < n; c_crit (c_pc s c)\<rbrakk> \<Longrightarrow> \<not> p_crit (p_pc s)"
    "\<lbrakk>c < n; d < n; c_crit (c_pc s c); c_crit (c_pc s d)\<rbrakk> \<Longrightarrow> c = d"
proof -
  note t = assms [unfolded token_inv_def]
  note nn = cnt_nonneg [of c_claimed "c_pc s" n] cnt_nonneg [of c_loaded "c_pc s" n] cnt_nonneg [of c_crit "c_pc s" n]
  have b: "0 \<le> (of_bool x :: int)" for x by simp
  show "length (got s) \<le> fills s" using t nn(1) b [of "p_stored (p_pc s)"] by linarith
  show "fills s \<le> length (got s) + bmax" using t nn(2) b [of "p_claimed (p_pc s)"] by linarith
  show "fills s < length (got s) + bmax" if "p_claimed (p_pc s)"
  proof -
    have "of_bool (p_claimed (p_pc s)) = (1 :: int)" using that by simp
    then show ?thesis using t nn(2) by linarith
  qed
  show "length (got s) < fills s" if "c < n" "c_claimed (c_pc s c)"
    using t cnt_pos [of c n c_claimed "c_pc s"] that b [of "p_stored (p_pc s)"] by linarith
  show "\<not> p_crit (p_pc s)" if "c < n" "c_crit (c_pc s c)"
    using t cnt_pos [of c n c_crit "c_pc s"] that by (cases "p_crit (p_pc s)") auto
  have "\<not> 2 \<le> cnt c_crit (c_pc s) n" using t b [of "p_crit (p_pc s)"] by linarith
  then show "c = d" if "c < n" "d < n" "c_crit (c_pc s c)" "c_crit (c_pc s d)"
    using cnt_two [of c n d c_crit "c_pc s"] that by blast
qed

section \<open>History\<close>

definition prod_inv :: "nat \<Rightarrow> nat \<Rightarrow> nat \<Rightarrow> shop \<Rightarrow> bool" where
  "prod_inv bmax loops n s \<longleftrightarrow> fills s = p_i s + of_bool (p_stored (p_pc s)) \<and> p_i s \<le> loops + n \<and>
     (p_pc s \<noteq> P_Loop \<and> p_pc s \<noteq> P_Done \<longrightarrow> p_i s < loops + n) \<and> (p_pc s = P_Done \<longrightarrow> p_i s = loops + n) \<and>
     fill_i s = (if p_pc s = P_Incr then (fills s - 1) mod bmax else if p_pc s = P_Wrap then Suc ((fills s - 1) mod bmax)
                 else fills s mod bmax)"

lemma consumer_prod: "consumer bmax c s s' \<Longrightarrow> fills s' = fills s \<and> p_i s' = p_i s \<and> p_pc s' = p_pc s \<and> fill_i s' = fill_i s \<and> buffer s' = buffer s"
  by (auto elim: consumer.cases)

lemma producer_cons: "producer bmax loops n s s' \<Longrightarrow> c_pc s' = c_pc s \<and> tmp s' = tmp s \<and> got s' = got s \<and> use_i s' = use_i s"
  by (auto elim: producer.cases)

lemma prod_inv_step:
  assumes "shop_step bmax loops n s s'" "prod_inv bmax loops n s" "0 < bmax"
  shows "prod_inv bmax loops n s'"
  using assms(1)
proof cases
  case prod
  then show ?thesis using assms(2,3) by cases (auto simp: prod_inv_def mod_Suc split: if_splits)
next
  case (cons c)
  then show ?thesis using assms(2) consumer_prod [OF cons(2)] by (simp add: prod_inv_def)
qed

text \<open>The consumer inside the critical section is responsible for \<open>use\<close>.\<close>

definition use_inv :: "nat \<Rightarrow> nat \<Rightarrow> shop \<Rightarrow> bool" where
  "use_inv bmax n s \<longleftrightarrow>
     (\<forall>c < n. c_pc s c = C_Incr \<longrightarrow> 0 < length (got s) \<and> use_i s = (length (got s) - 1) mod bmax) \<and>
     (\<forall>c < n. c_pc s c = C_Wrap \<longrightarrow> 0 < length (got s) \<and> use_i s = Suc ((length (got s) - 1) mod bmax)) \<and>
     ((\<forall>c < n. c_pc s c \<noteq> C_Incr \<and> c_pc s c \<noteq> C_Wrap) \<longrightarrow> use_i s = length (got s) mod bmax)"

lemma wrap_mod: "0 < k \<Longrightarrow> (if Suc ((k - 1) mod b) = b then 0 else Suc ((k - 1) mod b)) = k mod b"
  by (cases k) (simp_all add: mod_Suc)

lemma use_inv_consumer:
  assumes st: "consumer bmax c s s'" and inv: "use_inv bmax n s" "token_inv bmax n s" and c: "c < n" "0 < bmax"
  shows "use_inv bmax n s'"
proof -
  have alone: "d = c" if "c_crit (c_pc s c)" "c_pc s d = C_Incr \<or> c_pc s d = C_Wrap" "d < n" for d
    using token_facts(6) [OF inv(2), of d c] that c(1) by auto
  show ?thesis
  proof (cases "c_crit (c_pc s c)")
    case True
    then have a: "\<forall>d < n. d \<noteq> c \<longrightarrow> c_pc s d \<noteq> C_Incr \<and> c_pc s d \<noteq> C_Wrap" using alone by blast
    from st show ?thesis
    proof cases
      case c_wrap
      then have u: "0 < length (got s)" "use_i s = Suc ((length (got s) - 1) mod bmax)" using inv(1) c(1) by (auto simp: use_inv_def)
      have "(if use_i s = bmax then 0 else use_i s) = length (got s) mod bmax" unfolding u(2) by (rule wrap_mod [OF u(1)])
      then show ?thesis using c_wrap a by (auto simp: use_inv_def)
    qed (use inv(1) a c in \<open>auto simp: use_inv_def split: if_splits\<close>)
  next
    case False
    from st have "got s' = got s \<and> use_i s' = use_i s \<and> (c_pc s' d = C_Incr) = (c_pc s d = C_Incr) \<and> (c_pc s' d = C_Wrap) = (c_pc s d = C_Wrap)" for d
      using False by cases auto
    then show ?thesis using inv(1) by (simp add: use_inv_def)
  qed
qed

text \<open>The slots between \<open>got\<close> and \<open>fills\<close> hold the values stored there.\<close>

definition buf_inv :: "nat \<Rightarrow> nat \<Rightarrow> shop \<Rightarrow> bool" where
  "buf_inv bmax loops s \<longleftrightarrow> got s = map (item loops) [0..<length (got s)] \<and>
     (\<forall>k. length (got s) \<le> k \<and> k < fills s \<longrightarrow> buffer s (k mod bmax) = item loops k)"

lemma slot_free: "\<lbrakk>g \<le> k; k < f; f < g + b\<rbrakk> \<Longrightarrow> k mod b \<noteq> f mod b" for g k f b :: nat
proof
  assume a: "g \<le> k" "k < f" "f < g + b" "k mod b = f mod b"
  then have "b dvd f - k" using mod_eq_dvd_iff_nat [of k f b] by simp
  then show False using a by (auto dest: dvd_imp_le)
qed

lemma buf_inv_producer:
  assumes st: "producer bmax loops n s s'" and inv: "buf_inv bmax loops s" "token_inv bmax n s" "prod_inv bmax loops n s"
  shows "buf_inv bmax loops s'"
  using st
proof cases
  case p_store
  have f: "fill_i s = fills s mod bmax" "p_i s = fills s" using inv(3) p_store by (simp_all add: prod_inv_def)
  have lt: "fills s < length (got s) + bmax" using token_facts(3) [OF inv(2)] p_store by simp
  have "((buffer s)(fill_i s := item loops (p_i s))) (k mod bmax) = item loops k" if "length (got s) \<le> k" "k < Suc (fills s)" for k
    using that slot_free [of "length (got s)" k "fills s" bmax] lt inv(1) f by (cases "k = fills s") (auto simp: buf_inv_def)
  then show ?thesis using inv(1) p_store by (simp add: buf_inv_def)
qed (use inv(1) in \<open>simp_all add: buf_inv_def\<close>)

lemma next_value:
  assumes "buf_inv bmax loops s" "token_inv bmax n s" "use_inv bmax n s" "c < n" "c_pc s c = C_Load"
  shows "buffer s (use_i s) = item loops (length (got s))"
proof -
  have "c_pc s d \<noteq> C_Incr \<and> c_pc s d \<noteq> C_Wrap" if "d < n" for d
    using token_facts(6) [OF assms(2,4) that] assms(5) by auto
  then have "use_i s = length (got s) mod bmax" using assms(3) by (simp add: use_inv_def)
  moreover have "length (got s) < fills s" using token_facts(4) [OF assms(2,4)] assms(5) by simp
  ultimately show ?thesis using assms(1) by (simp add: buf_inv_def)
qed

lemma buf_inv_consumer:
  assumes st: "consumer bmax c s s'" and inv: "buf_inv bmax loops s" "token_inv bmax n s" "use_inv bmax n s" and c: "c < n"
  shows "buf_inv bmax loops s'"
  using st
proof cases
  case c_load
  then show ?thesis using inv(1) next_value [OF inv c] by (simp add: buf_inv_def)
qed (use inv(1) in \<open>simp_all add: buf_inv_def\<close>)

text \<open>A consumer that loaded \<open>-1\<close> stops; there are as many as markers were loaded.\<close>

definition end_inv :: "nat \<Rightarrow> nat \<Rightarrow> shop \<Rightarrow> bool" where
  "end_inv loops n s \<longleftrightarrow> cnt (\<lambda>x. x = -1) (tmp s) n = int (length (got s) - loops) \<and>
     (\<forall>c < n. c_pc s c = C_Wait_Full \<or> c_claimed (c_pc s c) \<longrightarrow> tmp s c \<noteq> -1) \<and>
     (\<forall>c < n. c_pc s c = C_Done \<longrightarrow> tmp s c = -1)"

lemma end_inv_consumer:
  assumes st: "consumer bmax c s s'" and inv: "end_inv loops n s" and c: "c < n"
    and v: "c_pc s c = C_Load \<Longrightarrow> buffer s (use_i s) = item loops (length (got s))"
  shows "end_inv loops n s'"
  using st
proof cases
  case c_load
  then have "tmp s c \<noteq> -1" using inv c by (simp add: end_inv_def)
  then have "cnt (\<lambda>x. x = -1) ((tmp s)(c := item loops (length (got s)))) n = int (Suc (length (got s)) - loops)"
    using inv c by (auto simp: end_inv_def item_def)
  then show ?thesis using c_load v inv by (auto simp: end_inv_def)
qed (use inv in \<open>auto simp: end_inv_def\<close>)

definition shop_inv :: "nat \<Rightarrow> nat \<Rightarrow> nat \<Rightarrow> shop \<Rightarrow> bool" where
  "shop_inv bmax loops n s \<longleftrightarrow> token_inv bmax n s \<and> prod_inv bmax loops n s \<and> use_inv bmax n s \<and> buf_inv bmax loops s \<and> end_inv loops n s"

lemma shop_inv_step:
  assumes st: "shop_step bmax loops n s s'" and inv: "shop_inv bmax loops n s" and b: "0 < bmax"
  shows "shop_inv bmax loops n s'"
proof -
  note i = inv [unfolded shop_inv_def]
  have "token_inv bmax n s'" "prod_inv bmax loops n s'" using token_inv_step prod_inv_step st i b by blast+
  moreover from st have "use_inv bmax n s' \<and> buf_inv bmax loops s' \<and> end_inv loops n s'"
  proof cases
    case prod
    then show ?thesis using i buf_inv_producer [OF prod] producer_cons [OF prod] by (simp add: use_inv_def end_inv_def)
  next
    case (cons c)
    then show ?thesis
      using i b use_inv_consumer [OF cons(2)] buf_inv_consumer [OF cons(2)] end_inv_consumer [OF cons(2)] next_value by blast
  qed
  ultimately show ?thesis by (simp add: shop_inv_def)
qed

lemma shop_run_inv:
  assumes "shop_run bmax loops n k s" "0 < bmax"
  shows "shop_inv bmax loops n s"
  using assms(1)
proof (induction rule: shop_run.induct)
  case start
  have z: "cnt P (\<lambda>_. x) n = (if P x then int n else 0)" for P :: "'b \<Rightarrow> bool" and x by (simp add: cnt_def)
  show ?case by (simp add: shop_inv_def token_inv_def prod_inv_def use_inv_def buf_inv_def end_inv_def shop_init_def z)
next
  case (step k s s')
  then show ?case using shop_inv_step assms(2) by blast
qed

lemma fills_bounds:
  assumes "shop_inv bmax loops n s"
  shows "length (got s) \<le> fills s" "fills s \<le> loops + n" "p_i s \<le> loops + n"
proof -
  have i: "token_inv bmax n s" "prod_inv bmax loops n s" using assms by (simp_all add: shop_inv_def)
  show "length (got s) \<le> fills s" by (rule token_facts(1) [OF i(1)])
  have "p_stored (p_pc s) \<Longrightarrow> p_pc s \<noteq> P_Loop \<and> p_pc s \<noteq> P_Done" by auto
  then show "fills s \<le> loops + n" "p_i s \<le> loops + n" using i(2) by (auto simp: prod_inv_def of_bool_def)
qed

section \<open>Progress\<close>

definition all_done :: "nat \<Rightarrow> shop \<Rightarrow> bool" where
  "all_done n s \<longleftrightarrow> p_pc s = P_Done \<and> (\<forall>c < n. c_pc s c = C_Done)"

lemma stuck_producer:
  assumes "\<And>s'. \<not> producer bmax loops n s s'"
  shows "p_pc s = P_Done \<or> p_pc s = P_Wait_Empty \<and> empty s = 0 \<or> p_pc s = P_Wait_Mutex \<and> mutex s = 0"
proof -
  have "empty s = 0" if "p_pc s = P_Wait_Empty" using assms p_empty [of s] that by (cases "sem_wait (empty s)") (simp, blast)
  moreover have "mutex s = 0" if "p_pc s = P_Wait_Mutex" using assms p_mutex [of s] that by (cases "sem_wait (mutex s)") (simp, blast)
  ultimately show ?thesis using assms by (cases "p_pc s"; cases "p_i s < loops + n") (auto dest: producer.intros)
qed

lemma stuck_consumer:
  assumes "\<And>s'. \<not> consumer bmax c s s'"
  shows "c_pc s c = C_Done \<or> c_pc s c = C_Wait_Full \<and> full s = 0 \<or> c_pc s c = C_Wait_Mutex \<and> mutex s = 0"
proof -
  have "full s = 0" if "c_pc s c = C_Wait_Full" using assms c_full [of s c] that by (cases "sem_wait (full s)") (simp, blast)
  moreover have "mutex s = 0" if "c_pc s c = C_Wait_Mutex" using assms c_mutex [of s c] that by (cases "sem_wait (mutex s)") (simp, blast)
  ultimately show ?thesis using assms by (cases "c_pc s c"; cases "tmp s c = -1") (auto dest: consumer.intros)
qed

lemma stuck_tokens:
  assumes inv: "shop_inv bmax loops n s" and stuck: "\<And>s'. \<not> shop_step bmax loops n s s'"
  shows "p_pc s = P_Done \<or> p_pc s = P_Wait_Empty \<and> empty s = 0" "c < n \<Longrightarrow> c_pc s c = C_Done \<or> c_pc s c = C_Wait_Full \<and> full s = 0"
    "int (full s) = int (fills s) - int (length (got s))" "int (empty s) + int (fills s) - int (length (got s)) = int bmax"
proof -
  have p: "p_pc s = P_Done \<or> p_pc s = P_Wait_Empty \<and> empty s = 0 \<or> p_pc s = P_Wait_Mutex \<and> mutex s = 0"
    using stuck_producer stuck shop_step.prod by blast
  have c: "c_pc s c = C_Done \<or> c_pc s c = C_Wait_Full \<and> full s = 0 \<or> c_pc s c = C_Wait_Mutex \<and> mutex s = 0" if "c < n" for c
    using stuck_consumer stuck shop_step.cons that by blast
  note t = inv [unfolded shop_inv_def token_inv_def]
  have "cnt c_crit (c_pc s) n = 0" using c by (fastforce simp: cnt_zero_iff)
  moreover have "\<not> p_crit (p_pc s)" using p by auto
  ultimately have m: "mutex s \<noteq> 0" using t by auto
  then show p': "p_pc s = P_Done \<or> p_pc s = P_Wait_Empty \<and> empty s = 0" using p by simp
  have c': "c_pc s c = C_Done \<or> c_pc s c = C_Wait_Full \<and> full s = 0" if "c < n" for c using c [OF that] m by simp
  then show "c < n \<Longrightarrow> c_pc s c = C_Done \<or> c_pc s c = C_Wait_Full \<and> full s = 0" .
  have "cnt c_claimed (c_pc s) n = 0" "cnt c_loaded (c_pc s) n = 0" using c' by (fastforce simp: cnt_zero_iff)+
  moreover have "\<not> p_stored (p_pc s)" "\<not> p_claimed (p_pc s)" using p' by auto
  ultimately show "int (full s) = int (fills s) - int (length (got s))" "int (empty s) + int (fills s) - int (length (got s)) = int bmax"
    using t by auto
qed

lemma stuck_done:
  assumes inv: "shop_inv bmax loops n s" and stuck: "\<And>s'. \<not> shop_step bmax loops n s s'" and b: "0 < bmax" "0 < n"
  shows "all_done n s \<and> got s = map (item loops) [0..<loops + n]"
proof -
  note t = stuck_tokens [OF inv stuck]
  note i = inv [unfolded shop_inv_def]
  have le: "length (got s) \<le> fills s" "fills s \<le> loops + n" using fills_bounds [OF inv] by simp_all
  have ended: "cnt (\<lambda>x. x = -1) (tmp s) n = int (length (got s) - loops)" using i by (simp add: end_inv_def)
  have done_end: "tmp s c = -1" if "c < n" "c_pc s c = C_Done" for c using i that by (simp add: end_inv_def)
  have all: "length (got s) = loops + n"
  proof (cases "full s = 0")
    case True
    then have "fills s = length (got s)" using t(3) by simp
    moreover from this have "p_pc s = P_Done" using t(1,4) b(1) by auto
    ultimately show ?thesis using i by (simp add: prod_inv_def)
  next
    case False
    then have "tmp s c = -1" if "c < n" for c using t(2) [OF that] done_end [OF that] by simp
    then have "int (length (got s) - loops) = int n" using ended cnt_all [of "\<lambda>x. x = -1" "tmp s" n] by simp
    then show ?thesis using le b(2) by linarith
  qed
  then have f: "fills s = length (got s)" using le by simp
  then have p: "p_pc s = P_Done" using t(1,4) b(1) by auto
  have "\<forall>c < n. tmp s c = -1" using ended all cnt_all [of "\<lambda>x. x = -1" "tmp s" n] by simp
  then have "c_pc s c = C_Done" if "c < n" for c using t(2) [OF that] i that by (auto simp: end_inv_def)
  moreover have "got s = map (item loops) [0..<length (got s)]" using i by (simp add: buf_inv_def)
  ultimately show ?thesis using p all by (simp add: all_done_def)
qed

section \<open>Termination\<close>

primrec p_rank :: "prod_pc \<Rightarrow> nat" where
  "p_rank P_Loop = 8" | "p_rank P_Wait_Empty = 7" | "p_rank P_Wait_Mutex = 6" | "p_rank P_Store = 5" | "p_rank P_Incr = 4"
| "p_rank P_Wrap = 3" | "p_rank P_Post_Mutex = 2" | "p_rank P_Post_Full = 1" | "p_rank P_Done = 0"

primrec c_rank :: "cons_pc \<Rightarrow> int" where
  "c_rank C_Incr = 8" | "c_rank C_Wrap = 7" | "c_rank C_Post_Mutex = 6" | "c_rank C_Post_Empty = 5" | "c_rank C_Loop = 4"
| "c_rank C_Wait_Full = 3" | "c_rank C_Wait_Mutex = 2" | "c_rank C_Load = 1" | "c_rank C_Done = 0"

definition shop_work :: "nat \<Rightarrow> nat \<Rightarrow> shop \<Rightarrow> int" where
  "shop_work loops n s = 8 * (int (loops + n) - int (p_i s)) + int (p_rank (p_pc s)) +
     8 * (int (loops + n) - int (length (got s))) + (\<Sum>c < n. c_rank (c_pc s c))"

lemma shop_work_step:
  assumes "shop_step bmax loops n s s'"
  shows "shop_work loops n s' < shop_work loops n s"
  using assms
proof cases
  case prod
  then show ?thesis using producer_cons [OF prod] by cases (auto simp: shop_work_def)
next
  case (cons c)
  have "(\<Sum>d < n. c_rank (c_pc s' d)) = (\<Sum>d < n. c_rank (c_pc s d)) - c_rank (c_pc s c) + c_rank (c_pc s' c)"
    using cons by (intro sum_one) (auto elim: consumer.cases)
  then show ?thesis using cons(2) consumer_prod [OF cons(2)] by (auto simp: shop_work_def elim!: consumer.cases)
qed

lemma shop_run_bound:
  assumes "shop_run bmax loops n k s" "0 < bmax"
  shows "int k + shop_work loops n s \<le> 16 * int (loops + n) + 8 + 4 * int n" "0 \<le> shop_work loops n s"
proof -
  show "int k + shop_work loops n s \<le> 16 * int (loops + n) + 8 + 4 * int n"
    using assms(1)
  proof (induction rule: shop_run.induct)
    case start
    show ?case by (simp add: shop_work_def shop_init_def)
  next
    case (step k s s')
    then show ?case using shop_work_step by fastforce
  qed
  have "length (got s) \<le> fills s" "fills s \<le> loops + n" "p_i s \<le> loops + n" using fills_bounds [OF shop_run_inv [OF assms]] by simp_all
  moreover have "0 \<le> c_rank x" for x by (cases x) simp_all
  then have "0 \<le> (\<Sum>c < n. c_rank (c_pc s c))" by (simp add: sum_nonneg)
  ultimately show "0 \<le> shop_work loops n s" by (simp add: shop_work_def)
qed

interpretation shop_program: bounded_program "shop_run (Suc b) loops n" "shop_step (Suc b) loops n" "shop_init (Suc b)" "16 * (loops + n) + 8 + 4 * n"
  for b loops n
proof
  show "shop_run (Suc b) loops n 0 (shop_init (Suc b))" by (rule shop_run.start)
  show "shop_run (Suc b) loops n (Suc k) s'" if "shop_run (Suc b) loops n k s" "shop_step (Suc b) loops n s s'" for k s s'
    using that by (rule shop_run.step)
  show "k \<le> 16 * (loops + n) + 8 + 4 * n" if "shop_run (Suc b) loops n k s" for k s using shop_run_bound [OF that] by simp
qed

end
