(* ===== verification/Dining.thy ===== *)
theory Dining
  imports Sema
begin

text \<open>
  The dining philosophers (\<open>threads-sema/dining_philosophers_deadlock.c\<close> and
  \<open>dining_philosophers_no_deadlock.c\<close>). The programs differ in the order in which a philosopher takes
  the forks; the forks are semaphores.
\<close>

definition left :: "nat \<Rightarrow> nat" where "left p = p"

definition right :: "nat \<Rightarrow> nat" where "right p = (p + 1) mod 5"

text \<open>The forks in the order in which \<open>get_forks\<close> waits for them.\<close>

definition get_forks_naive :: "nat \<Rightarrow> nat \<times> nat" where
  "get_forks_naive p = (left p, right p)"

definition get_forks :: "nat \<Rightarrow> nat \<times> nat" where
  "get_forks p = (if p = 4 then (right p, left p) else (left p, right p))"

datatype phil_pc = Loop | Wait_First | Wait_Second | Eat | Put_Left | Put_Right | Finished

record table =
  forks :: "nat \<Rightarrow> nat"
  rounds :: "nat \<Rightarrow> nat"
  place :: "nat \<Rightarrow> phil_pc"

definition table_init :: table where
  "table_init = \<lparr>forks = (\<lambda>_. 1), rounds = (\<lambda>_. 0), place = (\<lambda>_. Loop)\<rparr>"

definition set_fork :: "nat \<Rightarrow> nat \<Rightarrow> table \<Rightarrow> table" where
  "set_fork f v t = t\<lparr>forks := (forks t)(f := v)\<rparr>"

definition move :: "nat \<Rightarrow> phil_pc \<Rightarrow> table \<Rightarrow> table" where
  "move p x t = t\<lparr>place := (place t)(p := x)\<rparr>"

inductive philosopher :: "(nat \<Rightarrow> nat \<times> nat) \<Rightarrow> nat \<Rightarrow> nat \<Rightarrow> table \<Rightarrow> table \<Rightarrow> bool" for gf N p t where
  enter: "\<lbrakk>place t p = Loop; rounds t p < N\<rbrakk> \<Longrightarrow> philosopher gf N p t (move p Wait_First t)"
| leave: "\<lbrakk>place t p = Loop; \<not> rounds t p < N\<rbrakk> \<Longrightarrow> philosopher gf N p t (move p Finished t)"
| first: "\<lbrakk>place t p = Wait_First; sem_wait (forks t (fst (gf p))) = Some v\<rbrakk> \<Longrightarrow>
    philosopher gf N p t (move p Wait_Second (set_fork (fst (gf p)) v t))"
| second: "\<lbrakk>place t p = Wait_Second; sem_wait (forks t (snd (gf p))) = Some v\<rbrakk> \<Longrightarrow>
    philosopher gf N p t (move p Eat (set_fork (snd (gf p)) v t))"
| eat: "place t p = Eat \<Longrightarrow> philosopher gf N p t (move p Put_Left t)"
| put_left: "place t p = Put_Left \<Longrightarrow>
    philosopher gf N p t (move p Put_Right (set_fork (left p) (sem_post (forks t (left p))) t))"
| put_right: "place t p = Put_Right \<Longrightarrow>
    philosopher gf N p t (move p Loop (set_fork (right p) (sem_post (forks t (right p))) (t\<lparr>rounds := (rounds t)(p := Suc (rounds t p))\<rparr>)))"

inductive dine :: "(nat \<Rightarrow> nat \<times> nat) \<Rightarrow> nat \<Rightarrow> nat \<Rightarrow> table \<Rightarrow> bool" for gf N where
  start: "dine gf N 0 table_init"
| step: "\<lbrakk>dine gf N k t; p < 5; philosopher gf N p t t'\<rbrakk> \<Longrightarrow> dine gf N (Suc k) t'"

definition table_step :: "(nat \<Rightarrow> nat \<times> nat) \<Rightarrow> nat \<Rightarrow> table \<Rightarrow> table \<Rightarrow> bool" where
  "table_step gf N t t' \<longleftrightarrow> (\<exists>p < 5. philosopher gf N p t t')"

definition stuck :: "(nat \<Rightarrow> nat \<times> nat) \<Rightarrow> nat \<Rightarrow> table \<Rightarrow> bool" where
  "stuck gf N t \<longleftrightarrow> (\<forall>t'. \<not> table_step gf N t t')"

section \<open>Who has which fork\<close>

definition has_fork :: "(nat \<Rightarrow> nat \<times> nat) \<Rightarrow> nat \<Rightarrow> table \<Rightarrow> nat \<Rightarrow> bool" where
  "has_fork gf f t p \<longleftrightarrow>
     (case place t p of Wait_Second \<Rightarrow> f = fst (gf p) | Eat \<Rightarrow> f = left p \<or> f = right p | Put_Left \<Rightarrow> f = left p \<or> f = right p
      | Put_Right \<Rightarrow> f = right p | _ \<Rightarrow> False)"

definition both_forks :: "(nat \<Rightarrow> nat \<times> nat) \<Rightarrow> bool" where
  "both_forks gf \<longleftrightarrow> (\<forall>p. gf p = (left p, right p) \<or> gf p = (right p, left p))"

definition fork_inv :: "(nat \<Rightarrow> nat \<times> nat) \<Rightarrow> table \<Rightarrow> bool" where
  "fork_inv gf t \<longleftrightarrow> (\<forall>f < 5. int (forks t f) + (\<Sum>p < 5. of_bool (has_fork gf f t p)) = 1)"

lemma move_simps [simp]:
  "forks (move p x t) = forks t" "rounds (move p x t) = rounds t" "place (move p x t) = (place t)(p := x)"
  "forks (set_fork f v t) = (forks t)(f := v)" "rounds (set_fork f v t) = rounds t" "place (set_fork f v t) = place t"
  by (simp_all add: move_def set_fork_def)

lemma left_right: "p < 5 \<Longrightarrow> left p \<noteq> right p"
  by (simp add: left_def right_def mod_Suc)

lemma philosopher_other: "\<lbrakk>philosopher gf N p t t'; q \<noteq> p\<rbrakk> \<Longrightarrow> place t' q = place t q \<and> rounds t' q = rounds t q"
  by (auto elim: philosopher.cases)

text \<open>A step moves tokens between a fork and the philosopher.\<close>

lemma fork_token:
  assumes st: "philosopher gf N p t t'" and p: "p < 5" and gf: "both_forks gf"
  shows "int (forks t' f) + of_bool (has_fork gf f t' p) = int (forks t f) + of_bool (has_fork gf f t p)"
  using st
proof cases
  case (second v)
  have "gf p = (left p, right p) \<or> gf p = (right p, left p)" using gf by (simp add: both_forks_def)
  then have "f = left p \<or> f = right p \<longleftrightarrow> f = fst (gf p) \<or> f = snd (gf p)" "fst (gf p) \<noteq> snd (gf p)"
    using left_right [OF p] by auto
  then show ?thesis using second by (auto simp: has_fork_def sem_wait_def split: if_splits)
next
  case put_left
  then show ?thesis using left_right [OF p] by (auto simp: has_fork_def sem_post_def)
qed (auto simp: has_fork_def sem_wait_def sem_post_def split: if_splits)

lemma fork_inv_step:
  assumes st: "philosopher gf N p t t'" and inv: "fork_inv gf t" and p: "p < 5" and gf: "both_forks gf"
  shows "fork_inv gf t'"
  unfolding fork_inv_def
proof (intro allI impI)
  fix f :: nat
  assume "f < 5"
  then have "int (forks t f) + (\<Sum>q < 5. of_bool (has_fork gf f t q)) = 1" using inv by (simp add: fork_inv_def)
  moreover have "(\<Sum>q < 5. of_bool (has_fork gf f t' q)) =
      (\<Sum>q < 5. of_bool (has_fork gf f t q)) - of_bool (has_fork gf f t p) + (of_bool (has_fork gf f t' p) :: int)"
    using philosopher_other [OF st] by (intro sum_one [OF p]) (simp add: has_fork_def)
  ultimately show "int (forks t' f) + (\<Sum>q < 5. of_bool (has_fork gf f t' q)) = 1"
    using fork_token [OF st p gf, of f] by linarith
qed

lemma dine_inv: "\<lbrakk>dine gf N k t; both_forks gf\<rbrakk> \<Longrightarrow> fork_inv gf t"
proof (induction rule: dine.induct)
  case start
  show ?case by (simp add: fork_inv_def table_init_def has_fork_def)
next
  case (step k t p t')
  then show ?case using fork_inv_step by blast
qed

text \<open>A fork is with at most one philosopher, and with one exactly when its semaphore is 0.\<close>

lemma fork_holder:
  assumes "fork_inv gf t" "f < 5"
  shows "\<lbrakk>has_fork gf f t p; has_fork gf f t q; p < 5; q < 5\<rbrakk> \<Longrightarrow> p = q"
    "forks t f = 0 \<longleftrightarrow> (\<exists>p < 5. has_fork gf f t p)"
proof -
  let ?c = "cnt (\<lambda>p. has_fork gf f t p) (\<lambda>p. p) 5"
  have e: "int (forks t f) + ?c = 1" using assms by (simp add: fork_inv_def cnt_def)
  show "p = q" if "has_fork gf f t p" "has_fork gf f t q" "p < 5" "q < 5"
    using cnt_two [of p 5 q "has_fork gf f t" "\<lambda>p. p"] that e by fastforce
  show "forks t f = 0 \<longleftrightarrow> (\<exists>p < 5. has_fork gf f t p)"
  proof -
    have "forks t f = 0 \<longleftrightarrow> ?c \<noteq> 0" using e cnt_nonneg [of "has_fork gf f t" "\<lambda>p. p" 5] by linarith
    then show ?thesis using cnt_zero_iff [of "has_fork gf f t" "\<lambda>p. p" 5] by auto
  qed
qed

section \<open>Every meal ends\<close>

primrec rank :: "phil_pc \<Rightarrow> nat" where
  "rank Loop = 6" | "rank Wait_First = 5" | "rank Wait_Second = 4" | "rank Eat = 3" | "rank Put_Left = 2"
| "rank Put_Right = 1" | "rank Finished = 0"

definition work :: "nat \<Rightarrow> table \<Rightarrow> nat \<Rightarrow> nat" where
  "work N t p = 6 * (N - rounds t p) + rank (place t p)"

text \<open>The round in progress is one of the \<open>N\<close> rounds.\<close>

definition round_inv :: "nat \<Rightarrow> table \<Rightarrow> bool" where
  "round_inv N t \<longleftrightarrow> (\<forall>p. rounds t p \<le> N \<and> (place t p \<noteq> Loop \<and> place t p \<noteq> Finished \<longrightarrow> rounds t p < N) \<and>
     (place t p = Finished \<longrightarrow> rounds t p = N))"

lemma round_inv_step: "\<lbrakk>philosopher gf N p t t'; round_inv N t\<rbrakk> \<Longrightarrow> round_inv N t'"
  by (erule philosopher.cases) (auto simp: round_inv_def Suc_le_eq dest: spec [of _ p] intro: le_antisym)

lemma work_step:
  assumes "philosopher gf N p t t'" "p < 5" "round_inv N t"
  shows "(\<Sum>q < 5. work N t' q) < (\<Sum>q < 5. work N t q)"
proof (rule sum_strict_mono_ex1)
  have lt: "work N t' p < work N t p"
    using assms(1,3) by cases (auto simp: work_def round_inv_def dest!: spec [of _ p])
  then show "\<exists>q \<in> {..<5}. work N t' q < work N t q" using assms(2) by auto
  have "work N t' q \<le> work N t q" for q
    using lt philosopher_other [OF assms(1), of q] by (cases "q = p") (simp_all add: work_def)
  then show "\<forall>q \<in> {..<5}. work N t' q \<le> work N t q" by blast
qed simp

lemma dine_bound: "dine gf N k t \<Longrightarrow> round_inv N t \<and> k + (\<Sum>p < 5. work N t p) \<le> 30 * (N + 1)"
proof (induction rule: dine.induct)
  case start
  show ?case by (simp add: round_inv_def table_init_def work_def)
next
  case (step k t p t')
  then show ?case using work_step [OF step.hyps(3,2)] round_inv_step [OF step.hyps(3)] by linarith
qed

interpretation dinner: bounded_program "dine gf N" "table_step gf N" table_init "30 * (N + 1)" for gf N
proof
  show "dine gf N 0 table_init" by (rule dine.start)
  show "dine gf N (Suc k) t'" if "dine gf N k t" "table_step gf N t t'" for k t t'
    using that dine.step by (auto simp: table_step_def)
  show "k \<le> 30 * (N + 1)" if "dine gf N k t" for k t using dine_bound [OF that] by simp
qed

section \<open>Deadlock\<close>

lemma stuck_places:
  assumes "stuck gf N t" "p < 5"
  shows "place t p = Finished \<or> place t p = Wait_First \<and> forks t (fst (gf p)) = 0 \<or>
    place t p = Wait_Second \<and> forks t (snd (gf p)) = 0"
proof -
  have n: "\<not> philosopher gf N p t t'" for t' using assms by (auto simp: stuck_def table_step_def)
  then have "sem_wait (forks t (fst (gf p))) = None" if "place t p = Wait_First"
    using that philosopher.first [of t p gf] by (cases "sem_wait (forks t (fst (gf p)))") auto
  moreover have "sem_wait (forks t (snd (gf p))) = None" if "place t p = Wait_Second"
    using n that philosopher.second [of t p gf] by (cases "sem_wait (forks t (snd (gf p)))") auto
  ultimately show ?thesis using n by (cases "place t p"; cases "rounds t p < N") (auto dest: philosopher.intros simp: sem_wait_def split: if_splits)
qed

text \<open>\<open>get_forks\<close> takes the fork with the smaller number first.\<close>

lemma get_forks_ordered: "p < 5 \<Longrightarrow> fst (get_forks p) < snd (get_forks p) \<and> snd (get_forks p) < 5"
  by (auto simp: get_forks_def left_def right_def mod_Suc)

lemma get_forks_both: "both_forks get_forks" "both_forks get_forks_naive"
  by (auto simp: both_forks_def get_forks_def get_forks_naive_def)

lemma no_one_waits_for_second:
  assumes inv: "fork_inv get_forks t" and stuck: "stuck get_forks N t"
  shows "p < 5 \<Longrightarrow> place t p \<noteq> Wait_Second"
proof (induction "5 - snd (get_forks p)" arbitrary: p rule: less_induct)
  case less
  show ?case
  proof
    assume w: "place t p = Wait_Second"
    have o: "snd (get_forks p) < 5" using get_forks_ordered [OF less.prems] by simp
    have "forks t (snd (get_forks p)) = 0" using stuck_places [OF stuck less.prems] w by simp
    then obtain q where q: "q < 5" "has_fork get_forks (snd (get_forks p)) t q" using fork_holder(2) [OF inv o] by blast
    then have wq: "place t q = Wait_Second" "snd (get_forks p) = fst (get_forks q)"
      using stuck_places [OF stuck q(1)] by (auto simp: has_fork_def)
    then have "5 - snd (get_forks q) < 5 - snd (get_forks p)" using get_forks_ordered [OF q(1)] o by linarith
    then show False using less.hyps q(1) wq(1) by blast
  qed
qed

lemma stuck_finished:
  assumes "dine get_forks N k t" "stuck get_forks N t" "p < 5"
  shows "place t p = Finished"
proof -
  note inv = dine_inv [OF assms(1) get_forks_both(1)]
  have "\<not> has_fork get_forks f t q" if "q < 5" for f q
    using stuck_places [OF assms(2) that] no_one_waits_for_second [OF inv assms(2) that] by (auto simp: has_fork_def)
  then have "forks t f \<noteq> 0" if "f < 5" for f using fork_holder(2) [OF inv that] by blast
  then show ?thesis
    using stuck_places [OF assms(2,3)] no_one_waits_for_second [OF inv assms(2,3)] get_forks_ordered [OF assms(3)] by (metis order_less_trans)
qed

text \<open>Two philosophers who eat do not share a fork.\<close>

lemma neighbours_do_not_eat:
  assumes "dine gf N k t" "both_forks gf" "p < 5" "place t p = Eat"
  shows "place t (right p) \<noteq> Eat"
proof
  assume e: "place t (right p) = Eat"
  have r: "right p < 5" "right p \<noteq> p" using assms(3) by (auto simp: right_def mod_Suc)
  have "has_fork gf (right p) t p" "has_fork gf (right p) t (right p)" using assms(4) e by (simp_all add: has_fork_def left_def)
  then show False using fork_holder(1) [OF dine_inv [OF assms(1,2)] r(1)] assms(3) r by blast
qed

text \<open>With \<open>get_forks_naive\<close> every philosopher may take the left fork before any takes the right one.\<close>

definition all_waiting :: "nat \<Rightarrow> table" where
  "all_waiting k = \<lparr>forks = (\<lambda>f. if f < k then 0 else 1), rounds = (\<lambda>_. 0), place = (\<lambda>p. if p < k then Wait_Second else Loop)\<rparr>"

lemma naive_all_wait: "0 < N \<Longrightarrow> k \<le> 5 \<Longrightarrow> dine get_forks_naive N (2 * k) (all_waiting k)"
proof (induction k)
  case 0
  have "all_waiting 0 = table_init" by (simp add: all_waiting_def table_init_def)
  then show ?case using dine.start [of get_forks_naive N] by simp
next
  case (Suc k)
  let ?t = "all_waiting k"
  have "philosopher get_forks_naive N k ?t (move k Wait_First ?t)" using Suc.prems by (intro philosopher.enter) (simp_all add: all_waiting_def)
  moreover have "dine get_forks_naive N (2 * k) ?t" "k < 5" using Suc by simp_all
  ultimately have 1: "dine get_forks_naive N (Suc (2 * k)) (move k Wait_First ?t)" using dine.step by blast
  have "philosopher get_forks_naive N k (move k Wait_First ?t) (move k Wait_Second (set_fork (fst (get_forks_naive k)) 0 (move k Wait_First ?t)))"
    by (intro philosopher.first) (simp_all add: all_waiting_def get_forks_naive_def left_def sem_wait_def)
  moreover have "move k Wait_Second (set_fork (fst (get_forks_naive k)) 0 (move k Wait_First ?t)) = all_waiting (Suc k)"
    by (auto simp: all_waiting_def move_def set_fork_def get_forks_naive_def left_def fun_eq_iff less_Suc_eq)
  ultimately show ?case using dine.step [OF 1, of k] Suc.prems by simp
qed

lemma naive_deadlock: "0 < N \<Longrightarrow> dine get_forks_naive N 10 (all_waiting 5) \<and> stuck get_forks_naive N (all_waiting 5)"
  using naive_all_wait [of N 5]
  by (auto simp: stuck_def table_step_def elim!: philosopher.cases)
    (auto simp: all_waiting_def get_forks_naive_def right_def sem_wait_def split: if_splits)

end
