(* ===== verification/Rwlock.thy ===== *)
theory Rwlock
  imports Sema
begin

text \<open>
  The readers-writer lock of \<open>threads-sema/rwlock.c\<close> with \<open>n\<close> readers and \<open>m\<close> writers that run the loops
  of that program. The increment of \<open>counter\<close> is a load and a store. \<open>group\<close> records whether the readers
  have taken \<open>writelock\<close>, and \<open>writes\<close> how many increments were made.
\<close>

datatype reader_pc = R_Loop | R_Wait_Lock | R_Incr | R_Test | R_Wait_Write | R_Post_Lock | R_Read | R_Rel_Lock | R_Decr | R_Test_Last | R_Post_Write | R_Rel_Post | R_Done

datatype writer_pc = W_Loop | W_Wait | W_Load | W_Store | W_Post | W_Done

record rwlock =
  lock :: nat
  writelock :: nat
  readers :: int
  counter :: int
  local :: "nat \<Rightarrow> int"
  wtmp :: "nat \<Rightarrow> int"
  r_pc :: "nat \<Rightarrow> reader_pc"
  r_i :: "nat \<Rightarrow> nat"
  w_pc :: "nat \<Rightarrow> writer_pc"
  w_i :: "nat \<Rightarrow> nat"
  group :: bool
  writes :: nat

definition rwlock_init :: rwlock where
  "rwlock_init = \<lparr>lock = 1, writelock = 1, readers = 0, counter = 0, local = (\<lambda>_. 0), wtmp = (\<lambda>_. 0), r_pc = (\<lambda>_. R_Loop),
     r_i = (\<lambda>_. 0), w_pc = (\<lambda>_. W_Loop), w_i = (\<lambda>_. 0), group = False, writes = 0\<rparr>"

definition r_goto :: "nat \<Rightarrow> reader_pc \<Rightarrow> rwlock \<Rightarrow> rwlock" where
  "r_goto i x s = s\<lparr>r_pc := (r_pc s)(i := x)\<rparr>"

definition w_goto :: "nat \<Rightarrow> writer_pc \<Rightarrow> rwlock \<Rightarrow> rwlock" where
  "w_goto j x s = s\<lparr>w_pc := (w_pc s)(j := x)\<rparr>"

inductive rwlock_acquire_readlock :: "nat \<Rightarrow> rwlock \<Rightarrow> rwlock \<Rightarrow> bool" for i s where
  ar_lock: "\<lbrakk>r_pc s i = R_Wait_Lock; sem_wait (lock s) = Some v\<rbrakk> \<Longrightarrow> rwlock_acquire_readlock i s (r_goto i R_Incr (s\<lparr>lock := v\<rparr>))"
| ar_incr: "r_pc s i = R_Incr \<Longrightarrow> rwlock_acquire_readlock i s (r_goto i R_Test (s\<lparr>readers := readers s + 1\<rparr>))"
| ar_first: "\<lbrakk>r_pc s i = R_Test; readers s = 1\<rbrakk> \<Longrightarrow> rwlock_acquire_readlock i s (r_goto i R_Wait_Write s)"
| ar_later: "\<lbrakk>r_pc s i = R_Test; readers s \<noteq> 1\<rbrakk> \<Longrightarrow> rwlock_acquire_readlock i s (r_goto i R_Post_Lock s)"
| ar_write: "\<lbrakk>r_pc s i = R_Wait_Write; sem_wait (writelock s) = Some v\<rbrakk> \<Longrightarrow>
    rwlock_acquire_readlock i s (r_goto i R_Post_Lock (s\<lparr>writelock := v, group := True\<rparr>))"
| ar_unlock: "r_pc s i = R_Post_Lock \<Longrightarrow> rwlock_acquire_readlock i s (r_goto i R_Read (s\<lparr>lock := sem_post (lock s)\<rparr>))"

inductive rwlock_release_readlock :: "nat \<Rightarrow> rwlock \<Rightarrow> rwlock \<Rightarrow> bool" for i s where
  rr_lock: "\<lbrakk>r_pc s i = R_Rel_Lock; sem_wait (lock s) = Some v\<rbrakk> \<Longrightarrow> rwlock_release_readlock i s (r_goto i R_Decr (s\<lparr>lock := v\<rparr>))"
| rr_decr: "r_pc s i = R_Decr \<Longrightarrow> rwlock_release_readlock i s (r_goto i R_Test_Last (s\<lparr>readers := readers s - 1\<rparr>))"
| rr_last: "\<lbrakk>r_pc s i = R_Test_Last; readers s = 0\<rbrakk> \<Longrightarrow> rwlock_release_readlock i s (r_goto i R_Post_Write s)"
| rr_others: "\<lbrakk>r_pc s i = R_Test_Last; readers s \<noteq> 0\<rbrakk> \<Longrightarrow> rwlock_release_readlock i s (r_goto i R_Rel_Post s)"
| rr_write: "r_pc s i = R_Post_Write \<Longrightarrow>
    rwlock_release_readlock i s (r_goto i R_Rel_Post (s\<lparr>writelock := sem_post (writelock s), group := False\<rparr>))"
| rr_unlock: "r_pc s i = R_Rel_Post \<Longrightarrow>
    rwlock_release_readlock i s (r_goto i R_Loop (s\<lparr>lock := sem_post (lock s), r_i := (r_i s)(i := Suc (r_i s i))\<rparr>))"

inductive reader :: "nat \<Rightarrow> nat \<Rightarrow> rwlock \<Rightarrow> rwlock \<Rightarrow> bool" for read_loops i s where
  r_enter: "\<lbrakk>r_pc s i = R_Loop; r_i s i < read_loops\<rbrakk> \<Longrightarrow> reader read_loops i s (r_goto i R_Wait_Lock s)"
| r_leave: "\<lbrakk>r_pc s i = R_Loop; \<not> r_i s i < read_loops\<rbrakk> \<Longrightarrow> reader read_loops i s (r_goto i R_Done s)"
| r_acquire: "rwlock_acquire_readlock i s s' \<Longrightarrow> reader read_loops i s s'"
| r_read: "r_pc s i = R_Read \<Longrightarrow> reader read_loops i s (r_goto i R_Rel_Lock (s\<lparr>local := (local s)(i := counter s)\<rparr>))"
| r_release: "rwlock_release_readlock i s s' \<Longrightarrow> reader read_loops i s s'"

text \<open>\<open>rwlock_acquire_writelock\<close> and \<open>rwlock_release_writelock\<close> are one step each.\<close>

inductive writer :: "nat \<Rightarrow> nat \<Rightarrow> rwlock \<Rightarrow> rwlock \<Rightarrow> bool" for write_loops j s where
  w_enter: "\<lbrakk>w_pc s j = W_Loop; w_i s j < write_loops\<rbrakk> \<Longrightarrow> writer write_loops j s (w_goto j W_Wait s)"
| w_leave: "\<lbrakk>w_pc s j = W_Loop; \<not> w_i s j < write_loops\<rbrakk> \<Longrightarrow> writer write_loops j s (w_goto j W_Done s)"
| w_acquire: "\<lbrakk>w_pc s j = W_Wait; sem_wait (writelock s) = Some v\<rbrakk> \<Longrightarrow> writer write_loops j s (w_goto j W_Load (s\<lparr>writelock := v\<rparr>))"
| w_load: "w_pc s j = W_Load \<Longrightarrow> writer write_loops j s (w_goto j W_Store (s\<lparr>wtmp := (wtmp s)(j := counter s)\<rparr>))"
| w_store: "w_pc s j = W_Store \<Longrightarrow> writer write_loops j s (w_goto j W_Post (s\<lparr>counter := wtmp s j + 1, writes := Suc (writes s)\<rparr>))"
| w_release: "w_pc s j = W_Post \<Longrightarrow>
    writer write_loops j s (w_goto j W_Loop (s\<lparr>writelock := sem_post (writelock s), w_i := (w_i s)(j := Suc (w_i s j))\<rparr>))"

inductive rw_step :: "nat \<Rightarrow> nat \<Rightarrow> nat \<Rightarrow> nat \<Rightarrow> rwlock \<Rightarrow> rwlock \<Rightarrow> bool" for n m rl wl s where
  rw_reader: "\<lbrakk>i < n; reader rl i s s'\<rbrakk> \<Longrightarrow> rw_step n m rl wl s s'"
| rw_writer: "\<lbrakk>j < m; writer wl j s s'\<rbrakk> \<Longrightarrow> rw_step n m rl wl s s'"

inductive rw_run :: "nat \<Rightarrow> nat \<Rightarrow> nat \<Rightarrow> nat \<Rightarrow> nat \<Rightarrow> rwlock \<Rightarrow> bool" for n m rl wl where
  start: "rw_run n m rl wl 0 rwlock_init"
| step: "\<lbrakk>rw_run n m rl wl k s; rw_step n m rl wl s s'\<rbrakk> \<Longrightarrow> rw_run n m rl wl (Suc k) s'"

lemma rw_goto_simps [simp]:
  "lock (r_goto i x s) = lock s" "writelock (r_goto i x s) = writelock s" "readers (r_goto i x s) = readers s" "counter (r_goto i x s) = counter s" "local (r_goto i x s) = local s"
  "wtmp (r_goto i x s) = wtmp s" "r_i (r_goto i x s) = r_i s" "w_i (r_goto i x s) = w_i s" "group (r_goto i x s) = group s" "writes (r_goto i x s) = writes s"
  "w_pc (r_goto i x s) = w_pc s" "r_pc (r_goto i x s) = (r_pc s)(i := x)"
  "lock (w_goto j y s) = lock s" "writelock (w_goto j y s) = writelock s" "readers (w_goto j y s) = readers s" "counter (w_goto j y s) = counter s" "local (w_goto j y s) = local s"
  "wtmp (w_goto j y s) = wtmp s" "r_i (w_goto j y s) = r_i s" "w_i (w_goto j y s) = w_i s" "group (w_goto j y s) = group s" "writes (w_goto j y s) = writes s"
  "r_pc (w_goto j y s) = r_pc s" "w_pc (w_goto j y s) = (w_pc s)(j := y)"
  by (simp_all add: r_goto_def w_goto_def)

section \<open>Tokens\<close>

primrec in_lock :: "reader_pc \<Rightarrow> bool" where
  "in_lock R_Loop = False" | "in_lock R_Wait_Lock = False" | "in_lock R_Incr = True" | "in_lock R_Test = True" | "in_lock R_Wait_Write = True"
| "in_lock R_Post_Lock = True" | "in_lock R_Read = False" | "in_lock R_Rel_Lock = False" | "in_lock R_Decr = True" | "in_lock R_Test_Last = True"
| "in_lock R_Post_Write = True" | "in_lock R_Rel_Post = True" | "in_lock R_Done = False"

primrec counted :: "reader_pc \<Rightarrow> bool" where
  "counted R_Loop = False" | "counted R_Wait_Lock = False" | "counted R_Incr = False" | "counted R_Test = True" | "counted R_Wait_Write = True"
| "counted R_Post_Lock = True" | "counted R_Read = True" | "counted R_Rel_Lock = True" | "counted R_Decr = True" | "counted R_Test_Last = False"
| "counted R_Post_Write = False" | "counted R_Rel_Post = False" | "counted R_Done = False"

primrec w_crit :: "writer_pc \<Rightarrow> bool" where
  "w_crit W_Loop = False" | "w_crit W_Wait = False" | "w_crit W_Load = True" | "w_crit W_Store = True" | "w_crit W_Post = True"
| "w_crit W_Done = False"

definition rw_tokens :: "nat \<Rightarrow> nat \<Rightarrow> rwlock \<Rightarrow> bool" where
  "rw_tokens n m s \<longleftrightarrow> int (lock s) + cnt in_lock (r_pc s) n = 1 \<and> readers s = cnt counted (r_pc s) n \<and>
     int (writelock s) + cnt w_crit (w_pc s) m + of_bool (group s) = 1"

text \<open>What the reader that holds \<open>lock\<close> knows of the others, and what holds while nobody has it.\<close>

primrec know :: "reader_pc \<Rightarrow> bool \<Rightarrow> int \<Rightarrow> bool" where
  "know R_Loop g r = True" | "know R_Wait_Lock g r = True" | "know R_Incr g r = (g \<longleftrightarrow> r \<noteq> 0)" | "know R_Test g r = (g \<longleftrightarrow> r \<noteq> 1)"
| "know R_Wait_Write g r = (\<not> g \<and> r = 1)" | "know R_Post_Lock g r = g" | "know R_Read g r = g" | "know R_Rel_Lock g r = g"
| "know R_Decr g r = g" | "know R_Test_Last g r = g" | "know R_Post_Write g r = (g \<and> r = 0)" | "know R_Rel_Post g r = (g \<longleftrightarrow> r \<noteq> 0)"
| "know R_Done g r = True"

definition group_inv :: "nat \<Rightarrow> rwlock \<Rightarrow> bool" where
  "group_inv n s \<longleftrightarrow> (\<forall>i < n. know (r_pc s i) (group s) (readers s)) \<and> (lock s \<noteq> 0 \<longrightarrow> (group s \<longleftrightarrow> readers s \<noteq> 0))"

lemma rw_tokens_step:
  assumes "rw_step n m rl wl s s'" "rw_tokens n m s" "group_inv n s"
  shows "rw_tokens n m s'"
  using assms(1)
proof cases
  case (rw_reader i)
  have g: "r_pc s i = R_Post_Write \<longrightarrow> group s" "r_pc s i = R_Wait_Write \<longrightarrow> \<not> group s"
    using assms(3) rw_reader(1) by (auto simp: group_inv_def)
  from rw_reader(2) show ?thesis using rw_reader(1) assms(2) g
    by (auto simp: rw_tokens_def sem_wait_def sem_post_def split: if_splits
        elim!: reader.cases rwlock_acquire_readlock.cases rwlock_release_readlock.cases)
next
  case (rw_writer j)
  from rw_writer(2) show ?thesis using rw_writer(1) assms(2)
    by cases (auto simp: rw_tokens_def sem_wait_def sem_post_def split: if_splits)
qed

lemma rw_facts:
  assumes "rw_tokens n m s"
  shows "\<lbrakk>i < n; in_lock (r_pc s i)\<rbrakk> \<Longrightarrow> lock s = 0"
    "\<lbrakk>i < n; j < n; in_lock (r_pc s i); in_lock (r_pc s j)\<rbrakk> \<Longrightarrow> i = j"
    "\<lbrakk>i < n; counted (r_pc s i)\<rbrakk> \<Longrightarrow> readers s \<noteq> 0"
    "\<lbrakk>j < m; w_crit (w_pc s j)\<rbrakk> \<Longrightarrow> \<not> group s \<and> writelock s = 0"
    "\<lbrakk>j < m; k < m; w_crit (w_pc s j); w_crit (w_pc s k)\<rbrakk> \<Longrightarrow> j = k"
    "lock s = 0 \<Longrightarrow> \<exists>i < n. in_lock (r_pc s i)"
    "\<lbrakk>writelock s = 0; \<not> group s\<rbrakk> \<Longrightarrow> \<exists>j < m. w_crit (w_pc s j)"
    "readers s \<noteq> 0 \<Longrightarrow> \<exists>i < n. counted (r_pc s i)"
proof -
  note t = assms [unfolded rw_tokens_def]
  have b: "0 \<le> (of_bool x :: int)" for x by simp
  show "lock s = 0" if "i < n" "in_lock (r_pc s i)" using t cnt_pos [OF that(1), of in_lock "r_pc s", OF that(2)] by linarith
  have "\<not> 2 \<le> cnt in_lock (r_pc s) n" using t by linarith
  then show "i = j" if "i < n" "j < n" "in_lock (r_pc s i)" "in_lock (r_pc s j)"
    using cnt_two [of i n j in_lock "r_pc s"] that by blast
  show "readers s \<noteq> 0" if "i < n" "counted (r_pc s i)" using t cnt_pos [OF that(1), of counted "r_pc s", OF that(2)] by linarith
  show "\<not> group s \<and> writelock s = 0" if "j < m" "w_crit (w_pc s j)"
  proof -
    have "of_bool (group s) = (0 :: int)" "int (writelock s) = 0"
      using t cnt_pos [OF that(1), of w_crit "w_pc s", OF that(2)] b [of "group s"] by linarith+
    then show ?thesis by simp
  qed
  have "\<not> 2 \<le> cnt w_crit (w_pc s) m" using t b [of "group s"] by linarith
  then show "j = k" if "j < m" "k < m" "w_crit (w_pc s j)" "w_crit (w_pc s k)"
    using cnt_two [of j m k w_crit "w_pc s"] that by blast
  show "\<exists>i < n. in_lock (r_pc s i)" if "lock s = 0" using t that cnt_zero_iff [of in_lock "r_pc s" n] by auto
  show "\<exists>j < m. w_crit (w_pc s j)" if "writelock s = 0" "\<not> group s" using t that cnt_zero_iff [of w_crit "w_pc s" m] by auto
  show "\<exists>i < n. counted (r_pc s i)" if "readers s \<noteq> 0" using t that cnt_zero_iff [of counted "r_pc s" n] by auto
qed

text \<open>A reader outside \<open>lock\<close> relies at most on the group having \<open>writelock\<close>, while it is counted.\<close>

lemma know_outside: "\<not> in_lock x \<Longrightarrow> know x g r \<longleftrightarrow> (counted x \<longrightarrow> g)"
  by (cases x) simp_all

lemma reader_other: "\<lbrakk>reader rl i s s'; j \<noteq> i\<rbrakk> \<Longrightarrow> r_pc s' j = r_pc s j"
  by (auto elim!: reader.cases rwlock_acquire_readlock.cases rwlock_release_readlock.cases)

lemma reader_outside:
  "\<lbrakk>reader rl i s s'; \<not> in_lock (r_pc s i)\<rbrakk> \<Longrightarrow> group s' = group s \<and> readers s' = readers s"
  by (auto elim!: reader.cases rwlock_acquire_readlock.cases rwlock_release_readlock.cases)

lemma group_inv_reader:
  assumes st: "reader rl i s s'" and inv: "rw_tokens n m s" "group_inv n s" and i: "i < n"
  shows "group_inv n s'"
proof -
  have k: "know (r_pc s j) (group s) (readers s)" if "j < n" for j using inv(2) that by (simp add: group_inv_def)
  have free: "lock s \<noteq> 0 \<Longrightarrow> (group s \<longleftrightarrow> readers s \<noteq> 0)" using inv(2) by (simp add: group_inv_def)
  have held: "in_lock (r_pc s i) \<Longrightarrow> lock s = 0" by (rule rw_facts(1) [OF inv(1) i])
  have "know (r_pc s j) (group s') (readers s')" if j: "j < n" "j \<noteq> i" for j
  proof (cases "in_lock (r_pc s i)")
    case True
    then have out: "\<not> in_lock (r_pc s j)" using rw_facts(2) [OF inv(1) i j(1)] j(2) by blast
    have "readers s \<noteq> 0" if "counted (r_pc s j)" using rw_facts(3) [OF inv(1) j(1) that] .
    then have "counted (r_pc s j) \<longrightarrow> group s'"
      using st k [OF i] k [OF j(1)] out by (auto simp: know_outside elim!: reader.cases rwlock_acquire_readlock.cases rwlock_release_readlock.cases)
    then show ?thesis using out by (simp add: know_outside)
  next
    case False
    then show ?thesis using reader_outside [OF st] k [OF j(1)] by simp
  qed
  moreover have "know (r_pc s' i) (group s') (readers s') \<and> (lock s' \<noteq> 0 \<longrightarrow> (group s' \<longleftrightarrow> readers s' \<noteq> 0))"
    using st k [OF i] free held rw_facts(3) [OF inv(1) i]
    by (auto simp: sem_wait_def sem_post_def split: if_splits elim!: reader.cases rwlock_acquire_readlock.cases rwlock_release_readlock.cases)
  ultimately show ?thesis using reader_other [OF st] by (metis group_inv_def)
qed

section \<open>Exclusion\<close>

definition count_inv :: "nat \<Rightarrow> rwlock \<Rightarrow> bool" where
  "count_inv m s \<longleftrightarrow> counter s = int (writes s) \<and> (\<forall>j < m. w_pc s j = W_Store \<longrightarrow> wtmp s j = counter s)"

lemma reader_writers: "reader rl i s s' \<Longrightarrow> counter s' = counter s \<and> writes s' = writes s \<and> w_pc s' = w_pc s \<and> wtmp s' = wtmp s \<and> w_i s' = w_i s"
  by (auto elim!: reader.cases rwlock_acquire_readlock.cases rwlock_release_readlock.cases)

lemma writer_readers: "writer wl j s s' \<Longrightarrow> group s' = group s \<and> readers s' = readers s \<and> lock s' = lock s \<and> r_pc s' = r_pc s \<and> r_i s' = r_i s"
  by (auto elim: writer.cases)

lemma count_inv_writer:
  assumes st: "writer wl j s s'" and inv: "rw_tokens n m s" "count_inv m s" and j: "j < m"
  shows "count_inv m s'"
  using st
proof cases
  case w_store
  have "w_pc s k \<noteq> W_Store" if "k < m" "k \<noteq> j" for k using rw_facts(5) [OF inv(1) j that(1)] w_store that(2) by auto
  then show ?thesis using w_store inv(2) j by (auto simp: count_inv_def)
qed (use inv(2) in \<open>auto simp: count_inv_def\<close>)

lemma rw_run_inv: "rw_run n m rl wl k s \<Longrightarrow> rw_tokens n m s \<and> group_inv n s \<and> count_inv m s"
proof (induction rule: rw_run.induct)
  case start
  have z: "cnt P (\<lambda>_. x) k = (if P x then int k else 0)" for P :: "'b \<Rightarrow> bool" and x k by (simp add: cnt_def)
  show ?case by (simp add: rw_tokens_def group_inv_def count_inv_def rwlock_init_def z)
next
  case (step k s s')
  then have i: "rw_tokens n m s" "group_inv n s" "count_inv m s" by simp_all
  have "rw_tokens n m s'" using rw_tokens_step [OF step.hyps(2) i(1,2)] .
  moreover from step.hyps(2) have "group_inv n s' \<and> count_inv m s'"
  proof cases
    case (rw_reader k)
    then show ?thesis using group_inv_reader [OF rw_reader(2) i(1,2)] reader_writers [OF rw_reader(2)] i(3) by (simp add: count_inv_def)
  next
    case (rw_writer k)
    then show ?thesis using count_inv_writer [OF rw_writer(2) i(1,3)] writer_readers [OF rw_writer(2)] i(2) by (simp add: group_inv_def)
  qed
  ultimately show ?case by blast
qed

lemma rw_exclusion:
  assumes "rw_run n m rl wl l s"
  shows "\<lbrakk>i < n; r_pc s i = R_Read; j < m\<rbrakk> \<Longrightarrow> \<not> w_crit (w_pc s j)"
    "\<lbrakk>j < m; k < m; w_crit (w_pc s j); w_crit (w_pc s k)\<rbrakk> \<Longrightarrow> j = k"
proof -
  note inv = rw_run_inv [OF assms]
  show "\<not> w_crit (w_pc s j)" if "i < n" "r_pc s i = R_Read" "j < m"
  proof -
    have "know (r_pc s i) (group s) (readers s)" using inv that(1) by (simp add: group_inv_def)
    then have "group s" using that(2) by simp
    then show ?thesis using rw_facts(4) [of n m s j] inv that(3) by blast
  qed
  show "j = k" if "j < m" "k < m" "w_crit (w_pc s j)" "w_crit (w_pc s k)" using rw_facts(5) [of n m s j k] inv that by blast
qed

section \<open>Progress\<close>

definition rw_done :: "nat \<Rightarrow> nat \<Rightarrow> rwlock \<Rightarrow> bool" where
  "rw_done n m s \<longleftrightarrow> (\<forall>i < n. r_pc s i = R_Done) \<and> (\<forall>j < m. w_pc s j = W_Done)"

lemma stuck_reader:
  assumes "\<And>s'. \<not> reader rl i s s'"
  shows "r_pc s i = R_Done \<or> (r_pc s i = R_Wait_Lock \<or> r_pc s i = R_Rel_Lock) \<and> lock s = 0 \<or> r_pc s i = R_Wait_Write \<and> writelock s = 0"
proof -
  have a: "\<not> rwlock_acquire_readlock i s s'" "\<not> rwlock_release_readlock i s s'" for s' using assms reader.intros by blast+
  have "lock s = 0" if "r_pc s i = R_Wait_Lock" using a ar_lock that by (cases "sem_wait (lock s)") (simp, blast)
  moreover have "lock s = 0" if "r_pc s i = R_Rel_Lock" using a rr_lock that by (cases "sem_wait (lock s)") (simp, blast)
  moreover have "writelock s = 0" if "r_pc s i = R_Wait_Write" using a ar_write that by (cases "sem_wait (writelock s)") (simp, blast)
  ultimately show ?thesis
    using assms a by (cases "r_pc s i"; cases "r_i s i < rl"; cases "readers s = 1"; cases "readers s = 0")
      (auto dest: reader.intros rwlock_acquire_readlock.intros rwlock_release_readlock.intros)
qed

lemma stuck_writer:
  assumes "\<And>s'. \<not> writer wl j s s'"
  shows "w_pc s j = W_Done \<or> w_pc s j = W_Wait \<and> writelock s = 0"
proof -
  have "writelock s = 0" if "w_pc s j = W_Wait" using assms w_acquire that by (cases "sem_wait (writelock s)") (simp, blast)
  then show ?thesis using assms by (cases "w_pc s j"; cases "w_i s j < wl") (auto dest: writer.intros)
qed

lemma rw_stuck_done:
  assumes run: "rw_run n m rl wl k s" and stuck: "\<And>s'. \<not> rw_step n m rl wl s s'"
  shows "rw_done n m s"
proof -
  note inv = rw_run_inv [OF run]
  have r: "r_pc s i = R_Done \<or> (r_pc s i = R_Wait_Lock \<or> r_pc s i = R_Rel_Lock) \<and> lock s = 0 \<or> r_pc s i = R_Wait_Write \<and> writelock s = 0"
    if "i < n" for i using stuck_reader stuck rw_reader that by blast
  have w: "w_pc s j = W_Done \<or> w_pc s j = W_Wait \<and> writelock s = 0" if "j < m" for j using stuck_writer stuck rw_writer that by blast
  have nw: "\<not> w_crit (w_pc s j)" if "j < m" for j using w [OF that] by auto
  have "r_pc s i \<noteq> R_Wait_Write" if "i < n" for i
  proof
    assume e: "r_pc s i = R_Wait_Write"
    have "know (r_pc s i) (group s) (readers s)" using inv that by (simp add: group_inv_def)
    then have "\<not> group s" using e by simp
    moreover have "writelock s = 0" using r [OF that] e by simp
    ultimately show False using rw_facts(7) [of n m s] inv nw by blast
  qed
  with r have r': "r_pc s i = R_Done \<or> (r_pc s i = R_Wait_Lock \<or> r_pc s i = R_Rel_Lock) \<and> lock s = 0" if "i < n" for i using that by blast
  then have "\<not> in_lock (r_pc s i)" if "i < n" for i using that by fastforce
  then have l: "lock s \<noteq> 0" using rw_facts(6) [of n m s] inv by blast
  then have rd: "r_pc s i = R_Done" if "i < n" for i using r' [OF that] by simp
  then have "\<not> counted (r_pc s i)" if "i < n" for i using that by simp
  then have "readers s = 0" using rw_facts(8) [of n m s] inv by blast
  then have "\<not> group s" using inv l by (simp add: group_inv_def)
  then have "writelock s \<noteq> 0" using rw_facts(7) [of n m s] inv nw by blast
  then show ?thesis using rd w by (auto simp: rw_done_def)
qed

section \<open>Termination\<close>

primrec r_rank :: "reader_pc \<Rightarrow> int" where
  "r_rank R_Loop = 12" | "r_rank R_Wait_Lock = 11" | "r_rank R_Incr = 10" | "r_rank R_Test = 9" | "r_rank R_Wait_Write = 8"
| "r_rank R_Post_Lock = 7" | "r_rank R_Read = 6" | "r_rank R_Rel_Lock = 5" | "r_rank R_Decr = 4" | "r_rank R_Test_Last = 3"
| "r_rank R_Post_Write = 2" | "r_rank R_Rel_Post = 1" | "r_rank R_Done = 0"

primrec w_rank :: "writer_pc \<Rightarrow> int" where
  "w_rank W_Loop = 5" | "w_rank W_Wait = 4" | "w_rank W_Load = 3" | "w_rank W_Store = 2" | "w_rank W_Post = 1" | "w_rank W_Done = 0"

definition r_work :: "nat \<Rightarrow> rwlock \<Rightarrow> nat \<Rightarrow> int" where
  "r_work rl s i = 12 * (int rl - int (r_i s i)) + r_rank (r_pc s i)"

definition w_work :: "nat \<Rightarrow> rwlock \<Rightarrow> nat \<Rightarrow> int" where
  "w_work wl s j = 5 * (int wl - int (w_i s j)) + w_rank (w_pc s j)"

definition loop_inv :: "nat \<Rightarrow> nat \<Rightarrow> rwlock \<Rightarrow> bool" where
  "loop_inv rl wl s \<longleftrightarrow> (\<forall>i. r_i s i + of_bool (r_pc s i \<noteq> R_Loop \<and> r_pc s i \<noteq> R_Done) \<le> rl) \<and>
     (\<forall>j. w_i s j + of_bool (w_pc s j \<noteq> W_Loop \<and> w_pc s j \<noteq> W_Done) \<le> wl)"

lemma reader_own: "\<lbrakk>reader rl i s s'; j \<noteq> i\<rbrakk> \<Longrightarrow> r_i s' j = r_i s j"
  by (auto elim!: reader.cases rwlock_acquire_readlock.cases rwlock_release_readlock.cases)

lemma reader_work:
  assumes "reader rl i s s'"
  shows "r_work rl s' i < r_work rl s i"
    "r_i s i + of_bool (r_pc s i \<noteq> R_Loop \<and> r_pc s i \<noteq> R_Done) \<le> rl \<Longrightarrow> r_i s' i + of_bool (r_pc s' i \<noteq> R_Loop \<and> r_pc s' i \<noteq> R_Done) \<le> rl"
  using assms by (auto simp: r_work_def elim!: reader.cases rwlock_acquire_readlock.cases rwlock_release_readlock.cases)

lemma writer_work:
  assumes "writer wl j s s'"
  shows "w_work wl s' j < w_work wl s j" "k \<noteq> j \<Longrightarrow> w_i s' k = w_i s k \<and> w_pc s' k = w_pc s k"
    "w_i s j + of_bool (w_pc s j \<noteq> W_Loop \<and> w_pc s j \<noteq> W_Done) \<le> wl \<Longrightarrow> w_i s' j + of_bool (w_pc s' j \<noteq> W_Loop \<and> w_pc s' j \<noteq> W_Done) \<le> wl"
  using assms by (auto simp: w_work_def elim!: writer.cases)

lemma rw_step_work:
  assumes "rw_step n m rl wl s s'" "loop_inv rl wl s"
  shows "loop_inv rl wl s'" "(\<Sum>i < n. r_work rl s' i) + (\<Sum>j < m. w_work wl s' j) < (\<Sum>i < n. r_work rl s i) + (\<Sum>j < m. w_work wl s j)"
proof -
  from assms(1) have "loop_inv rl wl s' \<and> (\<Sum>i < n. r_work rl s' i) + (\<Sum>j < m. w_work wl s' j) < (\<Sum>i < n. r_work rl s i) + (\<Sum>j < m. w_work wl s j)"
  proof cases
    case (rw_reader i)
    have o: "r_i s' k = r_i s k" "r_pc s' k = r_pc s k" if "k \<noteq> i" for k using reader_own [OF rw_reader(2) that] reader_other [OF rw_reader(2) that] by simp_all
    have "(\<Sum>k < n. r_work rl s' k) = (\<Sum>k < n. r_work rl s k) - r_work rl s i + r_work rl s' i"
      using rw_reader(1) o by (intro sum_one) (simp_all add: r_work_def)
    moreover have "w_work wl s' = w_work wl s" using reader_writers [OF rw_reader(2)] by (simp add: w_work_def fun_eq_iff)
    moreover have "loop_inv rl wl s'"
      using assms(2) reader_work(2) [OF rw_reader(2)] reader_writers [OF rw_reader(2)] o unfolding loop_inv_def by metis
    ultimately show ?thesis using reader_work(1) [OF rw_reader(2)] by simp
  next
    case (rw_writer j)
    have "(\<Sum>k < m. w_work wl s' k) = (\<Sum>k < m. w_work wl s k) - w_work wl s j + w_work wl s' j"
      using rw_writer(1) writer_work(2) [OF rw_writer(2)] by (intro sum_one) (simp_all add: w_work_def)
    moreover have "r_work rl s' = r_work rl s" using writer_readers [OF rw_writer(2)] by (simp add: r_work_def fun_eq_iff)
    moreover have "loop_inv rl wl s'"
      using assms(2) writer_work(2,3) [OF rw_writer(2)] writer_readers [OF rw_writer(2)] unfolding loop_inv_def by metis
    ultimately show ?thesis using writer_work(1) [OF rw_writer(2)] by simp
  qed
  then show "loop_inv rl wl s'" "(\<Sum>i < n. r_work rl s' i) + (\<Sum>j < m. w_work wl s' j) < (\<Sum>i < n. r_work rl s i) + (\<Sum>j < m. w_work wl s j)" by blast+
qed

lemma rw_run_bound:
  assumes "rw_run n m rl wl k s"
  shows "k \<le> 12 * n * (rl + 1) + 5 * m * (wl + 1)"
proof -
  have l: "loop_inv rl wl s \<and> int k + (\<Sum>i < n. r_work rl s i) + (\<Sum>j < m. w_work wl s j) \<le> int (12 * n * (rl + 1) + 5 * m * (wl + 1))"
    using assms
  proof (induction rule: rw_run.induct)
    case start
    show ?case by (simp add: loop_inv_def rwlock_init_def r_work_def w_work_def algebra_simps)
  next
    case (step k s s')
    then show ?case using rw_step_work [OF step.hyps(2)] by auto
  qed
  have "0 \<le> r_rank x" "0 \<le> w_rank y" for x y by (cases x, simp_all) (cases y, simp_all)
  moreover have "r_i s i \<le> rl" "w_i s i \<le> wl" for i using l unfolding loop_inv_def by (meson add_leD1)+
  ultimately have "0 \<le> r_work rl s i" "0 \<le> w_work wl s i" for i by (simp_all add: r_work_def w_work_def)
  then have "0 \<le> (\<Sum>i < n. r_work rl s i)" "0 \<le> (\<Sum>j < m. w_work wl s j)" by (simp_all add: sum_nonneg)
  then show ?thesis using l by linarith
qed

interpretation rw_program: bounded_program "rw_run n m rl wl" "rw_step n m rl wl" rwlock_init "12 * n * (rl + 1) + 5 * m * (wl + 1)" for n m rl wl
  by unfold_locales (rule rw_run.start, erule (1) rw_run.step, rule rw_run_bound)

end
