(* ===== verification/Cycle_List.thy ===== *)
theory Cycle_List
  imports Main "HOL-Library.Monad_Syntax"
begin

text \<open>
  The circular doubly linked lists of \<open>code/cycle_linked_list.c\<close>. Nodes are addresses, and the heap is
  the two pointer fields of \<open>struct list_entry\<close>. Assignments are made one after the other, so that it
  matters which of the nodes are the same.
\<close>

type_synonym addr = nat

record list_heap =
  prev :: "addr \<Rightarrow> addr"
  nxt :: "addr \<Rightarrow> addr"

definition set_prev :: "addr \<Rightarrow> addr \<Rightarrow> list_heap \<Rightarrow> list_heap" where
  "set_prev e v h = h\<lparr>prev := (prev h)(e := v)\<rparr>"

definition set_nxt :: "addr \<Rightarrow> addr \<Rightarrow> list_heap \<Rightarrow> list_heap" where
  "set_nxt e v h = h\<lparr>nxt := (nxt h)(e := v)\<rparr>"

definition list_init :: "addr \<Rightarrow> list_heap \<Rightarrow> list_heap" where
  "list_init elm h = set_prev elm elm (set_nxt elm elm h)"

definition list_add :: "addr \<Rightarrow> addr \<Rightarrow> addr \<Rightarrow> list_heap \<Rightarrow> list_heap" where
  "list_add elm p n h = set_prev elm p (set_nxt elm n (set_nxt p elm (set_prev n elm h)))"

definition list_add_before :: "addr \<Rightarrow> addr \<Rightarrow> list_heap \<Rightarrow> list_heap" where
  "list_add_before listelm elm h = list_add elm (prev h listelm) listelm h"

definition list_add_after :: "addr \<Rightarrow> addr \<Rightarrow> list_heap \<Rightarrow> list_heap" where
  "list_add_after listelm elm h = list_add elm listelm (nxt h listelm) h"

definition list_unlink :: "addr \<Rightarrow> addr \<Rightarrow> list_heap \<Rightarrow> list_heap" where
  "list_unlink p n h = set_prev n p (set_nxt p n h)"

definition list_del :: "addr \<Rightarrow> list_heap \<Rightarrow> list_heap" where
  "list_del listelm h = list_unlink (prev h listelm) (nxt h listelm) h"

definition list_next :: "addr \<Rightarrow> list_heap \<Rightarrow> addr" where
  "list_next listelm h = nxt h listelm"

text \<open>The loops over a list: the nodes in the order in which they are visited.\<close>

partial_function (option) visit :: "addr \<Rightarrow> addr \<Rightarrow> list_heap \<Rightarrow> addr list option" where
  "visit head le h =
     (let le = list_next le h in
      if le = head then Some [] else do { xs \<leftarrow> visit head le h; Some (le # xs) })"

section \<open>Rings\<close>

fun linked :: "list_heap \<Rightarrow> addr list \<Rightarrow> bool" where
  "linked h (x # y # zs) \<longleftrightarrow> nxt h x = y \<and> prev h y = x \<and> linked h (y # zs)"
| "linked h _ \<longleftrightarrow> True"

text \<open>The list with the header \<open>head\<close> and the nodes \<open>xs\<close>.\<close>

definition cycle :: "addr \<Rightarrow> addr list \<Rightarrow> list_heap \<Rightarrow> bool" where
  "cycle head xs h \<longleftrightarrow> distinct (head # xs) \<and> linked h (head # xs @ [head])"

lemma heap_simps [simp]:
  "nxt (set_prev e v h) = nxt h" "prev (set_prev e v h) = (prev h)(e := v)"
  "prev (set_nxt e v h) = prev h" "nxt (set_nxt e v h) = (nxt h)(e := v)"
  by (simp_all add: set_prev_def set_nxt_def)

lemma linked_append: "linked h (xs @ y # zs) \<longleftrightarrow> linked h (xs @ [y]) \<and> linked h (y # zs)"
proof (induction xs)
  case (Cons x xs)
  then show ?case by (cases xs) auto
qed simp

text \<open>Pointers that a chain does not use may change: the first node has no predecessor in it, the last no successor.\<close>

lemma linked_cong:
  assumes "linked h xs" "\<And>x. x \<in> set (butlast xs) \<Longrightarrow> nxt h' x = nxt h x" "\<And>x. x \<in> set (tl xs) \<Longrightarrow> prev h' x = prev h x"
  shows "linked h' xs"
  using assms by (induction h xs rule: linked.induct) auto

lemma cycle_init: "cycle e [] (list_init e h)"
  by (simp add: cycle_def list_init_def)

text \<open>A new node between two neighbours.\<close>

lemma linked_insert:
  assumes "linked h (xs @ [p, n] @ zs)" "elm \<notin> set (xs @ [p, n] @ zs)" "distinct (xs @ [p])" "distinct (n # zs)"
    "n \<notin> set (tl (xs @ [p]))" "p \<notin> set (butlast (n # zs))"
  shows "linked (list_add elm p n h) (xs @ [p, elm, n] @ zs)"
proof -
  let ?h = "list_add elm p n h"
  have l: "linked h (xs @ [p])" "linked h (n # zs)"
    using assms(1) linked_append [of h xs p "n # zs"] linked_append [of h "[p]" n zs] by simp_all
  have d: "elm \<noteq> p" "elm \<noteq> n" "elm \<notin> set xs" "elm \<notin> set zs" using assms(2) by auto
  have "elm \<notin> set (tl (xs @ [p]))" using d by (cases xs) auto
  then have "linked ?h (xs @ [p])"
    using assms(3,5) d by (intro linked_cong [OF l(1)]) (auto simp: list_add_def split: if_splits)
  moreover have "linked ?h (n # zs)"
    using assms(4,6) d by (intro linked_cong [OF l(2)]) (auto simp: list_add_def dest: in_set_butlastD split: if_splits)
  moreover have "linked ?h [p, elm, n]" using d by (simp add: list_add_def)
  ultimately show ?thesis
    using linked_append [of ?h xs p "elm # n # zs"] linked_append [of ?h "[p, elm]" n zs] linked_append [of ?h "[p]" elm "n # zs"] by simp
qed

text \<open>Removing the node between two neighbours.\<close>

lemma linked_remove:
  assumes "linked h (xs @ [p, elm, n] @ zs)" "distinct (xs @ [p])" "distinct (n # zs)" "n \<notin> set (tl (xs @ [p]))" "p \<notin> set (butlast (n # zs))"
  shows "linked (list_del elm h) (xs @ [p, n] @ zs)"
proof -
  let ?h = "list_del elm h"
  have l: "linked h (xs @ [p])" "linked h (n # zs)" "linked h [p, elm, n]"
    using assms(1) linked_append [of h xs p "elm # n # zs"] linked_append [of h "[p, elm]" n zs] by simp_all
  then have e: "?h = list_unlink p n h" by (simp add: list_del_def)
  have "linked ?h (xs @ [p])" unfolding e
    using assms(2,4) by (intro linked_cong [OF l(1)]) (auto simp: list_unlink_def split: if_splits)
  moreover have "linked ?h (n # zs)" unfolding e
    using assms(3,5) by (intro linked_cong [OF l(2)]) (auto simp: list_unlink_def split: if_splits)
  moreover have "linked ?h [p, n]" unfolding e by (simp add: list_unlink_def)
  ultimately show ?thesis using linked_append [of ?h xs p "n # zs"] linked_append [of ?h "[p]" n zs] by simp
qed

text \<open>The operations on rings: after the header, before it, and anywhere in between.\<close>

lemma cycle_add_after:
  assumes "cycle head xs h" "elm \<notin> set (head # xs)"
  shows "cycle head (elm # xs) (list_add_after head elm h)"
proof -
  obtain n zs where n: "xs @ [head] = n # zs" by (cases "xs @ [head]") auto
  have l: "linked h ([] @ [head, n] @ zs)" and nn: "nxt h head = n" using assms(1) n by (simp_all add: cycle_def)
  have s: "set (n # zs) = insert head (set xs)" "set (butlast (n # zs)) = set xs" using n by (metis set_append list.set(1,2) Un_insert_right sup_bot_right, metis butlast_snoc)
  have "distinct (n # zs)" using assms(1) n by (metis distinct.simps(2) distinct_append distinct_singleton disjoint_insert(1) inf_bot_right list.set(1,2) cycle_def)
  then have "linked (list_add elm head n h) ([] @ [head, elm, n] @ zs)"
    using assms s by (intro linked_insert [OF l]) (auto simp: cycle_def)
  then show ?thesis using assms n nn by (simp add: cycle_def list_add_after_def)
qed

lemma cycle_add_before:
  assumes "cycle head xs h" "elm \<notin> set (head # xs)"
  shows "cycle head (xs @ [elm]) (list_add_before head elm h)"
proof -
  obtain ys p where p: "head # xs = ys @ [p]" by (metis rev_exhaust list.distinct(1))
  have l: "linked h (ys @ [p, head] @ [])" using assms(1) p by (simp add: cycle_def) (metis append_Cons append.assoc append_Nil)
  then have pp: "prev h head = p" using linked_append [of h ys p "[head]"] by simp
  have t: "tl (ys @ [p]) = xs" "set (ys @ [p]) = set (head # xs)" "distinct (ys @ [p])" using p assms(1) by (metis list.sel(3), metis, metis cycle_def)
  then have "linked (list_add elm p head h) (ys @ [p, elm, head] @ [])"
    using assms by (intro linked_insert [OF l]) (auto simp: cycle_def)
  then have "linked (list_add elm p head h) ((head # xs) @ [elm, head])" unfolding p by simp
  then show ?thesis using assms pp by (simp add: cycle_def list_add_before_def)
qed

lemma cycle_del:
  assumes "cycle head (as @ elm # bs) h"
  shows "cycle head (as @ bs) (list_del elm h)"
proof -
  obtain ys p where p: "head # as = ys @ [p]" by (metis rev_exhaust list.distinct(1))
  obtain n zs where n: "bs @ [head] = n # zs" by (cases "bs @ [head]") auto
  have d: "distinct (head # as @ elm # bs)" using assms by (simp add: cycle_def)
  have "linked h ((head # as) @ [elm] @ (bs @ [head]))" using assms by (simp add: cycle_def)
  then have l: "linked h (ys @ [p, elm, n] @ zs)" unfolding p n by simp
  have t: "tl (ys @ [p]) = as" "set (ys @ [p]) = set (head # as)" "distinct (ys @ [p])" using p d by (metis list.sel(3), metis, metis distinct_append append_Cons)
  have s: "set (butlast (n # zs)) = set bs" "set (n # zs) = insert head (set bs)" using n by (metis butlast_snoc, metis Un_insert_right list.set(1,2) set_append sup_bot_right)
  have "distinct (bs @ [head])" using d by auto
  then have "distinct (n # zs)" using n by metis
  moreover have "n \<in> insert head (set bs)" "p \<in> set (head # as)" using s(2) t(2) by (metis list.set_intros(1), metis in_set_conv_decomp)
  then have "n \<notin> set as" "p \<notin> set bs" using d by auto
  ultimately have "linked (list_del elm h) (ys @ [p, n] @ zs)" using t s by (intro linked_remove [OF l]) auto
  moreover have "ys @ [p, n] @ zs = head # (as @ bs) @ [head]" using p n by (metis append.assoc append_Cons append_Nil)
  ultimately show ?thesis using d by (auto simp: cycle_def)
qed

lemma visit_chain: "\<lbrakk>linked h (x # xs @ [head]); head \<notin> set xs\<rbrakk> \<Longrightarrow> visit head x h = Some xs"
proof (induction xs arbitrary: x)
  case Nil
  then show ?case by (subst visit.simps) (simp add: list_next_def)
next
  case (Cons y xs)
  then have "visit head y h = Some xs" by simp
  then show ?case using Cons.prems by (subst visit.simps) (auto simp: list_next_def)
qed

lemma visit_cycle: "cycle head xs h \<Longrightarrow> visit head head h = Some xs"
  by (auto simp: cycle_def intro: visit_chain)

section \<open>The program\<close>

text \<open>The two lists of \<open>main\<close>: nodes added after the header, and nodes added before it.\<close>

definition buf_cache_list :: "addr \<Rightarrow> addr list \<Rightarrow> list_heap \<Rightarrow> list_heap" where
  "buf_cache_list head nodes h = fold (list_add_after head) nodes (list_init head h)"

definition free_area_list :: "addr \<Rightarrow> addr list \<Rightarrow> list_heap \<Rightarrow> list_heap" where
  "free_area_list head nodes h = fold (list_add_before head) nodes (list_init head h)"

lemma cycle_buf_cache: "distinct (head # nodes) \<Longrightarrow> cycle head (rev nodes) (buf_cache_list head nodes h)"
proof (induction nodes rule: rev_induct)
  case Nil
  show ?case by (simp add: buf_cache_list_def cycle_init)
next
  case (snoc x nodes)
  then have "cycle head (rev nodes) (buf_cache_list head nodes h)" by simp
  from cycle_add_after [OF this, of x] show ?case using snoc.prems by (simp add: buf_cache_list_def)
qed

lemma cycle_free_area: "distinct (head # nodes) \<Longrightarrow> cycle head nodes (free_area_list head nodes h)"
proof (induction nodes rule: rev_induct)
  case Nil
  show ?case by (simp add: free_area_list_def cycle_init)
next
  case (snoc x nodes)
  then have "cycle head nodes (free_area_list head nodes h)" by simp
  from cycle_add_before [OF this, of x] show ?case using snoc.prems by (simp add: free_area_list_def)
qed

end
