(* ===== verification/Thread_Properties.thy ===== *)
theory Thread_Properties
  imports Prod_Cons Dining Rwlock Cycle_List
begin

text \<open>
  Properties of the thread programs and of the circular lists.
\<close>

definition ex_heap :: list_heap where "ex_heap = \<lparr>prev = (\<lambda>_. 0), nxt = (\<lambda>_. 0)\<rparr>"

text \<open>
  C10. A zemaphore is a semaphore: whatever the threads do, the decrements and increments they make, in
  the order in which they make them, are a run of an atomic semaphore that ends with the value of the
  zemaphore. No wake-up is lost: when no thread inside \<open>Zem_wait\<close> or \<open>Zem_post\<close> can go on other than
  by waking up for no reason, all that are inside sleep and the value is 0.
\<close>

theorem zem_refines_sem:
  assumes "zem_run n v es z" "0 \<le> v"
  shows "sem_run es (nat v) = Some (nat (zvalue z)) \<and>
    ((\<forall>i e z'. zem_step i z e z' \<longrightarrow> zpcs z i = Outside \<or> zpcs z i = Asleep) \<longrightarrow>
     (\<forall>j. zpcs z j = Outside \<or> zpcs z j = Asleep \<and> zvalue z = 0))"
  using zem_run_sim [OF assms] no_lost_wakeup [OF assms] by blast

lemma ex_zem_run: "zem_run 1 1 [Down] (goto 0 Wait_Unlock ((goto 0 Wait_Take (goto 0 Wait_Test ((goto 0 Wait_Lock (Zem_init 1))\<lparr>zlock := Some 0\<rparr>)))\<lparr>zvalue := 0\<rparr>))"
proof -
  let ?z1 = "goto 0 Wait_Lock (Zem_init 1)"
  let ?z2 = "goto 0 Wait_Test (?z1\<lparr>zlock := Some 0\<rparr>)"
  let ?z3 = "goto 0 Wait_Take ?z2"
  have i: "(0 :: nat) < 1" by simp
  have "zem_step 0 (Zem_init 1) [] ?z1" by (rule zem_step.call_wait) (simp add: Zem_init_def)
  from zem_run.step [OF zem_run.init i this] have 1: "zem_run 1 1 [] ?z1" by simp
  have "zem_step 0 ?z1 [] ?z2" by (rule zem_step.in_wait, rule Zem_wait.wait_lock) (simp_all add: Zem_init_def)
  from zem_run.step [OF 1 i this] have 2: "zem_run 1 1 [] ?z2" by simp
  have "zem_step 0 ?z2 [] ?z3" by (rule zem_step.in_wait, rule Zem_wait.wait_leave) (simp_all add: Zem_init_def)
  from zem_run.step [OF 2 i this] have 3: "zem_run 1 1 [] ?z3" by simp
  have "zem_step 0 ?z3 [Down] (goto 0 Wait_Unlock (?z3\<lparr>zvalue := zvalue ?z3 - 1\<rparr>))"
    by (rule zem_step.in_wait, rule Zem_wait.wait_take) simp
  from zem_run.step [OF 3 i this] show ?thesis by (simp add: Zem_init_def)
qed

theorem zem_refines_sem_witness: "sem_run [Down] (nat 1) = Some 0"
  using zem_refines_sem [OF ex_zem_run] by simp

text \<open>
  C7. With a buffer of at least one slot and at least one consumer, however the threads interleave: the
  values taken out are the values put in, in order and without gaps, and never more than the buffer holds
  are in flight; the program makes a bounded number of steps; and it stops only when the producer and
  all consumers have returned and every value was consumed.
\<close>

theorem prod_cons_completes:
  assumes "shop_run bmax loops n k s" "0 < bmax" "0 < n"
  shows "got s = map (item loops) [0..<length (got s)] \<and> fills s \<le> length (got s) + bmax \<and>
    k \<le> 16 * (loops + n) + 8 + 4 * n \<and>
    ((\<forall>s'. \<not> shop_step bmax loops n s s') \<longrightarrow> all_done n s \<and> got s = map (item loops) [0..<loops + n])"
proof -
  note inv = shop_run_inv [OF assms(1,2)]
  have t: "token_inv bmax n s" "buf_inv bmax loops s" using inv by (simp_all add: shop_inv_def)
  have "fills s \<le> length (got s) + bmax" by (rule token_facts(2) [OF t(1)])
  moreover have "k \<le> 16 * (loops + n) + 8 + 4 * n" using shop_run_bound [OF assms(1,2)] by linarith
  ultimately show ?thesis using t(2) stuck_done [OF inv _ assms(2,3)] by (auto simp: buf_inv_def)
qed

theorem prod_cons_completes_witness: "\<exists>k s. shop_run 1 2 1 k s \<and> all_done 1 s \<and> got s = [0, 1, -1]"
proof -
  obtain k s where r: "shop_run 1 2 1 k s" "\<forall>s'. \<not> shop_step 1 2 1 s s'" using shop_program.has_complete_run [of 0 2 1] by auto
  have "got s = map (item 2) [0..<2 + 1]" "all_done 1 s" using prod_cons_completes [OF r(1)] r(2) by simp_all
  then show ?thesis using r(1) by (auto simp: item_def upt_rec)
qed

text \<open>
  C13. The philosophers who take the lower fork first: two neighbours never eat at the same time, the
  number of steps is bounded, and the program stops only when all five have eaten as often as they
  should.
\<close>

theorem dining_completes:
  assumes "dine get_forks N k t"
  shows "(\<forall>p < 5. place t p = Eat \<longrightarrow> place t (right p) \<noteq> Eat) \<and> k \<le> 30 * (N + 1) \<and>
    (stuck get_forks N t \<longrightarrow> (\<forall>p < 5. place t p = Finished \<and> rounds t p = N))"
  using neighbours_do_not_eat [OF assms get_forks_both(1)] dine_bound [OF assms] stuck_finished [OF assms]
  by (auto simp: round_inv_def)

theorem dining_completes_witness: "\<exists>k t. dine get_forks 3 k t \<and> (\<forall>p < 5. place t p = Finished \<and> rounds t p = 3)"
proof -
  obtain k t where r: "dine get_forks 3 k t" "\<forall>t'. \<not> table_step get_forks 3 t t'" using dinner.has_complete_run [of get_forks 3] by blast
  then have "stuck get_forks 3 t" by (auto simp: stuck_def)
  then show ?thesis using dining_completes [OF r(1)] r(1) by blast
qed

text \<open>
  C39. When every philosopher takes the left fork first, the program can deadlock: after ten steps each
  holds one fork and waits for the other, and nobody can go on.
\<close>

theorem dining_naive_deadlock:
  assumes "0 < N"
  shows "\<exists>t. dine get_forks_naive N 10 t \<and> stuck get_forks_naive N t \<and> (\<forall>p < 5. place t p = Wait_Second)"
  using naive_deadlock [OF assms] by (intro exI [of _ "all_waiting 5"]) (simp add: all_waiting_def)

theorem dining_naive_deadlock_witness: "\<exists>t. dine get_forks_naive 1 10 t \<and> stuck get_forks_naive 1 t"
  using dining_naive_deadlock [of 1] by auto

text \<open>
  C19. While a reader reads, no writer is between acquiring and releasing the lock, and at most one
  writer ever is; no increment of the counter is lost; the number of steps is bounded, and the program
  stops only when all readers and writers have returned.
\<close>

theorem rwlock_excludes:
  assumes "rw_run n m rl wl k s"
  shows "(\<forall>i < n. \<forall>j < m. r_pc s i = R_Read \<longrightarrow> \<not> w_crit (w_pc s j)) \<and>
    (\<forall>j < m. \<forall>l < m. w_crit (w_pc s j) \<and> w_crit (w_pc s l) \<longrightarrow> j = l) \<and>
    counter s = int (writes s) \<and> k \<le> 12 * n * (rl + 1) + 5 * m * (wl + 1) \<and> ((\<forall>s'. \<not> rw_step n m rl wl s s') \<longrightarrow> rw_done n m s)"
  using rw_exclusion [OF assms] rw_run_inv [OF assms] rw_stuck_done [OF assms] rw_run_bound [OF assms] unfolding count_inv_def by blast

theorem rwlock_excludes_witness: "\<exists>k s. rw_run 2 3 1 1 k s \<and> rw_done 2 3 s"
proof -
  obtain k s where "rw_run 2 3 1 1 k s" "\<forall>s'. \<not> rw_step 2 3 1 1 s s'" using rw_program.has_complete_run [of 2 3 1 1] by blast
  then show ?thesis using rwlock_excludes by blast
qed

text \<open>
  C40. The operations on a circular list do what they should to the sequence of its nodes: a node added
  after the header is the first, one added before it the last, a deleted node is gone and the others
  stay in order, and the loop over the list visits the nodes in order and ends.
\<close>

theorem cycle_list_refines:
  assumes "cycle head xs h"
  shows "visit head head h = Some xs \<and>
    (elm \<notin> set (head # xs) \<longrightarrow> cycle head (elm # xs) (list_add_after head elm h) \<and> cycle head (xs @ [elm]) (list_add_before head elm h)) \<and>
    (elm \<in> set xs \<longrightarrow> cycle head (remove1 elm xs) (list_del elm h))"
proof -
  have "cycle head (remove1 elm xs) (list_del elm h)" if e: "elm \<in> set xs"
  proof -
    obtain as bs where ab: "xs = as @ elm # bs" "elm \<notin> set as" using split_list_first [OF e] by blast
    then have "remove1 elm xs = as @ bs" by (simp add: remove1_append)
    then show ?thesis using cycle_del [of head as elm bs h] assms ab(1) by simp
  qed
  then show ?thesis using visit_cycle [OF assms] cycle_add_after [OF assms] cycle_add_before [OF assms] by blast
qed

theorem cycle_list_refines_witness:
  "visit 0 0 (buf_cache_list 0 [1, 2, 3] ex_heap) = Some [3, 2, 1] \<and> visit 0 0 (free_area_list 0 [1, 2, 3, 4] ex_heap) = Some [1, 2, 3, 4]"
proof -
  have "cycle 0 [3, 2, 1] (buf_cache_list 0 [1, 2, 3] ex_heap)" "cycle 0 [1, 2, 3, 4] (free_area_list 0 [1, 2, 3, 4] ex_heap)"
    using cycle_buf_cache [of 0 "[1, 2, 3]" ex_heap] cycle_free_area [of 0 "[1, 2, 3, 4]" ex_heap] by simp_all
  then show ?thesis using cycle_list_refines by blast
qed

end
