(* ===== verification/Spec2Isabelle.thy ===== *)
theory Spec2Isabelle
  imports Jos_Properties Jos_Kernel_Properties Jos_Lib_Properties Jos_Fs_Properties Jos_User_Properties Jos_Serv_Properties Thread_Properties
begin

text \<open>
  A verification development for the kernels and programs collected in this repository.
\<close>

end
